(* ===== verification/Xv6_Prelude.thy ===== *)
theory Xv6_Prelude
  imports Main "HOL-Library.Word" "HOL-Library.Signed_Division" "HOL-Library.Monad_Syntax"
begin

unbundle bit_operations_syntax

section \<open>Shared vocabulary of the kernel model\<close>

text \<open>
  The machine integers of \<^verbatim>\<open>kernel/types.h\<close>, the meaning of \<^verbatim>\<open>panic\<close>, C's signed
  remainder, and the generic facts on words, lists and options that the component theories
  share.

  Conventions used by every theory of the development.
  \<^item> A C \<^verbatim>\<open>int\<close> is a 32-bit word read with \<^const>\<open>sint\<close>; \<^verbatim>\<open>uint\<close> and \<^verbatim>\<open>uint64\<close> are
    32 and 64-bit words read with \<^const>\<open>unat\<close>. Arithmetic wraps, which is what the
    compiled RV64 code does (also for signed overflow, where C itself makes no promise).
  \<^item> \<^verbatim>\<open>panic\<close> never returns. A function that can panic has an option type and panics with
    \<^const>\<open>None\<close>; the message is kept as the argument of \<open>panic\<close>.
  \<^item> A pointer into a static table (\<^verbatim>\<open>struct proc *\<close>, \<^verbatim>\<open>struct file *\<close>, \<^verbatim>\<open>struct inode *\<close>)
    is the index of the entry, with \<^const>\<open>None\<close> for the null pointer. A pointer into
    physical memory is a 64-bit word.
  \<^item> A section of code between \<^verbatim>\<open>acquire\<close> and \<^verbatim>\<open>release\<close> of one lock is one atomic step of
    the model. The lock itself is modelled, and shown to give mutual exclusion, in the
    theory of \<^verbatim>\<open>spinlock.c\<close>.
\<close>

type_synonym u8 = "8 word"
type_synonym u16 = "16 word"
type_synonym u32 = "32 word"
type_synonym u64 = "64 word"

text \<open>The C type \<^verbatim>\<open>int\<close>: the same bits as \<^typ>\<open>u32\<close>, read as two's complement.\<close>

type_synonym cint = "32 word"

named_theorems word_bounds \<open>bounds on machine words that arithmetic proofs start from\<close>

named_theorems frame \<open>parts of the state that an operation leaves alone\<close>

subsection \<open>panic\<close>

text \<open>
  \<^verbatim>\<open>panic\<close> prints its message and spins for ever (\<^verbatim>\<open>kernel/printf.c\<close>): the caller gets
  no value.
\<close>

definition panic :: "string \<Rightarrow> 'a option" where
  "panic msg = None"

lemma panic_None [simp]: "panic msg = None"
  by (simp add: panic_def)

lemma bind_Some_iff:
  "Option.bind x f = Some y \<longleftrightarrow> (\<exists>z. x = Some z \<and> f z = Some y)"
  by (cases x) auto

subsection \<open>C's signed remainder\<close>

text \<open>
  C's \<^verbatim>\<open>%\<close> on \<^verbatim>\<open>int\<close> truncates towards zero: the result has the sign of the dividend.
\<close>

definition c_rem :: "cint \<Rightarrow> cint \<Rightarrow> cint" where
  "c_rem a b = word_of_int (sint a smod sint b)"

lemma sint_range [word_bounds]:
  "- (2 ^ 31) \<le> sint (w :: 32 word)" "sint (w :: 32 word) < 2 ^ 31"
  using sint_greater_eq [of w] sint_less [of w] by simp_all

lemma sint_word_of_int_id:
  "- (2 ^ 31) \<le> k \<Longrightarrow> k < 2 ^ 31 \<Longrightarrow> sint (word_of_int k :: 32 word) = k"
  by (simp add: sint_sbintrunc' signed_take_bit_int_eq_self)

lemma sint_add_no_overflow:
  fixes a b :: "32 word"
  assumes "- (2 ^ 31) \<le> sint a + sint b" "sint a + sint b < 2 ^ 31"
  shows "sint (a + b) = sint a + sint b"
  using assms by (simp add: sint_word_add signed_take_bit_int_eq_self)

lemma smod_pos_bounds:
  assumes "(0::int) < b"
  shows "- b < a smod b" and "a smod b < b"
  using assms smod_int_range [where a = a and b = b] by auto

subsection \<open>Lists\<close>

text \<open>The first position of a list that satisfies a predicate.\<close>

lemma first_index_ex:
  assumes "i < length xs" "P (xs ! i)"
  obtains k where "k < length xs" "P (xs ! k)" "\<forall>m < k. \<not> P (xs ! m)"
proof -
  let ?k = "LEAST k. k < length xs \<and> P (xs ! k)"
  have "?k < length xs \<and> P (xs ! ?k)" by (rule LeastI_ex) (use assms in blast)
  moreover have "\<forall>m < ?k. \<not> P (xs ! m)"
    using not_less_Least calculation by (metis (no_types, lifting) less_trans)
  ultimately show thesis using that by blast
qed

subsection \<open>Signed values that are small\<close>

lemma sint_eq_unat:
  assumes "unat (w :: 32 word) < 2 ^ 31"
  shows "sint w = int (unat w)"
proof -
  have "int (unat w) < int (2 ^ 31)" using assms by (simp only: of_nat_less_iff)
  then have "uint w < 2 ^ 31" by (simp only: uint_nat of_nat_power of_nat_numeral)
  then have "signed_take_bit 31 (uint w) = uint w"
    using uint_ge_0 [of w] by (intro signed_take_bit_int_eq_self) linarith+
  then show ?thesis by (simp add: sint_uint)
qed

lemma unat_add_small:
  fixes a b :: "'a::len word"
  assumes "unat a + unat b < 2 ^ LENGTH('a)"
  shows "unat (a + b) = unat a + unat b"
  using assms by (simp add: unat_word_ariths)

lemma unat_sub_small:
  fixes a b :: "'a::len word"
  assumes "unat b \<le> unat a"
  shows "unat (a - b) = unat a - unat b"
  using assms by (simp add: unat_sub word_le_nat_alt)

lemma nat_sint_small: "unat (w :: 32 word) < 2 ^ 31 \<Longrightarrow> nat (sint w) = unat w"
  by (simp only: sint_eq_unat nat_int)

lemma sless_small:
  fixes a b :: "32 word"
  assumes "unat a < 2 ^ 31" "unat b < 2 ^ 31"
  shows "a <s b \<longleftrightarrow> unat a < unat b"
  using assms by (simp only: word_sless_alt sint_eq_unat of_nat_less_iff)

lemma sle_small:
  fixes a b :: "32 word"
  assumes "unat a < 2 ^ 31" "unat b < 2 ^ 31"
  shows "a \<le>s b \<longleftrightarrow> unat a \<le> unat b"
  using assms by (simp only: word_sle_eq sint_eq_unat of_nat_le_iff)

lemma unat_of_nat_small:
  "n < 2 ^ LENGTH('a) \<Longrightarrow> unat (of_nat n :: 'a::len word) = n"
  by (simp add: unat_of_nat take_bit_nat_eq_self)

lemma sint_of_nat_small:
  assumes "n < 2 ^ 31"
  shows "sint (of_nat n :: 32 word) = int n"
proof -
  have "unat (of_nat n :: 32 word) = n" using assms by (intro unat_of_nat_small) simp
  with assms sint_eq_unat [of "of_nat n"] show ?thesis by (simp only:)
qed

lemma of_nat_inj_small:
  assumes "m < 2 ^ LENGTH('a)" "n < 2 ^ LENGTH('a)"
  shows "(of_nat m :: 'a::len word) = of_nat n \<longleftrightarrow> m = n"
  using assms unat_of_nat_small by metis

lemmas small_signed = nat_sint_small sless_small sle_small

end
