(* ===== verification/Kstate.thy ===== *)
theory Kstate
  imports Xv6_Prelude
begin

section \<open>The kernel's state: memory, CPUs and the process table\<close>

text \<open>
  The structures of \<^verbatim>\<open>kernel/proc.h\<close>, the constants of \<^verbatim>\<open>kernel/param.h\<close>, \<^verbatim>\<open>riscv.h\<close> and
  \<^verbatim>\<open>memlayout.h\<close>, and the state record that the component theories extend. The record is
  layered with record extension: an operation on \<open>'a machine_scheme\<close> works on every larger
  kernel state.
\<close>

subsection \<open>Constants\<close>

abbreviation NPROC :: nat where "NPROC \<equiv> 64"
abbreviation NCPU :: nat where "NCPU \<equiv> 8"
abbreviation NOFILE :: nat where "NOFILE \<equiv> 16"
abbreviation NFILE :: nat where "NFILE \<equiv> 100"
abbreviation NINODE :: nat where "NINODE \<equiv> 50"
abbreviation NDEV :: nat where "NDEV \<equiv> 10"
abbreviation MAXOPBLOCKS :: nat where "MAXOPBLOCKS \<equiv> 10"
abbreviation LOGBLOCKS :: nat where "LOGBLOCKS \<equiv> 30"
abbreviation NBUF :: nat where "NBUF \<equiv> 30"

abbreviation PGSIZE :: u64 where "PGSIZE \<equiv> 4096"

definition MAXVA :: u64 where "MAXVA = push_bit 38 1"
definition TRAMPOLINE :: u64 where "TRAMPOLINE = MAXVA - PGSIZE"
definition TRAPFRAME :: u64 where "TRAPFRAME = TRAMPOLINE - PGSIZE"
definition KERNBASE :: u64 where "KERNBASE = 0x80000000"
definition PHYSTOP :: u64 where "PHYSTOP = KERNBASE + 128 * 1024 * 1024"

definition KSTACK :: "nat \<Rightarrow> u64" where
  "KSTACK p = TRAMPOLINE - (of_nat p + 1) * 2 * PGSIZE"

definition PGROUNDUP :: "u64 \<Rightarrow> u64" where
  "PGROUNDUP sz = (sz + PGSIZE - 1) AND NOT (PGSIZE - 1)"

definition PGROUNDDOWN :: "u64 \<Rightarrow> u64" where
  "PGROUNDDOWN a = a AND NOT (PGSIZE - 1)"

lemmas layout_defs = MAXVA_def TRAMPOLINE_def TRAPFRAME_def KERNBASE_def PHYSTOP_def

subsection \<open>Processes\<close>

datatype procstate = UNUSED | USED | SLEEPING | RUNNABLE | RUNNING | ZOMBIE

text \<open>
  A wait channel is the address of a kernel object. Distinct objects have distinct addresses,
  so a channel is named by its object; \<open>NoChan\<close> is the null pointer.
\<close>

datatype chan =
    NoChan
  | ChProc nat        \<comment> \<open>a process, waited for by \<open>kwait\<close>\<close>
  | ChTicks           \<comment> \<open>\<open>&ticks\<close>\<close>
  | ChLog             \<comment> \<open>\<open>&log\<close>\<close>
  | ChPipeR u64       \<comment> \<open>\<open>&pi->nread\<close>\<close>
  | ChPipeW u64       \<comment> \<open>\<open>&pi->nwrite\<close>\<close>
  | ChCons            \<comment> \<open>\<open>&cons.r\<close>\<close>
  | ChTx              \<comment> \<open>\<open>&tx_chan\<close>\<close>
  | ChDisk            \<comment> \<open>\<open>&disk.free[0]\<close>\<close>
  | ChBuf nat         \<comment> \<open>a buffer waiting for the disk\<close>
  | ChBufLock nat     \<comment> \<open>a buffer's sleep lock\<close>
  | ChInodeLock nat   \<comment> \<open>an inode's sleep lock\<close>

text \<open>Saved registers for kernel context switches.\<close>

record swtch_context =
  ctx_ra :: u64
  ctx_sp :: u64
  ctx_s :: "u64 list"   \<comment> \<open>s0 to s11\<close>

record proc =
  state :: procstate
  p_chan :: chan
  killed :: cint
  xstate :: cint
  pid :: cint
  parent :: "nat option"
  kstack :: u64
  sz :: u64
  pagetable :: u64
  trapframe :: u64
  p_context :: swtch_context
  ofile :: "nat option list"
  cwd :: "nat option"
  tickets :: cint
  name :: "u8 list"

text \<open>
  Per-CPU state. The spin locks embedded in the C structures (\<^verbatim>\<open>p->lock\<close> and the like) are not
  fields: a locked section is one step of the model.
\<close>

record cpu =
  cpu_proc :: "nat option"
  cpu_context :: swtch_context
  noff :: cint
  intena :: bool

subsection \<open>The state record\<close>

text \<open>
  Physical memory and the page allocator of \<^verbatim>\<open>kalloc.c\<close>. \<open>k_end\<close> is the linker symbol
  \<^verbatim>\<open>end\<close>, the first address after the kernel image.
\<close>

record machine =
  mem :: "u64 \<Rightarrow> u8"
  k_end :: u64
  freelist :: u64
  nfree :: u64
  nalloc :: u64

text \<open>
  The globals of \<^verbatim>\<open>proc.c\<close> and \<^verbatim>\<open>trap.c\<close>. \<open>hart\<close> is the \<^verbatim>\<open>tp\<close> register of the CPU
  that executes the code.
\<close>

record kproc = machine +
  procs :: "proc list"
  cpus :: "cpu list"
  hart :: nat
  initproc :: "nat option"
  nextpid :: cint
  rand_state :: u64
  ticks :: u32

definition cpuid :: "'a kproc_scheme \<Rightarrow> nat" where
  "cpuid s = hart s"

definition mycpu :: "'a kproc_scheme \<Rightarrow> cpu" where
  "mycpu s = cpus s ! cpuid s"

definition myproc :: "'a kproc_scheme \<Rightarrow> nat option" where
  "myproc s = cpu_proc (mycpu s)"

text \<open>Updating one entry of the process table, or this CPU's structure.\<close>

definition upd_proc :: "nat \<Rightarrow> (proc \<Rightarrow> proc) \<Rightarrow> 'a kproc_scheme \<Rightarrow> 'a kproc_scheme" where
  "upd_proc i f s = s\<lparr>procs := (procs s)[i := f (procs s ! i)]\<rparr>"

definition upd_cpu :: "(cpu \<Rightarrow> cpu) \<Rightarrow> 'a kproc_scheme \<Rightarrow> 'a kproc_scheme" where
  "upd_cpu f s = s\<lparr>cpus := (cpus s)[hart s := f (cpus s ! hart s)]\<rparr>"

text \<open>The tables have their static sizes and the executing CPU exists.\<close>

definition tables_ok :: "'a kproc_scheme \<Rightarrow> bool" where
  "tables_ok s \<longleftrightarrow> length (procs s) = NPROC \<and> length (cpus s) = NCPU \<and> hart s < NCPU"

lemma upd_proc_procs [simp]:
  "procs (upd_proc i f s) = (procs s)[i := f (procs s ! i)]"
  by (simp add: upd_proc_def)

lemma upd_proc_frame [simp, frame]:
  "cpus (upd_proc i f s) = cpus s" "hart (upd_proc i f s) = hart s"
  "initproc (upd_proc i f s) = initproc s" "nextpid (upd_proc i f s) = nextpid s"
  "rand_state (upd_proc i f s) = rand_state s" "ticks (upd_proc i f s) = ticks s"
  "mem (upd_proc i f s) = mem s" "freelist (upd_proc i f s) = freelist s"
  "nfree (upd_proc i f s) = nfree s" "nalloc (upd_proc i f s) = nalloc s"
  "k_end (upd_proc i f s) = k_end s"
  by (simp_all add: upd_proc_def)

lemma upd_cpu_cpus [simp]:
  "cpus (upd_cpu f s) = (cpus s)[hart s := f (cpus s ! hart s)]"
  by (simp add: upd_cpu_def)

lemma upd_cpu_frame [simp, frame]:
  "procs (upd_cpu f s) = procs s" "hart (upd_cpu f s) = hart s"
  "initproc (upd_cpu f s) = initproc s" "nextpid (upd_cpu f s) = nextpid s"
  "rand_state (upd_cpu f s) = rand_state s" "ticks (upd_cpu f s) = ticks s"
  "mem (upd_cpu f s) = mem s" "freelist (upd_cpu f s) = freelist s"
  "nfree (upd_cpu f s) = nfree s" "nalloc (upd_cpu f s) = nalloc s"
  "k_end (upd_cpu f s) = k_end s"
  by (simp_all add: upd_cpu_def)

lemma myproc_upd_proc [simp]: "myproc (upd_proc i f s) = myproc s"
  by (simp add: myproc_def mycpu_def cpuid_def)

lemma tables_ok_upd [simp]:
  "tables_ok (upd_proc i f s) = tables_ok s" "tables_ok (upd_cpu g s) = tables_ok s"
  by (simp_all add: tables_ok_def)

lemma myproc_upd_cpu [simp]:
  "tables_ok s \<Longrightarrow> myproc (upd_cpu f s) = cpu_proc (f (mycpu s))"
  by (simp add: myproc_def mycpu_def cpuid_def tables_ok_def)

subsection \<open>The statically initialised state\<close>

text \<open>
  The globals before any code runs: C zero-initialises them, except \<^verbatim>\<open>nextpid\<close> and
  \<^verbatim>\<open>rand_state\<close>, which start at 1. The kernel is linked so that it ends at \<open>kend\<close>.
\<close>

definition context_zero :: swtch_context where
  "context_zero = \<lparr>ctx_ra = 0, ctx_sp = 0, ctx_s = replicate 12 0\<rparr>"

definition proc_zero :: proc where
  "proc_zero =
     \<lparr>state = UNUSED, p_chan = NoChan, killed = 0, xstate = 0, pid = 0, parent = None,
      kstack = 0, sz = 0, pagetable = 0, trapframe = 0, p_context = context_zero,
      ofile = replicate NOFILE None, cwd = None, tickets = 0, name = replicate 16 0\<rparr>"

definition cpu_zero :: cpu where
  "cpu_zero = \<lparr>cpu_proc = None, cpu_context = context_zero, noff = 0, intena = False\<rparr>"

definition kproc_zero :: "u64 \<Rightarrow> kproc" where
  "kproc_zero kend =
     \<lparr>mem = (\<lambda>_. 0), k_end = kend, freelist = 0, nfree = 0, nalloc = 0,
      procs = replicate NPROC proc_zero, cpus = replicate NCPU cpu_zero, hart = 0,
      initproc = None, nextpid = 1, rand_state = 1, ticks = 0\<rparr>"

end
