(* ===== verification/Spinlock.thy ===== *)
theory Spinlock
  imports Kstate
begin

section \<open>Spin locks\<close>

text \<open>
  \<^verbatim>\<open>kernel/spinlock.c\<close>. The other theories treat a section under a lock as one step; this theory
  shows why they may. The CPUs are interleaved at every access to a shared lock word: starting an
  acquire, each attempt of the atomic swap, recording the owner, and the two stores of a release
  are separate steps. In every reachable state at most one CPU is inside the section of a lock,
  and the interrupts of a CPU that holds a lock are off.
\<close>

subsection \<open>Locks and the interrupt state of a CPU\<close>

record spinlock =
  lk_name :: string
  locked :: u32
  lk_cpu :: "nat option"

text \<open>\<open>sie\<close> is the interrupt enable bit of \<^verbatim>\<open>sstatus\<close>, read by \<^verbatim>\<open>intr_get\<close>.\<close>

record irq_cpu = cpu +
  sie :: bool

definition initlock :: "string \<Rightarrow> spinlock \<Rightarrow> spinlock" where
  "initlock nm lk = lk\<lparr>lk_name := nm, locked := 0, lk_cpu := None\<rparr>"

definition holding :: "nat \<Rightarrow> spinlock \<Rightarrow> bool" where
  "holding c lk \<longleftrightarrow> locked lk \<noteq> 0 \<and> lk_cpu lk = Some c"

definition push_off :: "irq_cpu \<Rightarrow> irq_cpu" where
  "push_off h =
     (let old = sie h;
          h1 = h\<lparr>sie := False\<rparr>;
          h2 = (if noff h1 = 0 then h1\<lparr>intena := old\<rparr> else h1)
      in h2\<lparr>noff := noff h2 + 1\<rparr>)"

definition pop_off :: "irq_cpu \<Rightarrow> irq_cpu option" where
  "pop_off h =
     (if sie h then panic ''pop_off - interruptible''
      else if noff h <s 1 then panic ''pop_off''
      else
        let h1 = h\<lparr>noff := noff h - 1\<rparr>
        in Some (if noff h1 = 0 \<and> intena h1 then h1\<lparr>sie := True\<rparr> else h1))"

subsection \<open>The interleaved system\<close>

text \<open>
  Where a CPU is: in ordinary code, in the loop of \<^verbatim>\<open>acquire\<close>, between the successful swap and the
  store to \<^verbatim>\<open>lk->cpu\<close>, or between the two stores of \<^verbatim>\<open>release\<close>.
\<close>

datatype lock_pc = Running | Spinning nat | Acquired nat | Releasing nat

record spin_sys =
  harts :: "nat \<Rightarrow> irq_cpu"
  pcs :: "nat \<Rightarrow> lock_pc"
  locks :: "nat \<Rightarrow> spinlock"

definition acquire_start :: "nat \<Rightarrow> nat \<Rightarrow> spin_sys \<Rightarrow> spin_sys option" where
  "acquire_start c l s =
     (let s1 = s\<lparr>harts := (harts s)(c := push_off (harts s c))\<rparr>
      in if holding c (locks s l) then panic ''acquire''
         else Some (s1\<lparr>pcs := (pcs s)(c := Spinning l)\<rparr>))"

text \<open>One turn of \<^verbatim>\<open>while(__sync_lock_test_and_set(&lk->locked, 1) != 0)\<close>.\<close>

definition acquire_swap :: "nat \<Rightarrow> nat \<Rightarrow> spin_sys \<Rightarrow> spin_sys" where
  "acquire_swap c l s =
     (let old = locked (locks s l);
          s1 = s\<lparr>locks := (locks s)(l := (locks s l)\<lparr>locked := 1\<rparr>)\<rparr>
      in if old \<noteq> 0 then s1 else s1\<lparr>pcs := (pcs s)(c := Acquired l)\<rparr>)"

definition acquire_done :: "nat \<Rightarrow> nat \<Rightarrow> spin_sys \<Rightarrow> spin_sys" where
  "acquire_done c l s =
     s\<lparr>locks := (locks s)(l := (locks s l)\<lparr>lk_cpu := Some c\<rparr>), pcs := (pcs s)(c := Running)\<rparr>"

definition release_start :: "nat \<Rightarrow> nat \<Rightarrow> spin_sys \<Rightarrow> spin_sys option" where
  "release_start c l s =
     (if \<not> holding c (locks s l) then panic ''release''
      else Some (s\<lparr>locks := (locks s)(l := (locks s l)\<lparr>lk_cpu := None\<rparr>),
                  pcs := (pcs s)(c := Releasing l)\<rparr>))"

definition release_done :: "nat \<Rightarrow> nat \<Rightarrow> spin_sys \<Rightarrow> spin_sys option" where
  "release_done c l s =
     do { let s1 = s\<lparr>locks := (locks s)(l := (locks s l)\<lparr>locked := 0\<rparr>)\<rparr>;
          h \<leftarrow> pop_off (harts s c);
          Some (s1\<lparr>harts := (harts s)(c := h), pcs := (pcs s)(c := Running)\<rparr>) }"

text \<open>
  The steps of CPU \<open>c\<close> in a kernel with \<open>n\<close> locks. Ordinary code takes and releases locks in any
  order, releases only locks it holds, and turns interrupts on or off only while it holds none.
\<close>

inductive spin_step :: "nat \<Rightarrow> spin_sys \<Rightarrow> spin_sys \<Rightarrow> bool" for n where
  start: "\<lbrakk>pcs s c = Running; l < n; acquire_start c l s = Some s'\<rbrakk> \<Longrightarrow> spin_step n s s'"
| swap: "pcs s c = Spinning l \<Longrightarrow> spin_step n s (acquire_swap c l s)"
| got: "pcs s c = Acquired l \<Longrightarrow> spin_step n s (acquire_done c l s)"
| rel: "\<lbrakk>pcs s c = Running; l < n; release_start c l s = Some s'\<rbrakk> \<Longrightarrow> spin_step n s s'"
| unlock: "\<lbrakk>pcs s c = Releasing l; release_done c l s = Some s'\<rbrakk> \<Longrightarrow> spin_step n s s'"
| intr: "\<lbrakk>pcs s c = Running; noff (harts s c) = 0\<rbrakk> \<Longrightarrow>
    spin_step n s (s\<lparr>harts := (harts s)(c := (harts s c)\<lparr>sie := b\<rparr>)\<rparr>)"

text \<open>All locks have been initialised and no CPU has disabled its interrupts by \<^verbatim>\<open>push_off\<close>.\<close>

definition spin_init :: "spin_sys \<Rightarrow> bool" where
  "spin_init s \<longleftrightarrow> (\<forall>c. pcs s c = Running \<and> noff (harts s c) = 0) \<and>
     (\<forall>l. locked (locks s l) = 0 \<and> lk_cpu (locks s l) = None)"

inductive spin_reach :: "nat \<Rightarrow> spin_sys \<Rightarrow> bool" for n where
  init: "spin_init s \<Longrightarrow> spin_reach n s"
| step: "\<lbrakk>spin_reach n s; spin_step n s s'\<rbrakk> \<Longrightarrow> spin_reach n s'"

subsection \<open>Invariant\<close>

text \<open>CPU \<open>c\<close> is in the section of lock \<open>l\<close>, from the successful swap to the store that unlocks.\<close>

definition in_section :: "spin_sys \<Rightarrow> nat \<Rightarrow> nat \<Rightarrow> bool" where
  "in_section s c l \<longleftrightarrow>
     lk_cpu (locks s l) = Some c \<or> pcs s c = Acquired l \<or> pcs s c = Releasing l"

definition lock_inv :: "nat \<Rightarrow> spin_sys \<Rightarrow> nat \<Rightarrow> bool" where
  "lock_inv n s l \<longleftrightarrow>
     (locked (locks s l) = 0 \<longrightarrow> (\<forall>c. \<not> in_section s c l)) \<and>
     (\<forall>c d. in_section s c l \<longrightarrow> in_section s d l \<longrightarrow> c = d) \<and>
     (\<forall>c. lk_cpu (locks s l) = Some c \<longrightarrow> l < n \<and> pcs s c \<noteq> Acquired l \<and> pcs s c \<noteq> Releasing l)"

text \<open>The nesting depth is the number of locks owned, plus one for a lock being taken or released.\<close>

definition owned :: "spin_sys \<Rightarrow> nat \<Rightarrow> nat set" where
  "owned s c = {l. lk_cpu (locks s l) = Some c}"

definition depth :: "spin_sys \<Rightarrow> nat \<Rightarrow> nat" where
  "depth s c = card (owned s c) + (if pcs s c = Running then 0 else 1)"

definition cpu_inv :: "nat \<Rightarrow> spin_sys \<Rightarrow> nat \<Rightarrow> bool" where
  "cpu_inv n s c \<longleftrightarrow>
     noff (harts s c) = of_nat (depth s c) \<and> (0 < depth s c \<longrightarrow> \<not> sie (harts s c)) \<and>
     (\<forall>l. pcs s c = Spinning l \<or> pcs s c = Acquired l \<or> pcs s c = Releasing l \<longrightarrow> l < n)"

definition spin_inv :: "nat \<Rightarrow> spin_sys \<Rightarrow> bool" where
  "spin_inv n s \<longleftrightarrow> (\<forall>l. lock_inv n s l) \<and> (\<forall>c. cpu_inv n s c)"

lemmas spin_ops = acquire_start_def acquire_swap_def acquire_done_def release_start_def
  release_done_def

lemma owned_bound: "spin_inv n s \<Longrightarrow> owned s c \<subseteq> {..<n}"
  by (auto simp: owned_def spin_inv_def lock_inv_def)

lemma card_owned: "spin_inv n s \<Longrightarrow> card (owned s c) \<le> n"
  using card_mono [OF _ owned_bound, of n s c] by simp

lemma finite_owned: "spin_inv n s \<Longrightarrow> finite (owned s c)"
  using finite_subset [OF owned_bound] by blast

lemma push_off_simps [simp]:
  "noff (push_off h) = noff h + 1" "\<not> sie (push_off h)"
  by (simp_all add: push_off_def Let_def)

lemma noff_small:
  assumes "spin_inv n s" "n + 1 < 2 ^ 31"
  shows "sint (noff (harts s c)) = int (depth s c)" "depth s c < 2 ^ 31"
proof -
  show lt: "depth s c < 2 ^ 31"
    using card_owned [OF assms(1), of c] assms(2) by (simp add: depth_def)
  have "noff (harts s c) = of_nat (depth s c)"
    using assms(1) by (simp add: spin_inv_def cpu_inv_def)
  then show "sint (noff (harts s c)) = int (depth s c)"
    using lt by (simp only: sint_of_nat_small)
qed

text \<open>With interrupts off and a positive depth, \<^verbatim>\<open>pop_off\<close> succeeds.\<close>

lemma pop_off_ok:
  assumes "\<not> sie h" "noff h = of_nat (Suc k)" "k < 2 ^ 31 - 1"
  shows "\<exists>h'. pop_off h = Some h' \<and> noff h' = of_nat k \<and> (0 < k \<longrightarrow> \<not> sie h')"
proof -
  have "sint (noff h) = int (Suc k)"
    unfolding assms(2) using assms(3) by (intro sint_of_nat_small) simp
  then have "\<not> noff h <s 1" by (simp add: word_sless_alt)
  moreover have "(of_nat k :: cint) \<noteq> 0" if "0 < k"
    using of_nat_inj_small [of k 0, where ?'a = 32] that assms(3) by simp
  ultimately show ?thesis using assms(1,2) by (auto simp: pop_off_def Let_def)
qed

text \<open>How each step changes who is in which section.\<close>

lemma in_section_start:
  assumes "pcs s c = Running" "acquire_start c k s = Some s'"
  shows "in_section s' d l = in_section s d l"
  using assms by (auto simp: acquire_start_def Let_def in_section_def split: if_splits)

lemma in_section_swap:
  assumes "pcs s c = Spinning k"
  shows "in_section (acquire_swap c k s) d l \<longleftrightarrow>
    in_section s d l \<or> locked (locks s k) = 0 \<and> d = c \<and> l = k"
  using assms by (auto simp: acquire_swap_def Let_def in_section_def)

lemma in_section_got:
  assumes "pcs s c = Acquired k" "lock_inv n s k"
  shows "in_section (acquire_done c k s) d l = in_section s d l"
proof -
  have "in_section s d k \<longleftrightarrow> d = c" using assms unfolding lock_inv_def in_section_def by blast
  with assms(1) show ?thesis by (auto simp: acquire_done_def in_section_def)
qed

lemma in_section_rel:
  assumes "pcs s c = Running" "release_start c k s = Some s'" "lock_inv n s k"
  shows "in_section s' d l = in_section s d l"
proof -
  have own: "lk_cpu (locks s k) = Some c" using assms(2) by (auto simp: release_start_def holding_def split: if_splits)
  then have "in_section s d k \<longleftrightarrow> d = c" using assms(3) unfolding lock_inv_def in_section_def by blast
  with assms(1,2) own show ?thesis by (auto simp: release_start_def in_section_def split: if_splits)
qed

lemma in_section_unlock:
  assumes "pcs s c = Releasing k" "release_done c k s = Some s'" "lock_inv n s k"
  shows "in_section s' d l \<longleftrightarrow> in_section s d l \<and> \<not> (d = c \<and> l = k)"
proof -
  have "lk_cpu (locks s k) \<noteq> Some c" using assms(1,3) unfolding lock_inv_def by blast
  with assms(1,2) show ?thesis
    by (auto simp: release_done_def Let_def bind_Some_iff in_section_def split: if_splits)
qed

lemma lock_inv_step:
  assumes "spin_step n s s'" "\<forall>l. lock_inv n s l" "\<forall>c. cpu_inv n s c"
  shows "lock_inv n s' l"
  using assms(1)
proof cases
  case (start c k)
  have "lock_inv n s l" using assms(2) by simp
  moreover have "locks s' = locks s" "pcs s' = (pcs s)(c := Spinning k)"
    using start by (auto simp: acquire_start_def Let_def split: if_splits)
  ultimately show ?thesis
    using in_section_start [OF start(1,3)] by (auto simp: lock_inv_def)
next
  case (swap c k)
  have inv: "lock_inv n s l" using assms(2) by simp
  have "lk_cpu (locks s' l) = lk_cpu (locks s l)"
    "locked (locks s' l) = (if l = k then 1 else locked (locks s l))"
    "pcs s' d = (if locked (locks s k) = 0 \<and> d = c then Acquired k else pcs s d)" for d
    using swap(1) by (auto simp: acquire_swap_def Let_def)
  moreover have "\<not> in_section s d k" if "locked (locks s k) = 0" for d
    using that assms(2) by (simp add: lock_inv_def)
  moreover have "lk_cpu (locks s k) \<noteq> Some d" if "locked (locks s k) = 0" for d
    using calculation(4) [OF that] by (simp add: in_section_def)
  moreover have "in_section s' d l \<longleftrightarrow> in_section s d l \<or> locked (locks s k) = 0 \<and> d = c \<and> l = k" for d
    using in_section_swap [OF swap(2)] swap(1) by simp
  ultimately show ?thesis
    using inv unfolding lock_inv_def by (cases "locked (locks s k) = 0"; cases "l = k") auto
next
  case (got c k)
  have inv: "lock_inv n s l" "lock_inv n s k" "k < n" using assms(2,3) got by (auto simp: cpu_inv_def)
  have "lk_cpu (locks s' l) = (if l = k then Some c else lk_cpu (locks s l))"
    "locked (locks s' l) = locked (locks s l)" "pcs s' = (pcs s)(c := Running)"
    using got(1) by (auto simp: acquire_done_def)
  moreover have "in_section s' d l = in_section s d l" for d
    using in_section_got [OF got(2) inv(2)] got(1) by simp
  ultimately show ?thesis
    using inv(1,3) unfolding lock_inv_def by (cases "l = k") auto
next
  case (rel c k)
  have inv: "lock_inv n s l" "lock_inv n s k" using assms(2) by auto
  have "lk_cpu (locks s' l) = (if l = k then None else lk_cpu (locks s l))"
    "locked (locks s' l) = locked (locks s l)" "pcs s' = (pcs s)(c := Releasing k)"
    using rel(3) by (auto simp: release_start_def split: if_splits)
  then show ?thesis
    using inv(1) in_section_rel [OF rel(1,3) inv(2)] unfolding lock_inv_def
    by (auto split: if_splits)
next
  case (unlock c k)
  have inv: "lock_inv n s l" "lock_inv n s k" using assms(2) by auto
  have "lk_cpu (locks s' l) = lk_cpu (locks s l)"
    "locked (locks s' l) = (if l = k then 0 else locked (locks s l))" "pcs s' = (pcs s)(c := Running)"
    using unlock(2) by (auto simp: release_done_def Let_def bind_Some_iff)
  moreover have "\<not> in_section s d k" if "d \<noteq> c" for d
    using that inv(2) unlock(1) unfolding lock_inv_def in_section_def by blast
  ultimately show ?thesis
    using inv(1) in_section_unlock [OF unlock(1,2) inv(2)] unfolding lock_inv_def
    by (auto split: if_splits)
next
  case (intr c b)
  have inv: "lock_inv n s l" using assms(2) by simp
  have eq: "locks s' = locks s" "pcs s' = pcs s" using intr(1) by simp_all
  show ?thesis using inv unfolding lock_inv_def in_section_def eq .
qed

lemma cpu_inv_step:
  assumes "spin_step n s s'" "spin_inv n s" "n + 1 < 2 ^ 31"
  shows "cpu_inv n s' d"
proof -
  have lock: "lock_inv n s k" and cpu: "cpu_inv n s e" for k e
    using assms(2) by (auto simp: spin_inv_def)
  note fin = finite_owned [OF assms(2)]
  show ?thesis using assms(1)
  proof cases
    case (start c k)
    have s': "owned s' e = owned s e" "pcs s' = (pcs s)(c := Spinning k)"
      "harts s' = (harts s)(c := push_off (harts s c))" for e
      using start by (auto simp: acquire_start_def Let_def owned_def split: if_splits)
    show ?thesis
      using cpu [of d] start s' by (auto simp: cpu_inv_def depth_def)
  next
    case (swap c k)
    have s': "owned s' e = owned s e" "harts s' = harts s"
      "pcs s' = pcs s \<or> pcs s' = (pcs s)(c := Acquired k)" for e
      using swap(1) by (auto simp: acquire_swap_def Let_def owned_def)
    show ?thesis
      using cpu [of d] swap(2) s' by (cases "d = c") (auto simp: cpu_inv_def depth_def)
  next
    case (got c k)
    have "lk_cpu (locks s k) = None"
      using lock [of k] got(2) unfolding lock_inv_def in_section_def by (metis option.exhaust)
    then have s': "owned s' e = (if e = c then insert k (owned s e) else owned s e)" "k \<notin> owned s c"
      "harts s' = harts s" "pcs s' = (pcs s)(c := Running)" for e
      using got(1) by (auto simp: acquire_done_def owned_def)
    show ?thesis
      using cpu [of d] got(2) s' fin [of c] by (cases "d = c") (auto simp: cpu_inv_def depth_def)
  next
    case (rel c k)
    then have s': "owned s' e = (if e = c then owned s e - {k} else owned s e)" "k \<in> owned s c"
      "harts s' = harts s" "pcs s' = (pcs s)(c := Releasing k)" for e
      by (auto simp: release_start_def holding_def owned_def split: if_splits)
    then have "0 < card (owned s c)" using fin [of c] by (auto simp: card_gt_0_iff)
    then show ?thesis
      using cpu [of d] rel(1,2) s' fin [of c] by (cases "d = c") (auto simp: cpu_inv_def depth_def)
  next
    case (unlock c k)
    then obtain h where h: "pop_off (harts s c) = Some h"
      "s' = s\<lparr>locks := (locks s)(k := (locks s k)\<lparr>locked := 0\<rparr>), harts := (harts s)(c := h),
        pcs := (pcs s)(c := Running)\<rparr>"
      by (auto simp: release_done_def Let_def bind_Some_iff)
    then have s': "owned s' e = owned s e" "pop_off (harts s c) = Some h"
      "harts s' = (harts s)(c := h)" "pcs s' = (pcs s)(c := Running)" for e
      by (auto simp: owned_def)
    have "noff (harts s c) = of_nat (Suc (card (owned s c)))" "\<not> sie (harts s c)"
      using cpu [of c] unlock(1) by (auto simp: cpu_inv_def depth_def)
    from pop_off_ok [OF this(2,1)] card_owned [OF assms(2), of c] assms(3) s'(2)
    have "noff h = of_nat (card (owned s c)) \<and> (0 < card (owned s c) \<longrightarrow> \<not> sie h)" by auto
    then show ?thesis
      using cpu [of d] unlock(1) s' by (cases "d = c") (auto simp: cpu_inv_def depth_def)
  next
    case (intr c b)
    have s': "owned s' e = owned s e" "pcs s' = pcs s" "noff (harts s' e) = noff (harts s e)" for e
      using intr(1) by (auto simp: owned_def)
    have "depth s c = 0" using noff_small [OF assms(2,3), of c] intr by simp
    then show ?thesis
      using cpu [of d] s' intr(1) by (auto simp: cpu_inv_def depth_def)
  qed
qed

lemma spin_inv_reach:
  assumes "spin_reach n s" "n + 1 < 2 ^ 31"
  shows "spin_inv n s"
  using assms(1)
proof induction
  case (init s)
  then show ?case
    by (auto simp: spin_init_def spin_inv_def lock_inv_def in_section_def cpu_inv_def depth_def owned_def)
next
  case (step s s')
  then show ?case
    using lock_inv_step [of n s s'] cpu_inv_step [of n s s'] assms(2)
    by (auto simp: spin_inv_def)
qed

subsection \<open>Properties\<close>

text \<open>
  C12. Mutual exclusion. In every state the CPUs can reach by interleaving the steps of
  \<^verbatim>\<open>acquire\<close> and \<^verbatim>\<open>release\<close> on \<open>n\<close> locks, at most one CPU is in the section of a lock. The CPU that
  owns a lock runs with interrupts off, can release it without a panic, and would panic on
  acquiring it again instead of deadlocking; a CPU finishing a release does not panic either.
\<close>

theorem spinlock_mutual_exclusion:
  assumes "spin_reach n s" "n + 1 < 2 ^ 31"
  shows "(in_section s c l \<and> in_section s d l \<longrightarrow> c = d) \<and>
    (lk_cpu (locks s l) = Some c \<longrightarrow>
       \<not> sie (harts s c) \<and> release_start c l s \<noteq> None \<and> acquire_start c l s = None) \<and>
    (pcs s c = Releasing l \<longrightarrow> release_done c l s \<noteq> None)"
proof (intro conjI impI)
  have inv: "spin_inv n s" by (rule spin_inv_reach [OF assms])
  then have lock: "lock_inv n s l" and cpu: "cpu_inv n s c" by (auto simp: spin_inv_def)
  show "c = d" if "in_section s c l \<and> in_section s d l"
    using that lock unfolding lock_inv_def by blast
  show "\<not> sie (harts s c)" "release_start c l s \<noteq> None" "acquire_start c l s = None"
    if own: "lk_cpu (locks s l) = Some c"
  proof -
    have "0 < depth s c"
      using own finite_owned [OF inv, of c] by (auto simp: depth_def owned_def card_gt_0_iff)
    then show "\<not> sie (harts s c)" using cpu by (simp add: cpu_inv_def)
    have "holding c (locks s l)"
      using own lock by (auto simp: holding_def lock_inv_def in_section_def)
    then show "release_start c l s \<noteq> None" "acquire_start c l s = None"
      by (simp_all add: release_start_def acquire_start_def)
  qed
  show "release_done c l s \<noteq> None" if rel: "pcs s c = Releasing l"
  proof -
    have "noff (harts s c) = of_nat (Suc (card (owned s c)))" "\<not> sie (harts s c)"
      using cpu rel by (auto simp: cpu_inv_def depth_def)
    from pop_off_ok [OF this(2,1)] card_owned [OF inv, of c] assms(2)
    show ?thesis by (auto simp: release_done_def Let_def)
  qed
qed

definition idle_sys :: spin_sys where
  "idle_sys = \<lparr>harts = (\<lambda>_. cpu.extend cpu_zero \<lparr>sie = True\<rparr>), pcs = (\<lambda>_. Running),
     locks = (\<lambda>_. \<lparr>lk_name = ''kmem'', locked = 0, lk_cpu = None\<rparr>)\<rparr>"

definition locked_sys :: spin_sys where
  "locked_sys = acquire_done 1 0 (acquire_swap 1 0 (the (acquire_start 1 0 idle_sys)))"

lemma locked_sys_reach: "spin_reach 1 locked_sys"
proof -
  have "spin_reach 1 idle_sys"
    by (rule spin_reach.init) (simp add: spin_init_def idle_sys_def cpu.defs cpu_zero_def)
  moreover have "spin_step 1 idle_sys (the (acquire_start 1 0 idle_sys))"
    by (rule spin_step.start [of idle_sys 1 0])
      (simp_all add: acquire_start_def idle_sys_def holding_def)
  ultimately have "spin_reach 1 (the (acquire_start 1 0 idle_sys))" by (rule spin_reach.step)
  then have "spin_reach 1 (acquire_swap 1 0 (the (acquire_start 1 0 idle_sys)))"
    by (rule spin_reach.step [OF _ spin_step.swap])
      (simp add: acquire_start_def idle_sys_def holding_def)
  then show ?thesis unfolding locked_sys_def
    by (rule spin_reach.step [OF _ spin_step.got])
      (simp add: acquire_swap_def acquire_start_def idle_sys_def holding_def)
qed

theorem spinlock_mutual_exclusion_witness:
  "lk_cpu (locks locked_sys 0) = Some 1 \<and> \<not> sie (harts locked_sys 1) \<and>
   release_start 1 0 locked_sys \<noteq> None \<and> acquire_start 1 0 locked_sys = None"
proof -
  have own: "lk_cpu (locks locked_sys 0) = Some 1"
    by (simp add: locked_sys_def acquire_done_def)
  then show ?thesis
    using spinlock_mutual_exclusion [OF locked_sys_reach, of 1 0] by simp
qed

fun pop_offs :: "nat \<Rightarrow> irq_cpu \<Rightarrow> irq_cpu option" where
  "pop_offs 0 h = Some h"
| "pop_offs (Suc k) h = pop_off h \<bind> pop_offs k"

definition nested :: "nat \<Rightarrow> bool \<Rightarrow> irq_cpu \<Rightarrow> irq_cpu" where
  "nested k i h = h\<lparr>sie := (k = 0 \<and> i), intena := i, noff := of_nat k\<rparr>"

lemma push_off_nested:
  assumes "0 < k" "k < 2 ^ 31"
  shows "push_off (nested k i h) = nested (Suc k) i h"
proof -
  have "(of_nat k :: cint) \<noteq> 0" using of_nat_inj_small [of k 0, where ?'a = 32] assms by simp
  with assms(1) show ?thesis by (simp add: push_off_def nested_def Let_def add.commute)
qed

lemma push_offs_nested:
  assumes "noff h = 0"
  shows "Suc k < 2 ^ 31 \<Longrightarrow> (push_off ^^ Suc k) h = nested (Suc k) (sie h) h"
proof (induction k)
  case 0
  then show ?case using assms by (simp add: push_off_def nested_def Let_def)
next
  case (Suc k)
  then have "(push_off ^^ Suc (Suc k)) h = push_off (nested (Suc k) (sie h) h)" by simp
  also have "\<dots> = nested (Suc (Suc k)) (sie h) h" using Suc.prems by (intro push_off_nested) simp_all
  finally show ?case .
qed

lemma pop_off_nested:
  assumes "Suc k < 2 ^ 31"
  shows "pop_off (nested (Suc k) i h) = Some (nested k i h)"
proof -
  have "sint (noff (nested (Suc k) i h)) = int (Suc k)"
    unfolding nested_def using sint_of_nat_small [OF assms] by simp
  then have "\<not> noff (nested (Suc k) i h) <s 1" by (simp add: word_sless_alt)
  moreover have "(of_nat k :: cint) = 0 \<longleftrightarrow> k = 0"
    using of_nat_inj_small [of k 0, where ?'a = 32] assms by simp
  ultimately show ?thesis by (auto simp: pop_off_def nested_def Let_def)
qed

lemma pop_offs_nested:
  "j \<le> k \<Longrightarrow> k < 2 ^ 31 \<Longrightarrow> pop_offs j (nested k i h) = Some (nested (k - j) i h)"
proof (induction j arbitrary: k)
  case (Suc j)
  then obtain k' where "k = Suc k'" by (cases k) auto
  with Suc show ?case by (simp add: pop_off_nested)
qed simp

text \<open>
  C13. Nested \<^verbatim>\<open>push_off\<close> and \<^verbatim>\<open>pop_off\<close> match: after \<open>k\<close> calls of \<^verbatim>\<open>push_off\<close> on a CPU that was not
  nested, no \<^verbatim>\<open>pop_off\<close> panics, interrupts stay off before the \<open>k\<close>-th one, and the \<open>k\<close>-th restores the
  interrupt state and nesting depth there were before the first \<^verbatim>\<open>push_off\<close>.
\<close>

theorem push_pop_off_nest:
  assumes "noff h = 0" "0 < k" "k < 2 ^ 31"
  shows "(\<forall>j<k. \<exists>h'. pop_offs j ((push_off ^^ k) h) = Some h' \<and> \<not> sie h') \<and>
    pop_offs k ((push_off ^^ k) h) = Some (h\<lparr>intena := sie h\<rparr>)"
proof -
  obtain k' where k': "k = Suc k'" using assms(2) by (cases k) auto
  have "(push_off ^^ k) h = nested k (sie h) h"
    unfolding k' using assms k' by (intro push_offs_nested) simp_all
  moreover have "nested 0 (sie h) h = h\<lparr>intena := sie h\<rparr>" using assms(1) by (simp add: nested_def)
  ultimately show ?thesis using assms(3) by (simp add: pop_offs_nested) (simp add: nested_def)
qed

theorem push_pop_off_nest_witness:
  "pop_offs 3 ((push_off ^^ 3) (cpu.extend cpu_zero \<lparr>sie = True\<rparr>)) =
    Some (cpu.extend cpu_zero \<lparr>sie = True\<rparr>\<lparr>intena := True\<rparr>)"
  using push_pop_off_nest [of "cpu.extend cpu_zero \<lparr>sie = True\<rparr>" 3]
  by (simp add: cpu.defs cpu_zero_def)

end
