(* ===== verification/Cmem.thy ===== *)
theory Cmem
  imports Kstate
begin

section \<open>Byte memory and the C string routines\<close>

text \<open>
  Physical memory is a function from 64-bit addresses to bytes; multi-byte values are stored
  little-endian. The routines of \<^verbatim>\<open>kernel/string.c\<close> are modelled as the loops they are, with
  a closed form for each: \<^verbatim>\<open>memset\<close> fills exactly its range, \<^verbatim>\<open>memmove\<close> copies the old contents
  also when the ranges overlap, and the string copies never write outside the destination.
\<close>

type_synonym memory = "u64 \<Rightarrow> u8"

subsection \<open>Little-endian words\<close>

fun le_word :: "u8 list \<Rightarrow> 'a::len word" where
  "le_word [] = 0"
| "le_word (b # bs) = ucast b OR push_bit 8 (le_word bs)"

fun le_bytes :: "nat \<Rightarrow> 'a::len word \<Rightarrow> u8 list" where
  "le_bytes 0 w = []"
| "le_bytes (Suc n) w = ucast w # le_bytes n (drop_bit 8 w)"

lemma length_le_bytes [simp]: "length (le_bytes n w) = n"
  by (induction n arbitrary: w) auto

lemma le_word_le_bytes: "le_word (le_bytes n w) = take_bit (8 * n) w"
proof (induction n arbitrary: w)
  case 0
  then show ?case by simp
next
  case (Suc n)
  show ?case
    by (rule bit_eqI)
      (auto simp: Suc bit_simps min_def)
qed

text \<open>Reading and writing byte strings.\<close>

definition read_bytes :: "memory \<Rightarrow> u64 \<Rightarrow> nat \<Rightarrow> u8 list" where
  "read_bytes m a n = map (\<lambda>i. m (a + of_nat i)) [0 ..< n]"

fun write_bytes :: "memory \<Rightarrow> u64 \<Rightarrow> u8 list \<Rightarrow> memory" where
  "write_bytes m a [] = m"
| "write_bytes m a (b # bs) = write_bytes (m(a := b)) (a + 1) bs"

definition read64 :: "memory \<Rightarrow> u64 \<Rightarrow> u64" where
  "read64 m a = le_word (read_bytes m a 8)"

definition write64 :: "memory \<Rightarrow> u64 \<Rightarrow> u64 \<Rightarrow> memory" where
  "write64 m a w = write_bytes m a (le_bytes 8 w)"

text \<open>
  An address lies in the range of length \<open>n\<close> from \<open>a\<close>. The distance is taken modulo \<open>2^64\<close>,
  so ranges may wrap around as pointers do.
\<close>

definition in_range :: "u64 \<Rightarrow> u64 \<Rightarrow> nat \<Rightarrow> bool" where
  "in_range x a n \<longleftrightarrow> unat (x - a) < n"

lemma in_range_offset:
  "i < n \<Longrightarrow> n \<le> 2 ^ 64 \<Longrightarrow> in_range (a + of_nat i) a n"
  by (simp add: in_range_def unat_of_nat take_bit_nat_eq_self)

lemma in_rangeE:
  assumes "in_range x a n"
  obtains i where "i < n" "x = a + of_nat i"
  using assms that [of "unat (x - a)"] by (simp add: in_range_def)

lemma length_read_bytes [simp]: "length (read_bytes m a n) = n"
  by (simp add: read_bytes_def)

lemma read_bytes_cong:
  "(\<And>i. i < n \<Longrightarrow> m (a + of_nat i) = m' (a + of_nat i)) \<Longrightarrow> read_bytes m a n = read_bytes m' a n"
  by (simp add: read_bytes_def)

lemma read64_cong:
  "(\<And>i. i < 8 \<Longrightarrow> m (a + of_nat i) = m' (a + of_nat i)) \<Longrightarrow> read64 m a = read64 m' a"
  unfolding read64_def by (metis read_bytes_cong)

lemma write_bytes_apply:
  assumes "length bs \<le> 2 ^ 64"
  shows "write_bytes m a bs x = (if in_range x a (length bs) then bs ! unat (x - a) else m x)"
  using assms
proof (induction bs arbitrary: m a)
  case Nil
  then show ?case by (simp add: in_range_def)
next
  case (Cons b bs)
  have step: "unat (x - a) = Suc (unat (x - (a + 1)))" if "x \<noteq> a"
  proof -
    have "x - a \<noteq> 0" using that by simp
    then have "unat (x - a - 1) = unat (x - a) - 1" "unat (x - a) \<noteq> 0"
      by (simp_all add: unat_minus_one unat_eq_0)
    moreover have "x - a - 1 = x - (a + 1)" by (simp add: algebra_simps)
    ultimately show ?thesis by simp
  qed
  have self: "\<not> in_range a (a + 1) (length bs)"
  proof -
    have "unat (a - (a + 1)) = 2 ^ 64 - 1" by (simp add: unsigned_minus_1_eq_mask mask_eq_exp_minus_1)
    with Cons.prems show ?thesis by (simp add: in_range_def)
  qed
  show ?case
  proof (cases "x = a")
    case True
    with Cons self show ?thesis by (simp add: in_range_def)
  next
    case False
    with Cons step show ?thesis by (simp add: in_range_def)
  qed
qed

lemma read_bytes_write_bytes [simp]:
  assumes "length bs \<le> 2 ^ 64"
  shows "read_bytes (write_bytes m a bs) a (length bs) = bs"
  using assms
  by (intro nth_equalityI)
    (simp_all add: read_bytes_def write_bytes_apply in_range_offset unat_of_nat take_bit_nat_eq_self)

lemma read64_write64 [simp]: "read64 (write64 m a w) a = w"
proof -
  have "read_bytes (write_bytes m a (le_bytes 8 w)) a 8 = le_bytes 8 w"
    using read_bytes_write_bytes [of "le_bytes 8 w" m a] by simp
  then show ?thesis
    by (simp only: read64_def write64_def le_word_le_bytes) (simp add: take_bit_word_eq_self)
qed

lemma write64_apply:
  "write64 m a w x = (if in_range x a 8 then le_bytes 8 w ! unat (x - a) else m x)"
  using write_bytes_apply [of "le_bytes 8 w" m a x] by (simp only: write64_def) simp

lemma write64_other: "\<not> in_range x a 8 \<Longrightarrow> write64 m a w x = m x"
  by (simp add: write64_apply)

subsection \<open>memset, memcmp, memmove\<close>

text \<open>\<^verbatim>\<open>for(i = 0; i < n; i++) cdst[i] = c;\<close>\<close>

definition memset :: "memory \<Rightarrow> u64 \<Rightarrow> u8 \<Rightarrow> nat \<Rightarrow> memory" where
  "memset m dst c n = fold (\<lambda>i m. m(dst + of_nat i := c)) [0 ..< n] m"

text \<open>
  A pointer that is only read is a function from offsets to bytes, so that the comparison
  routines serve arrays in memory and arrays inside structures alike. The result is the
  difference of two unsigned characters.
\<close>

fun memcmp :: "(nat \<Rightarrow> u8) \<Rightarrow> (nat \<Rightarrow> u8) \<Rightarrow> nat \<Rightarrow> int" where
  "memcmp s1 s2 0 = 0"
| "memcmp s1 s2 (Suc n) =
     (if s1 0 \<noteq> s2 0 then uint (s1 0) - uint (s2 0)
      else memcmp (\<lambda>i. s1 (Suc i)) (\<lambda>i. s2 (Suc i)) n)"

text \<open>The two copy loops of \<^verbatim>\<open>memmove\<close>: upwards from the first byte, downwards from the last.\<close>

fun copy_up :: "memory \<Rightarrow> u64 \<Rightarrow> u64 \<Rightarrow> nat \<Rightarrow> memory" where
  "copy_up m d s 0 = m"
| "copy_up m d s (Suc n) = copy_up (m(d := m s)) (d + 1) (s + 1) n"

fun copy_down :: "memory \<Rightarrow> u64 \<Rightarrow> u64 \<Rightarrow> nat \<Rightarrow> memory" where
  "copy_down m d s 0 = m"
| "copy_down m d s (Suc n) = copy_down (m(d - 1 := m (s - 1))) (d - 1) (s - 1) n"

definition memmove :: "memory \<Rightarrow> u64 \<Rightarrow> u64 \<Rightarrow> nat \<Rightarrow> memory" where
  "memmove m dst src n =
     (if n = 0 then m
      else if src < dst \<and> src + of_nat n > dst
      then copy_down m (dst + of_nat n) (src + of_nat n) n
      else copy_up m dst src n)"

definition memcpy :: "memory \<Rightarrow> u64 \<Rightarrow> u64 \<Rightarrow> nat \<Rightarrow> memory" where
  "memcpy m dst src n = memmove m dst src n"

subsection \<open>Strings\<close>

fun strncmp :: "(nat \<Rightarrow> u8) \<Rightarrow> (nat \<Rightarrow> u8) \<Rightarrow> nat \<Rightarrow> int" where
  "strncmp p q 0 = 0"
| "strncmp p q (Suc n) =
     (if p 0 \<noteq> 0 \<and> p 0 = q 0 then strncmp (\<lambda>i. p (Suc i)) (\<lambda>i. q (Suc i)) n
      else uint (p 0) - uint (q 0))"

text \<open>
  \<^verbatim>\<open>strncpy\<close> copies up to and including the NUL and fills the rest of the \<open>n\<close> bytes with NULs.
  The count is the number of bytes still to be written; a negative \<^verbatim>\<open>n\<close> writes nothing, as 0.
\<close>

fun strncpy :: "memory \<Rightarrow> u64 \<Rightarrow> u64 \<Rightarrow> nat \<Rightarrow> memory" where
  "strncpy m s t 0 = m"
| "strncpy m s t (Suc n) =
     (if m t \<noteq> 0 then strncpy (m(s := m t)) (s + 1) (t + 1) n
      else memset (m(s := 0)) (s + 1) 0 n)"

text \<open>\<^verbatim>\<open>while(--n > 0 && (*s++ = *t++) != 0); *s = 0;\<close> after the test \<^verbatim>\<open>n <= 0\<close>.\<close>

fun safestrcpy :: "memory \<Rightarrow> u64 \<Rightarrow> u64 \<Rightarrow> nat \<Rightarrow> memory" where
  "safestrcpy m s t 0 = m"
| "safestrcpy m s t (Suc 0) = m(s := 0)"
| "safestrcpy m s t (Suc (Suc n)) =
     (if m t \<noteq> 0 then safestrcpy (m(s := m t)) (s + 1) (t + 1) (Suc n)
      else (m(s := 0))(s + 1 := 0))"

text \<open>\<^verbatim>\<open>for(n = 0; s[n]; n++);\<close> does not return when there is no NUL.\<close>

partial_function (option) strlen_from :: "(nat \<Rightarrow> u8) \<Rightarrow> nat \<Rightarrow> nat option" where
  "strlen_from s n = (if s n = 0 then Some n else strlen_from s (Suc n))"

definition strlen :: "(nat \<Rightarrow> u8) \<Rightarrow> nat option" where
  "strlen s = strlen_from s 0"

subsection \<open>Closed forms\<close>

lemma memset_Suc: "memset m dst c (Suc n) = (memset m dst c n)(dst + of_nat n := c)"
  by (simp add: memset_def)

lemma of_nat_neq_small:
  assumes "i < n" "n < 2 ^ 64"
  shows "(of_nat i :: u64) \<noteq> of_nat n"
proof
  assume "(of_nat i :: u64) = of_nat n"
  then have "unat (of_nat i :: u64) = unat (of_nat n :: u64)" by simp
  then show False using assms by (simp add: unat_of_nat take_bit_nat_eq_self)
qed

lemma unat_diff_offset:
  "n < 2 ^ 64 \<Longrightarrow> unat ((a :: u64) + of_nat n - a) = n"
  by (simp add: unat_of_nat take_bit_nat_eq_self)

lemma in_range_Suc:
  assumes "n < 2 ^ 64"
  shows "in_range x a (Suc n) \<longleftrightarrow> in_range x a n \<or> x = a + of_nat n"
proof -
  have "unat (x - a) = n \<longleftrightarrow> x = a + of_nat n"
  proof
    assume "unat (x - a) = n"
    then have "of_nat (unat (x - a)) = (of_nat n :: u64)" by simp
    then have "x - a = of_nat n" by simp
    then show "x = a + of_nat n" by (simp add: algebra_simps)
  next
    assume "x = a + of_nat n"
    then show "unat (x - a) = n" using unat_diff_offset [OF assms] by simp
  qed
  then show ?thesis by (auto simp: in_range_def less_Suc_eq)
qed

lemma memset_apply:
  "n \<le> 2 ^ 64 \<Longrightarrow> memset m dst c n x = (if in_range x dst n then c else m x)"
proof (induction n)
  case 0
  then show ?case by (simp add: memset_def in_range_def)
next
  case (Suc n)
  then show ?case by (auto simp: memset_Suc in_range_Suc)
qed

lemma in_range_shift:
  assumes "n < 2 ^ 64"
  shows "in_range x a (Suc n) \<longleftrightarrow> x = a \<or> in_range x (a + 1) n"
proof (cases "x = a")
  case False
  then have "x - a \<noteq> 0" by simp
  then have "unat (x - a - 1) = unat (x - a) - 1" "unat (x - a) \<noteq> 0"
    by (simp_all add: unat_minus_one unat_eq_0)
  moreover have "x - a - 1 = x - (a + 1)" by (simp add: algebra_simps)
  ultimately have "unat (x - a) = Suc (unat (x - (a + 1)))" by simp
  with False show ?thesis by (simp add: in_range_def)
qed (simp add: in_range_def)

lemma not_in_range_self_Suc: "n < 2 ^ 64 \<Longrightarrow> \<not> in_range a (a + 1) n"
  by (simp add: in_range_def unsigned_minus_1_eq_mask mask_eq_exp_minus_1)

text \<open>
  The upward loop is right unless the destination starts strictly inside the source, the downward
  loop unless the source starts inside the destination.
\<close>

lemma copy_up_apply:
  assumes "d = s \<or> n \<le> unat (d - s)" "n < 2 ^ 64"
  shows "copy_up m d s n x = (if in_range x d n then m (s + (x - d)) else m x)"
  using assms
proof (induction n arbitrary: m d s)
  case 0
  then show ?case by (simp add: in_range_def)
next
  case (Suc n)
  have far: "s + (x - d) \<noteq> d" if "in_range x (d + 1) n"
  proof
    assume eq: "s + (x - d) = d"
    then have diff: "x - d = d - s" by (simp add: algebra_simps)
    have "in_range x d (Suc n)" "x \<noteq> d"
      using that Suc.prems not_in_range_self_Suc [of n d] by (auto simp: in_range_shift)
    then have "unat (d - s) < Suc n" "d \<noteq> s"
      using diff by (auto simp: in_range_def)
    with Suc.prems(1) show False by simp
  qed
  have IH: "copy_up (m(d := m s)) (d + 1) (s + 1) n x =
      (if in_range x (d + 1) n then (m(d := m s)) (s + 1 + (x - (d + 1))) else (m(d := m s)) x)"
    using Suc.prems by (intro Suc.IH) auto
  have "s + 1 + (x - (d + 1)) = s + (x - d)" by simp
  with IH far Suc.prems show ?case
    by (auto simp: in_range_shift not_in_range_self_Suc)
qed

lemma copy_down_apply:
  assumes "n \<le> unat (s - d)" "n < 2 ^ 64"
  shows "copy_down m (d + of_nat n) (s + of_nat n) n x =
    (if in_range x d n then m (s + (x - d)) else m x)"
  using assms
proof (induction n arbitrary: m)
  case 0
  then show ?case by (simp add: in_range_def)
next
  case (Suc n)
  have far: "s + (x - d) \<noteq> d + of_nat n" if "in_range x d n"
  proof
    assume eq: "s + (x - d) = d + of_nat n"
    from that obtain i where i: "i < n" "x = d + of_nat i" by (rule in_rangeE)
    with eq have "s - d = of_nat n - of_nat i" by (simp add: algebra_simps)
    also have "\<dots> = of_nat (n - i)" using i by simp
    finally have "unat (s - d) = n - i"
      using Suc.prems by (simp add: unat_of_nat take_bit_nat_eq_self)
    with Suc.prems show False by simp
  qed
  let ?m = "m(d + of_nat n := m (s + of_nat n))"
  have "copy_down ?m (d + of_nat n) (s + of_nat n) n x =
      (if in_range x d n then ?m (s + (x - d)) else ?m x)"
    using Suc.prems by (intro Suc.IH) auto
  with far Suc.prems show ?case
    by (auto simp: in_range_Suc algebra_simps)
qed

lemma memmove_apply:
  assumes "unat src + n < 2 ^ 64" "unat dst + n < 2 ^ 64"
  shows "memmove m dst src n x = (if in_range x dst n then m (src + (x - dst)) else m x)"
proof (cases "src < dst \<and> src + of_nat n > dst")
  case True
  have "unat (src - dst) = 2 ^ 64 - (unat dst - unat src)"
    using True by (simp add: unat_sub_if_size word_less_nat_alt word_size)
  then have "n \<le> unat (src - dst)" using assms by linarith
  with True assms show ?thesis
    by (cases "n = 0") (simp_all add: memmove_def copy_down_apply in_range_def)
next
  case False
  have "unat (src + of_nat n) = unat src + n"
    using assms by (simp add: unat_word_ariths unat_of_nat take_bit_nat_eq_self)
  then have "dst = src \<or> n \<le> unat (dst - src)"
    using False assms
    by (auto simp: unat_sub_if_size word_less_nat_alt word_size word_unat_eq_iff)
  moreover have "memmove m dst src n = copy_up m dst src n"
    using False by (auto simp: memmove_def)
  ultimately show ?thesis using assms by (simp add: copy_up_apply)
qed

text \<open>The string copies stay inside their destination, whatever the aliasing.\<close>

lemma strncpy_outside:
  "n < 2 ^ 64 \<Longrightarrow> \<not> in_range x s n \<Longrightarrow> strncpy m s t n x = m x"
  by (induction m s t n rule: strncpy.induct) (auto simp: in_range_shift memset_apply)

lemma safestrcpy_outside:
  "n < 2 ^ 64 \<Longrightarrow> \<not> in_range x s n \<Longrightarrow> safestrcpy m s t n x = m x"
proof (induction n arbitrary: m s t rule: induct_nat_012)
  case (ge2 n)
  then show ?case by (auto simp: in_range_shift)
qed (auto simp: in_range_shift)

lemma safestrcpy_result:
  assumes "0 < n" "n < 2 ^ 63" "\<And>i. i < n \<Longrightarrow> \<not> in_range (t + of_nat i) s n"
  shows "\<exists>k<n. (\<forall>i<k. safestrcpy m s t n (s + of_nat i) = m (t + of_nat i) \<and> m (t + of_nat i) \<noteq> 0)
    \<and> safestrcpy m s t n (s + of_nat k) = 0 \<and> (Suc k = n \<or> m (t + of_nat k) = 0)"
  using assms
proof (induction n arbitrary: m s t rule: induct_nat_012)
  case 1
  then show ?case by auto
next
  case (ge2 n)
  show ?case
  proof (cases "m t = 0")
    case True
    then show ?thesis by (intro exI [of _ 0]) auto
  next
    case False
    let ?m = "m(s := m t)"
    have sep: "\<not> in_range (t + 1 + of_nat i) (s + 1) (Suc n)" "t + 1 + of_nat i \<noteq> s"
      if "i < Suc n" for i
      using ge2.prems(3) [of "Suc i"] that ge2.prems(2) by (auto simp: in_range_shift [of "Suc n"] algebra_simps)
    have "Suc n < 2 ^ 63" using ge2.prems(2) by simp
    from ge2.IH(2) [of "t + 1" "s + 1" ?m, OF zero_less_Suc this sep(1)]
    obtain k where k: "k < Suc n"
      "\<forall>i<k. safestrcpy ?m (s + 1) (t + 1) (Suc n) (s + 1 + of_nat i) = ?m (t + 1 + of_nat i)
        \<and> ?m (t + 1 + of_nat i) \<noteq> 0"
      "safestrcpy ?m (s + 1) (t + 1) (Suc n) (s + 1 + of_nat k) = 0"
      "Suc k = Suc n \<or> ?m (t + 1 + of_nat k) = 0" by blast
    have first: "safestrcpy ?m (s + 1) (t + 1) (Suc n) s = m t"
      using ge2.prems(2) not_in_range_self_Suc [of "Suc n" s] by (simp add: safestrcpy_outside)
    show ?thesis
    proof (intro exI [of _ "Suc k"] conjI allI impI)
      fix i assume i: "i < Suc k"
      show "safestrcpy m s t (Suc (Suc n)) (s + of_nat i) = m (t + of_nat i)"
        "m (t + of_nat i) \<noteq> 0"
        using i k(1,2) sep(2) [of "i - 1"] first False
        by (cases i; fastforce simp: algebra_simps)+
    qed (use k sep(2) [of k] False in \<open>auto simp: algebra_simps\<close>)
  qed
qed simp

lemma strlen_from_first_nul:
  assumes "s k = 0" "n \<le> k" "\<And>i. n \<le> i \<Longrightarrow> i < k \<Longrightarrow> s i \<noteq> 0"
  shows "strlen_from s n = Some k"
  using assms(2,1,3)
proof (induction rule: inc_induct)
  case base
  then show ?case by (simp add: strlen_from.simps [of s])
next
  case (step n)
  have "strlen_from s (Suc n) = Some k" using step by simp
  moreover have "s n \<noteq> 0" using step by simp
  ultimately show ?case by (simp add: strlen_from.simps [of s n])
qed

lemma strlen_first_nul:
  "s k = 0 \<Longrightarrow> (\<And>i. i < k \<Longrightarrow> s i \<noteq> 0) \<Longrightarrow> strlen s = Some k"
  by (simp add: strlen_def strlen_from_first_nul)

lemma memcmp_eq_0: "memcmp s1 s2 n = 0 \<longleftrightarrow> (\<forall>i<n. s1 i = s2 i)"
  by (induction s1 s2 n rule: memcmp.induct) (auto simp: All_less_Suc2 word_uint_eq_iff)

text \<open>
  \<^verbatim>\<open>strncmp\<close> returns 0 exactly when the strings agree up to \<open>n\<close> characters or to a NUL they share,
  which is how directory names of 14 bytes are compared.
\<close>

lemma strncmp_eq_0:
  "strncmp p q n = 0 \<longleftrightarrow> (\<forall>i<n. (\<forall>j<i. p j \<noteq> 0) \<longrightarrow> p i = q i)"
proof (induction p q n rule: strncmp.induct)
  case (2 p q n)
  have split: "(\<forall>i<Suc n. (\<forall>j<i. p j \<noteq> 0) \<longrightarrow> p i = q i) \<longleftrightarrow>
      p 0 = q 0 \<and> (p 0 \<noteq> 0 \<longrightarrow> (\<forall>i<n. (\<forall>j<i. p (Suc j) \<noteq> 0) \<longrightarrow> p (Suc i) = q (Suc i)))"
    by (auto simp: All_less_Suc2)
  show ?case unfolding split using 2 by (auto simp: word_uint_eq_iff)
qed simp

subsection \<open>Properties\<close>

text \<open>
  C6. \<^verbatim>\<open>memmove\<close> is correct for overlapping ranges: with neither range wrapping around the address
  space, every destination byte holds what the source byte held before the call, in whichever
  direction the loop runs, and no other byte changes.
\<close>

theorem memmove_overlap:
  assumes "unat src + n < 2 ^ 64" "unat dst + n < 2 ^ 64"
  shows "(\<forall>i<n. memmove m dst src n (dst + of_nat i) = m (src + of_nat i)) \<and>
    (\<forall>x. \<not> in_range x dst n \<longrightarrow> memmove m dst src n x = m x)"
  using assms by (simp add: memmove_apply in_range_offset)

theorem memmove_overlap_witness:
  "map (memmove (\<lambda>a. if a = 10 then 1 else if a = 11 then 2 else if a = 12 then 3 else 0)
     11 10 3) [10, 11, 12, 13] = [1, 1, 2, 3 :: u8]"
  using memmove_overlap [of 10 3 11 "\<lambda>a. if a = 10 then 1 else if a = 11 then 2 else if a = 12 then 3 else 0"]
  by (simp add: All_less_Suc2 numeral_3_eq_3 in_range_def unsigned_minus_1_eq_mask mask_eq_exp_minus_1)

text \<open>
  C11. \<^verbatim>\<open>safestrcpy\<close> with a positive size leaves a NUL-terminated string within the \<open>n\<close> bytes of the
  destination, equal to the source up to its NUL or truncated to \<open>n - 1\<close> characters, and changes
  no byte outside them; source and destination are disjoint.
\<close>

theorem safestrcpy_terminated:
  assumes "0 < n" "n < 2 ^ 31" "\<And>i. i < n \<Longrightarrow> \<not> in_range (t + of_nat i) s n"
  shows "(\<exists>k<n. (\<forall>i<k. safestrcpy m s t n (s + of_nat i) = m (t + of_nat i) \<and> m (t + of_nat i) \<noteq> 0)
      \<and> safestrcpy m s t n (s + of_nat k) = 0 \<and> (Suc k = n \<or> m (t + of_nat k) = 0))
    \<and> (\<forall>x. \<not> in_range x s n \<longrightarrow> safestrcpy m s t n x = m x)"
proof
  show "\<forall>x. \<not> in_range x s n \<longrightarrow> safestrcpy m s t n x = m x"
    using assms(2) by (simp add: safestrcpy_outside)
qed (use safestrcpy_result [of n t s m] assms in simp)

theorem safestrcpy_terminated_witness:
  "map (safestrcpy (\<lambda>a. 65) 0 100 4) [0, 1, 2, 3] = [65, 65, 65, 0]"
proof -
  have "\<not> in_range (100 + of_nat i) 0 4" if "i < 4" for i :: nat
  proof -
    have "i = 0 \<or> i = 1 \<or> i = 2 \<or> i = 3" using that by auto
    then show ?thesis by (auto simp: in_range_def)
  qed
  from safestrcpy_terminated [of 4 100 0 "\<lambda>a. 65", OF _ _ this] show ?thesis
    by (auto simp: All_less_Suc2 numeral_3_eq_3)
qed

end
