(* ===== verification/Kalloc.thy ===== *)
theory Kalloc
  imports Cmem
begin

section \<open>The physical page allocator\<close>

text \<open>
  \<^verbatim>\<open>kernel/kalloc.c\<close>: free pages form a linked list threaded through the pages themselves; the
  first eight bytes of a free page hold the address of the next one. The accounting fields
  \<^verbatim>\<open>nfree\<close> and \<^verbatim>\<open>nalloc\<close> feed the memory statistics system calls.
\<close>

subsection \<open>Operations\<close>

definition kfree :: "u64 \<Rightarrow> 'a machine_scheme \<Rightarrow> 'a machine_scheme option" where
  "kfree pa s =
     (if pa mod PGSIZE \<noteq> 0 \<or> pa < k_end s \<or> pa \<ge> PHYSTOP then panic ''kfree''
      else
        let m = memset (mem s) pa 1 4096;
            m = write64 m pa (freelist s)
        in Some (s\<lparr>mem := m, freelist := pa, nfree := nfree s + 1\<rparr>))"

definition kalloc :: "'a machine_scheme \<Rightarrow> u64 \<times> 'a machine_scheme" where
  "kalloc s =
     (let r = freelist s in
      if r \<noteq> 0
      then (r, s\<lparr>freelist := read64 (mem s) r, nfree := nfree s - 1, nalloc := nalloc s + 1,
                 mem := memset (mem s) r 5 4096\<rparr>)
      else (0, s))"

lemma kfree_SomeD:
  "kfree pa s = Some s' \<Longrightarrow> pa mod PGSIZE = 0 \<and> k_end s \<le> pa \<and> pa < PHYSTOP"
  by (auto simp: kfree_def split: if_splits)

text \<open>
  \<^verbatim>\<open>for(; p + PGSIZE <= pa_end; p += PGSIZE) kfree(p);\<close> The pointer addition may wrap around,
  but the loop ends because \<^verbatim>\<open>kfree\<close> panics at \<^verbatim>\<open>PHYSTOP\<close>.
\<close>

function freerange_loop :: "u64 \<Rightarrow> u64 \<Rightarrow> 'a machine_scheme \<Rightarrow> 'a machine_scheme option" where
  "freerange_loop p pa_end s =
     (if p + PGSIZE \<le> pa_end
      then do { s \<leftarrow> kfree p s; freerange_loop (p + PGSIZE) pa_end s }
      else Some s)"
  by pat_completeness auto
termination
proof (relation "measure (\<lambda>(p, pa_end, s). unat PHYSTOP - unat p)", goal_cases)
  case (2 p pa_end s s')
  then have "p < PHYSTOP" by (auto dest: kfree_SomeD)
  then have lt: "unat p < unat PHYSTOP" by (simp add: word_less_nat_alt)
  then have "unat (p + PGSIZE) = unat p + 4096"
    by (simp add: PHYSTOP_def KERNBASE_def unat_word_ariths)
  with lt show ?case by simp
qed simp

declare freerange_loop.simps [simp del]

definition freerange :: "u64 \<Rightarrow> u64 \<Rightarrow> 'a machine_scheme \<Rightarrow> 'a machine_scheme option" where
  "freerange pa_start pa_end s = freerange_loop (PGROUNDUP pa_start) pa_end s"

definition kinit :: "'a machine_scheme \<Rightarrow> 'a machine_scheme option" where
  "kinit s = freerange (k_end s) PHYSTOP (s\<lparr>nfree := 0, nalloc := 0\<rparr>)"

definition getfreepages :: "'a machine_scheme \<Rightarrow> u64" where
  "getfreepages s = nfree s"

definition getmemstat :: "'a machine_scheme \<Rightarrow> u64 \<times> u64" where
  "getmemstat s = (nfree s, nalloc s)"

subsection \<open>Page arithmetic\<close>

lemma unat_PHYSTOP [simp]: "unat PHYSTOP = 2281701376"
  by (simp add: PHYSTOP_def KERNBASE_def)

lemma PGROUNDDOWN_alt: "PGROUNDDOWN a = push_bit 12 (drop_bit 12 a)"
proof -
  have "(PGSIZE - 1 :: u64) = mask 12" by (simp add: mask_eq_exp_minus_1)
  then have "PGROUNDDOWN a = a AND NOT (mask 12)" by (simp only: PGROUNDDOWN_def)
  also have "\<dots> = push_bit 12 (drop_bit 12 a)"
    by (rule bit_eqI) (auto simp: bit_simps)
  finally show ?thesis .
qed

lemma unat_PGROUNDDOWN: "unat (PGROUNDDOWN a) = unat a div 4096 * 4096"
proof -
  have "unat a div 4096 * 4096 \<le> unat a" by simp
  also have "\<dots> < 2 ^ 64" using unsigned_less [of a] by simp
  finally have small: "unat a div 4096 * 4096 < 2 ^ 64" .
  have "unat (drop_bit 12 a) = unat a div 4096"
    by (simp add: drop_bit_eq_div unat_div)
  with small show ?thesis
    by (simp add: PGROUNDDOWN_alt push_bit_eq_mult unat_word_ariths)
qed

lemma page_aligned_iff: "(p :: u64) mod PGSIZE = 0 \<longleftrightarrow> 4096 dvd unat p"
proof -
  have "unat (p mod PGSIZE) = unat p mod 4096" by (simp add: unat_mod)
  then show ?thesis by (metis dvd_eq_mod_eq_0 unat_eq_0)
qed

lemma page_alignedE:
  assumes "(p :: u64) mod PGSIZE = 0"
  obtains k where "unat p = 4096 * k"
  using assms that unfolding page_aligned_iff by blast

lemma unat_page_offset:
  assumes "p mod PGSIZE = 0" "i < 4096"
  shows "unat (p + of_nat i) = unat p + i"
proof -
  obtain k where k: "unat p = 4096 * k" using assms(1) by (rule page_alignedE)
  moreover have "unat p < 2 ^ 64" using unsigned_less [of p] by simp
  ultimately have "unat p + i < 2 ^ 64" using assms(2) by simp
  moreover have "unat (of_nat i :: u64) = i"
    using assms(2) by (simp add: unat_of_nat take_bit_nat_eq_self)
  ultimately show ?thesis by (simp add: unat_add_small)
qed

lemma PGROUNDDOWN_page_offset:
  assumes "p mod PGSIZE = 0" "i < 4096"
  shows "PGROUNDDOWN (p + of_nat i) = p"
proof -
  obtain k where k: "unat p = 4096 * k" using assms(1) by (rule page_alignedE)
  have "unat (PGROUNDDOWN (p + of_nat i)) = (4096 * k + i) div 4096 * 4096"
    using assms k by (simp only: unat_PGROUNDDOWN unat_page_offset)
  also have "\<dots> = unat p" using assms(2) k by simp
  finally show ?thesis by (simp only: word_unat_eq_iff)
qed

lemma PGROUNDDOWN_aligned [simp]: "PGROUNDDOWN a mod PGSIZE = 0"
  by (simp only: page_aligned_iff unat_PGROUNDDOWN dvd_triv_right)

lemma PGROUNDUP_alt: "PGROUNDUP a = PGROUNDDOWN (a + 4095)"
  by (simp add: PGROUNDUP_def PGROUNDDOWN_def add.commute)

lemma PGROUNDUP_aligned [simp]: "PGROUNDUP a mod PGSIZE = 0"
  by (simp only: PGROUNDUP_alt PGROUNDDOWN_aligned)

lemma unat_PGROUNDUP:
  "unat a + 4095 < 2 ^ 64 \<Longrightarrow> unat (PGROUNDUP a) = (unat a + 4095) div 4096 * 4096"
  by (simp add: PGROUNDUP_alt unat_PGROUNDDOWN unat_add_small)

text \<open>Distinct pages do not overlap.\<close>

lemma pages_disjoint:
  assumes "p mod PGSIZE = 0" "q mod PGSIZE = 0" "p \<noteq> q" "i < 4096"
  shows "\<not> in_range (q + of_nat i) p 4096"
proof
  assume "in_range (q + of_nat i) p 4096"
  then obtain j where "j < 4096" "q + of_nat i = p + of_nat j" by (rule in_rangeE)
  then have "q = p"
    using assms PGROUNDDOWN_page_offset [of q i] PGROUNDDOWN_page_offset [of p j] by simp
  with assms(3) show False by simp
qed

subsection \<open>The free list\<close>

text \<open>\<open>flist m p fl\<close>: the list of pages reached from \<open>p\<close> through their first words is \<open>fl\<close>.\<close>

fun flist :: "memory \<Rightarrow> u64 \<Rightarrow> u64 list \<Rightarrow> bool" where
  "flist m p [] \<longleftrightarrow> p = 0"
| "flist m p (a # fl) \<longleftrightarrow> p = a \<and> a \<noteq> 0 \<and> flist m (read64 m a) fl"

text \<open>The pages the allocator manages: aligned, between the end of the kernel and \<^verbatim>\<open>PHYSTOP\<close>.\<close>

definition page_ok :: "u64 \<Rightarrow> u64 \<Rightarrow> bool" where
  "page_ok e p \<longleftrightarrow> p mod PGSIZE = 0 \<and> e \<le> p \<and> p < PHYSTOP"

definition kalloc_inv :: "u64 \<Rightarrow> 'a machine_scheme \<Rightarrow> u64 list \<Rightarrow> bool" where
  "kalloc_inv e s fl \<longleftrightarrow> k_end s = e \<and> 0 < e \<and> flist (mem s) (freelist s) fl \<and> distinct fl \<and>
     (\<forall>p\<in>set fl. page_ok e p) \<and> nfree s = of_nat (length fl)"

lemma page_ok_nonzero: "0 < e \<Longrightarrow> page_ok e p \<Longrightarrow> p \<noteq> 0"
  by (auto simp: page_ok_def word_less_nat_alt word_le_nat_alt)

lemma flist_cong:
  "(\<And>p i. p \<in> set fl \<Longrightarrow> i < 8 \<Longrightarrow> m' (p + of_nat i) = m (p + of_nat i)) \<Longrightarrow>
   flist m' a fl = flist m a fl"
proof (induction fl arbitrary: a)
  case (Cons p fl)
  have "read64 m' p = read64 m p" using Cons.prems by (intro read64_cong) simp
  with Cons show ?case by simp
qed simp

text \<open>Changing memory inside a page that is not free leaves the free list alone.\<close>

lemma flist_change_other:
  assumes "\<forall>q\<in>set fl. q mod PGSIZE = 0" "p mod PGSIZE = 0" "p \<notin> set fl"
    and "\<And>x. \<not> in_range x p 4096 \<Longrightarrow> m' x = m x"
  shows "flist m' a fl = flist m a fl"
proof (rule flist_cong)
  fix q and i :: nat
  assume q: "q \<in> set fl" and i: "i < 8"
  with assms(1-3) have "\<not> in_range (q + of_nat i) p 4096"
    by (intro pages_disjoint) auto
  then show "m' (q + of_nat i) = m (q + of_nat i)" by (rule assms(4))
qed

lemma memset_page: "memset m p c 4096 x = (if in_range x p 4096 then c else m x)"
  by (simp add: memset_apply)

lemma in_range_mono: "in_range x a n \<Longrightarrow> n \<le> k \<Longrightarrow> in_range x a k"
  by (simp add: in_range_def)

lemma kalloc_inv_alloc:
  assumes "kalloc_inv e s (p # fl)"
  shows "fst (kalloc s) = p \<and> kalloc_inv e (snd (kalloc s)) fl"
proof -
  have "flist (memset (mem s) p 5 4096) (read64 (mem s) p) fl = flist (mem s) (read64 (mem s) p) fl"
    using assms by (intro flist_change_other [of _ p]) (auto simp: kalloc_inv_def page_ok_def memset_page)
  with assms show ?thesis by (auto simp: kalloc_def kalloc_inv_def Let_def)
qed

lemma kalloc_empty: "kalloc_inv e s [] \<Longrightarrow> kalloc s = (0, s)"
  by (simp add: kalloc_def kalloc_inv_def)

lemma kalloc_inv_free:
  assumes "kalloc_inv e s fl" "page_ok e p" "p \<notin> set fl"
  shows "\<exists>s'. kfree p s = Some s' \<and> kalloc_inv e s' (p # fl)"
proof -
  let ?m = "write64 (memset (mem s) p 1 4096) p (freelist s)"
  have "flist ?m (freelist s) fl = flist (mem s) (freelist s) fl"
  proof (rule flist_change_other [of _ p])
    fix x assume "\<not> in_range x p 4096"
    moreover from this have "\<not> in_range x p 8" using in_range_mono [of x p 8 4096] by auto
    ultimately show "?m x = mem s x" by (simp add: write64_other memset_page)
  qed (use assms in \<open>auto simp: kalloc_inv_def page_ok_def\<close>)
  moreover have "\<not> (p mod PGSIZE \<noteq> 0 \<or> p < e \<or> PHYSTOP \<le> p)" "p \<noteq> 0"
    using assms by (auto simp: page_ok_def kalloc_inv_def)
  ultimately show ?thesis
    using assms by (simp add: kfree_def kalloc_inv_def Let_def)
qed

text \<open>A store by the owner of a page.\<close>

definition store_byte :: "u64 \<Rightarrow> u8 \<Rightarrow> 'a machine_scheme \<Rightarrow> 'a machine_scheme" where
  "store_byte a b s = s\<lparr>mem := (mem s)(a := b)\<rparr>"

lemma kalloc_inv_store:
  assumes "kalloc_inv e s fl" "page_ok e p" "p \<notin> set fl" "i < 4096"
  shows "kalloc_inv e (store_byte (p + of_nat i) b s) fl"
proof -
  have "in_range (p + of_nat i) p 4096" using assms(4) by (simp add: in_range_offset)
  then have "flist ((mem s)(p + of_nat i := b)) (freelist s) fl = flist (mem s) (freelist s) fl"
    using assms by (intro flist_change_other [of _ p]) (auto simp: kalloc_inv_def page_ok_def)
  with assms show ?thesis by (simp add: kalloc_inv_def store_byte_def)
qed

subsection \<open>The allocator's contract\<close>

text \<open>
  A client asks for pages, stores into pages it holds and gives them back. \<open>page_run\<close> runs such
  a sequence and keeps the pages held; a free or a store of a page not held is left out, as no
  code of the kernel does it.
\<close>

datatype page_op = AllocPage | FreePage u64 | StorePage u64 nat u8

fun page_run ::
  "('s \<Rightarrow> u64 \<times> 's) \<Rightarrow> (u64 \<Rightarrow> 's \<Rightarrow> 's option) \<Rightarrow> (u64 \<Rightarrow> u8 \<Rightarrow> 's \<Rightarrow> 's) \<Rightarrow>
   page_op list \<Rightarrow> 's \<Rightarrow> u64 list \<Rightarrow> ('s \<times> u64 list) option" where
  "page_run alloc free store [] s held = Some (s, held)"
| "page_run alloc free store (AllocPage # ops) s held =
     (let (p, s') = alloc s
      in page_run alloc free store ops s' (if p = 0 then held else p # held))"
| "page_run alloc free store (FreePage p # ops) s held =
     (if p \<in> set held
      then do { s' \<leftarrow> free p s; page_run alloc free store ops s' (remove1 p held) }
      else page_run alloc free store ops s held)"
| "page_run alloc free store (StorePage p i b # ops) s held =
     (if p \<in> set held \<and> i < 4096
      then page_run alloc free store ops (store (p + of_nat i) b s) held
      else page_run alloc free store ops s held)"

locale page_allocator =
  fixes inv :: "'s \<Rightarrow> u64 list \<Rightarrow> bool"
    and alloc :: "'s \<Rightarrow> u64 \<times> 's"
    and free :: "u64 \<Rightarrow> 's \<Rightarrow> 's option"
    and store :: "u64 \<Rightarrow> u8 \<Rightarrow> 's \<Rightarrow> 's"
    and page :: "u64 \<Rightarrow> bool"
  assumes inv_distinct: "inv s fl \<Longrightarrow> distinct fl"
    and inv_page: "inv s fl \<Longrightarrow> p \<in> set fl \<Longrightarrow> page p"
    and page_nonzero: "inv s fl \<Longrightarrow> page p \<Longrightarrow> p \<noteq> 0"
    and alloc_cons: "inv s (p # fl) \<Longrightarrow> fst (alloc s) = p \<and> inv (snd (alloc s)) fl"
    and alloc_nil: "inv s [] \<Longrightarrow> alloc s = (0, s)"
    and free_page: "inv s fl \<Longrightarrow> page p \<Longrightarrow> p \<notin> set fl \<Longrightarrow> \<exists>s'. free p s = Some s' \<and> inv s' (p # fl)"
    and store_page: "inv s fl \<Longrightarrow> page p \<Longrightarrow> p \<notin> set fl \<Longrightarrow> i < 4096 \<Longrightarrow> inv (store (p + of_nat i) b s) fl"
begin

lemma alloc_cases:
  assumes "inv s fl"
  obtains (empty) "fl = []" "alloc s = (0, s)"
  | (page) p fl' s' where "fl = p # fl'" "p \<noteq> 0" "alloc s = (p, s')" "inv s' fl'"
proof (cases fl)
  case Nil
  with assms alloc_nil show ?thesis by (intro empty) auto
next
  case (Cons p fl')
  obtain q s' where q: "alloc s = (q, s')" by (cases "alloc s")
  with Cons assms alloc_cons [of s p fl'] inv_page [of s fl p] page_nonzero [of s fl p]
  show ?thesis by (intro page [of p fl' s']) auto
qed

text \<open>
  However the client behaves, the run succeeds, the pages held and the pages free are all
  different, and together they are the pages there were.
\<close>

lemma run_partition:
  assumes "inv s fl" "distinct (fl @ held)" "\<forall>p\<in>set held. page p"
  shows "\<exists>s' held' fl'. page_run alloc free store ops s held = Some (s', held') \<and> inv s' fl' \<and>
    distinct (fl' @ held') \<and> set (fl' @ held') = set (fl @ held)"
  using assms
proof (induction ops arbitrary: s fl held)
  case (Cons op ops)
  show ?case
  proof (cases op)
    case AllocPage
    from Cons.prems(1) show ?thesis
    proof (cases rule: alloc_cases)
      case empty
      with Cons.IH [OF Cons.prems] AllocPage show ?thesis by simp
    next
      case (page p fl' s')
      have "distinct (fl' @ p # held)" "\<forall>q\<in>set (p # held). page q"
        using Cons.prems page inv_page by auto
      from Cons.IH [OF page(4) this] page AllocPage show ?thesis by simp
    qed
  next
    case (FreePage p)
    show ?thesis
    proof (cases "p \<in> set held")
      case True
      with Cons.prems free_page [of s fl p] obtain s'
        where s': "free p s = Some s'" "inv s' (p # fl)" by auto
      have "distinct ((p # fl) @ remove1 p held)" "\<forall>q\<in>set (remove1 p held). page q"
        using Cons.prems True by (auto dest: in_set_remove1)
      moreover have "set ((p # fl) @ remove1 p held) = set (fl @ held)"
        using Cons.prems True by auto
      ultimately show ?thesis
        using Cons.IH [OF s'(2), of "remove1 p held"] s'(1) FreePage True by simp
    qed (use Cons FreePage in simp)
  next
    case (StorePage p i b)
    show ?thesis
    proof (cases "p \<in> set held \<and> i < 4096")
      case True
      then have "inv (store (p + of_nat i) b s) fl"
        using Cons.prems by (intro store_page) auto
      from Cons.IH [OF this] Cons.prems StorePage True show ?thesis by simp
    next
      case False
      then have "page_run alloc free store (op # ops) s held = page_run alloc free store ops s held"
        using StorePage by auto
      with Cons.IH [OF Cons.prems] show ?thesis by simp
    qed
  qed
qed fastforce

end

interpretation kmem: page_allocator "kalloc_inv e" kalloc kfree store_byte "page_ok e" for e
proof
  fix s :: "'a machine_scheme" and fl p
  assume "kalloc_inv e s fl" "page_ok e p"
  then show "p \<noteq> 0" by (intro page_ok_nonzero [of e]) (auto simp: kalloc_inv_def)
qed (auto simp: kalloc_inv_alloc kalloc_empty kalloc_inv_free kalloc_inv_store,
     auto simp: kalloc_inv_def)

subsection \<open>Initialisation\<close>

lemma freerange_loop_pages:
  assumes "kalloc_inv e s fl" "p mod PGSIZE = 0" "e \<le> p" "p \<le> PHYSTOP" "\<forall>q\<in>set fl. q < p"
  shows "\<exists>s' fl'. freerange_loop p PHYSTOP s = Some s' \<and> kalloc_inv e s' fl' \<and>
    set fl' = set fl \<union> {q. page_ok p q} \<and> nalloc s' = nalloc s"
  using assms
proof (induction p "PHYSTOP" s arbitrary: fl rule: freerange_loop.induct)
  case (1 p s)
  obtain k where k: "unat p = 4096 * k" using 1(3) by (rule page_alignedE)
  show ?case
  proof (cases "p < PHYSTOP")
    case True
    have up: "unat (p + PGSIZE) = unat p + 4096"
      using True by (simp add: word_less_nat_alt unat_word_ariths)
    have le: "p + PGSIZE \<le> PHYSTOP"
      using True k up by (simp add: word_less_nat_alt word_le_nat_alt)
    obtain s1 where s1: "kfree p s = Some s1" "kalloc_inv e s1 (p # fl)"
      using kalloc_inv_free [OF 1(2), of p] 1(3,4,6) True by (auto simp: page_ok_def)
    have next_page: "(p + PGSIZE) mod PGSIZE = 0" "p < p + PGSIZE"
      using k up by (simp_all add: page_aligned_iff word_less_nat_alt)
    have "\<exists>s' fl'. freerange_loop (p + PGSIZE) PHYSTOP s1 = Some s' \<and> kalloc_inv e s' fl' \<and>
        set fl' = set (p # fl) \<union> {q. page_ok (p + PGSIZE) q} \<and> nalloc s' = nalloc s1"
      using 1(4,6) next_page by (intro 1(1) [OF le s1(1) s1(2)] le) auto
    moreover have "page_ok p q \<longleftrightarrow> q = p \<or> page_ok (p + PGSIZE) q" for q
    proof -
      have "p \<le> q \<longleftrightarrow> q = p \<or> p + PGSIZE \<le> q" if al: "q mod PGSIZE = 0"
      proof -
        obtain j where "unat q = 4096 * j" using al by (rule page_alignedE)
        then show ?thesis using k up by (auto simp: word_le_nat_alt word_unat_eq_iff)
      qed
      then show ?thesis using 1(3) True unfolding page_ok_def by metis
    qed
    moreover have "nalloc s1 = nalloc s" using s1(1) by (auto simp: kfree_def Let_def split: if_splits)
    ultimately show ?thesis using le s1(1) by (subst freerange_loop.simps) auto
  next
    case False
    then have "p = PHYSTOP" using 1(5) by simp
    then have "\<not> p + PGSIZE \<le> PHYSTOP" "{q. page_ok p q} = {}"
      by (auto simp: page_ok_def PHYSTOP_def KERNBASE_def)
    with 1(2) show ?thesis by (subst freerange_loop.simps) auto
  qed
qed

lemma kinit_pages:
  assumes "freelist s = 0" "0 < k_end s" "k_end s \<le> PHYSTOP"
  shows "\<exists>s' fl. kinit s = Some s' \<and> kalloc_inv (k_end s) s' fl \<and> set fl = {p. page_ok (k_end s) p} \<and>
    nalloc s' = 0"
proof -
  let ?e = "k_end s" and ?s = "s\<lparr>nfree := 0, nalloc := 0\<rparr>"
  have le: "unat ?e \<le> 2281701376" using assms(3) by (simp add: word_le_nat_alt)
  then have up: "unat (PGROUNDUP ?e) = (unat ?e + 4095) div 4096 * 4096"
    by (simp add: unat_PGROUNDUP)
  have "(unat ?e + 4095) div 4096 * 4096 \<le> 2281701376" "unat ?e \<le> (unat ?e + 4095) div 4096 * 4096"
    using le by simp_all
  then have bounds: "PGROUNDUP ?e \<le> PHYSTOP" "?e \<le> PGROUNDUP ?e"
    using up by (simp_all add: word_le_nat_alt)
  have same: "page_ok (PGROUNDUP ?e) q = page_ok ?e q" for q
  proof -
    have "PGROUNDUP ?e \<le> q \<longleftrightarrow> ?e \<le> q" if al: "q mod PGSIZE = 0"
    proof -
      obtain j where "unat q = 4096 * j" using al by (rule page_alignedE)
      then show ?thesis using up by (auto simp: word_le_nat_alt)
    qed
    then show ?thesis unfolding page_ok_def by metis
  qed
  have "kalloc_inv ?e ?s []" using assms by (simp add: kalloc_inv_def)
  from freerange_loop_pages [OF this PGROUNDUP_aligned bounds(2,1)] same
  show ?thesis by (simp add: kinit_def freerange_def)
qed

subsection \<open>Properties\<close>

text \<open>
  C2. No page is ever handed out twice, and none is lost. After \<^verbatim>\<open>kinit\<close>, whatever sequence of
  \<^verbatim>\<open>kalloc\<close>, \<^verbatim>\<open>kfree\<close> of held pages and stores into held pages follows, no call panics, the pages
  held and the pages on the free list are all different, and together they are exactly the
  aligned pages between the end of the kernel and \<^verbatim>\<open>PHYSTOP\<close>; \<^verbatim>\<open>getfreepages\<close> reports the length
  of the free list.
\<close>

theorem kalloc_partition:
  assumes "freelist s = 0" "0 < k_end s" "k_end s \<le> PHYSTOP"
  shows "\<exists>s0. kinit s = Some s0 \<and>
    (\<forall>ops. \<exists>s' held fl. page_run kalloc kfree store_byte ops s0 [] = Some (s', held) \<and>
      flist (mem s') (freelist s') fl \<and> distinct (fl @ held) \<and>
      set (fl @ held) = {p. page_ok (k_end s) p} \<and> getfreepages s' = of_nat (length fl))"
proof -
  obtain s0 fl where s0: "kinit s = Some s0" "kalloc_inv (k_end s) s0 fl"
    "set fl = {p. page_ok (k_end s) p}"
    using kinit_pages [OF assms] by blast
  have "distinct (fl @ [])" using s0(2) by (simp add: kalloc_inv_def)
  from kmem.run_partition [OF s0(2) this] s0 show ?thesis
    by (fastforce simp: kalloc_inv_def getfreepages_def)
qed

theorem kalloc_partition_witness:
  "\<exists>s0. kinit \<lparr>mem = (\<lambda>a. 0), k_end = 0x80021000, freelist = 0, nfree = 0, nalloc = 0\<rparr> = Some s0 \<and>
    (\<exists>s' held. page_run kalloc kfree store_byte [AllocPage, AllocPage] s0 [] = Some (s', held) \<and> distinct held)"
  using kalloc_partition [of "\<lparr>mem = (\<lambda>a. 0), k_end = 0x80021000, freelist = 0, nfree = 0, nalloc = 0\<rparr>"]
  by (fastforce simp: PHYSTOP_def KERNBASE_def)

text \<open>
  C7. The free list is a stack and freeing undoes allocating: a page taken with \<^verbatim>\<open>kalloc\<close> and
  given back with \<^verbatim>\<open>kfree\<close> leaves the same free list and the same count of free pages, is the
  page the next \<^verbatim>\<open>kalloc\<close> returns, and is filled with 5 while held; \<^verbatim>\<open>kalloc\<close> returns 0 exactly
  when no page is free.
\<close>

theorem kalloc_kfree_lifo:
  assumes "kalloc_inv e s fl" "kalloc s = (p, s1)"
  shows "(p = 0 \<longleftrightarrow> fl = []) \<and>
    (p \<noteq> 0 \<longrightarrow> (\<forall>i<4096. mem s1 (p + of_nat i) = 5) \<and>
      (\<exists>s2. kfree p s1 = Some s2 \<and> kalloc_inv e s2 fl \<and> nfree s2 = nfree s \<and> fst (kalloc s2) = p))"
  using assms(1)
proof (cases rule: kmem.alloc_cases)
  case empty
  with assms show ?thesis by simp
next
  case (page q fl' s')
  then have q: "q = p" "s' = s1" using assms(2) by simp_all
  have "page_ok e p" "p \<notin> set fl'" using assms(1) page q by (auto simp: kalloc_inv_def)
  then obtain s2 where s2: "kfree p s1 = Some s2" "kalloc_inv e s2 (p # fl')"
    using kalloc_inv_free page(4) q by blast
  have "nfree s2 = nfree s" using s2(2) assms(1) page(1) q by (simp add: kalloc_inv_def)
  moreover have "fst (kalloc s2) = p" using kalloc_inv_alloc [OF s2(2)] by simp
  moreover have "\<forall>i<4096. mem s1 (p + of_nat i) = 5"
    using page q by (auto simp: kalloc_def Let_def memset_page in_range_offset split: if_splits)
  ultimately show ?thesis using s2 page q by simp
qed

theorem kalloc_kfree_lifo_witness:
  "fst (kalloc \<lparr>mem = (\<lambda>a. 0), k_end = 0x80021000, freelist = 0x80022000, nfree = 1, nalloc = 0\<rparr>) = 0x80022000"
proof -
  let ?s = "\<lparr>mem = (\<lambda>a. 0), k_end = 0x80021000, freelist = 0x80022000, nfree = 1, nalloc = 0\<rparr>"
  have zero: "read64 (\<lambda>a. 0) 0x80022000 = 0"
    by (simp add: read64_def read_bytes_def upt_rec)
  then have "kalloc_inv 0x80021000 ?s [0x80022000]"
    by (simp add: kalloc_inv_def page_ok_def PHYSTOP_def KERNBASE_def)
  from kalloc_kfree_lifo [OF this, of "fst (kalloc ?s)" "snd (kalloc ?s)"]
  obtain s2 :: machine where s2: "kalloc_inv 0x80021000 s2 [0x80022000]" "fst (kalloc s2) = fst (kalloc ?s)"
    by auto
  then show ?thesis using kalloc_inv_alloc [OF s2(1)] by simp
qed

end
