(* ===== verification/Vm.thy ===== *)
theory Vm
  imports Kalloc
begin

section \<open>Virtual memory\<close>

text \<open>
  \<^verbatim>\<open>kernel/vm.c\<close> and the page table macros of \<^verbatim>\<open>kernel/riscv.h\<close>. Page tables live in the byte memory:
  a table is a page of 512 little-endian words. A pointer to a page table entry is its address,
  with 0 for the null pointer. The kernel's own buffers, which the copy functions read and
  write, are byte lists; user memory is reached through the page table.
\<close>

subsection \<open>Page table entries\<close>

abbreviation PTE_V :: u64 where "PTE_V \<equiv> 1"
abbreviation PTE_R :: u64 where "PTE_R \<equiv> 2"
abbreviation PTE_W :: u64 where "PTE_W \<equiv> 4"
abbreviation PTE_X :: u64 where "PTE_X \<equiv> 8"
abbreviation PTE_U :: u64 where "PTE_U \<equiv> 16"

definition PA2PTE :: "u64 \<Rightarrow> u64" where
  "PA2PTE pa = push_bit 10 (drop_bit 12 pa)"

definition PTE2PA :: "u64 \<Rightarrow> u64" where
  "PTE2PA pte = push_bit 12 (drop_bit 10 pte)"

definition PTE_FLAGS :: "u64 \<Rightarrow> u64" where
  "PTE_FLAGS pte = pte AND 0x3FF"

definition PX :: "nat \<Rightarrow> u64 \<Rightarrow> u64" where
  "PX level va = drop_bit (12 + 9 * level) va AND 0x1FF"

subsection \<open>Walking and mapping\<close>

text \<open>The loop of \<^verbatim>\<open>walk\<close> from a level downwards; the address of the level-0 entry, or 0.\<close>

fun walk_level :: "nat \<Rightarrow> u64 \<Rightarrow> u64 \<Rightarrow> bool \<Rightarrow> 'a machine_scheme \<Rightarrow> u64 \<times> 'a machine_scheme" where
  "walk_level 0 pgtbl va alloc s = (pgtbl + 8 * PX 0 va, s)"
| "walk_level (Suc level) pgtbl va alloc s =
     (let pte = pgtbl + 8 * PX (Suc level) va;
          e = read64 (mem s) pte
      in if e AND PTE_V \<noteq> 0 then walk_level level (PTE2PA e) va alloc s
         else if \<not> alloc then (0, s)
         else
           let (pt, s1) = kalloc s
           in if pt = 0 then (0, s1)
              else
                let m = memset (mem s1) pt 0 4096;
                    m = write64 m pte (PA2PTE pt OR PTE_V)
                in walk_level level pt va alloc (s1\<lparr>mem := m\<rparr>))"

definition walk :: "u64 \<Rightarrow> u64 \<Rightarrow> bool \<Rightarrow> 'a machine_scheme \<Rightarrow> (u64 \<times> 'a machine_scheme) option" where
  "walk pgtbl va alloc s =
     (if va \<ge> MAXVA then panic ''walk'' else Some (walk_level 2 pgtbl va alloc s))"

definition walkaddr :: "u64 \<Rightarrow> u64 \<Rightarrow> 'a machine_scheme \<Rightarrow> u64 option" where
  "walkaddr pgtbl va s =
     (if va \<ge> MAXVA then Some 0
      else do {
        (pte, s) \<leftarrow> walk pgtbl va False s;
        if pte = 0 then Some 0
        else let e = read64 (mem s) pte in
          if e AND PTE_V = 0 then Some 0
          else if e AND PTE_U = 0 then Some 0
          else Some (PTE2PA e) })"

lemma walk_SomeD: "walk pt va alloc s = Some r \<Longrightarrow> va < MAXVA"
  by (auto simp: walk_def split: if_splits)

lemma unat_MAXVA [simp]: "unat MAXVA = 2 ^ 38"
  by (simp add: MAXVA_def)

lemma unat_step_below_MAXVA: "a < MAXVA \<Longrightarrow> unat (a + PGSIZE) = unat a + 4096"
  by (simp add: word_less_nat_alt unat_word_ariths)

text \<open>
  \<^verbatim>\<open>mappages\<close> runs until \<^verbatim>\<open>a == last\<close>; that it ends follows from the panic of \<^verbatim>\<open>walk\<close> at \<^verbatim>\<open>MAXVA\<close>.
\<close>

function mappages_loop ::
  "u64 \<Rightarrow> u64 \<Rightarrow> u64 \<Rightarrow> u64 \<Rightarrow> u64 \<Rightarrow> 'a machine_scheme \<Rightarrow> (cint \<times> 'a machine_scheme) option" where
  "mappages_loop pgtbl a last_va pa perm s =
     do {
       (pte, s) \<leftarrow> walk pgtbl a True s;
       if pte = 0 then Some (- 1, s)
       else if read64 (mem s) pte AND PTE_V \<noteq> 0 then panic ''mappages: remap''
       else
         let s = s\<lparr>mem := write64 (mem s) pte (PA2PTE pa OR perm OR PTE_V)\<rparr>
         in if a = last_va then Some (0, s)
            else mappages_loop pgtbl (a + PGSIZE) last_va (pa + PGSIZE) perm s }"
  by pat_completeness auto
termination
  by (relation "measure (\<lambda>(pt, a, l, pa, perm, s). unat MAXVA - unat a)")
    (auto dest!: walk_SomeD simp: unat_step_below_MAXVA word_less_nat_alt)

declare mappages_loop.simps [simp del]

definition mappages ::
  "u64 \<Rightarrow> u64 \<Rightarrow> u64 \<Rightarrow> u64 \<Rightarrow> u64 \<Rightarrow> 'a machine_scheme \<Rightarrow> (cint \<times> 'a machine_scheme) option" where
  "mappages pgtbl va nbytes pa perm s =
     (if va mod PGSIZE \<noteq> 0 then panic ''mappages: va not aligned''
      else if nbytes mod PGSIZE \<noteq> 0 then panic ''mappages: size not aligned''
      else if nbytes = 0 then panic ''mappages: size''
      else mappages_loop pgtbl va (va + nbytes - PGSIZE) pa perm s)"

subsection \<open>User page tables\<close>

definition uvmcreate :: "'a machine_scheme \<Rightarrow> u64 \<times> 'a machine_scheme" where
  "uvmcreate s =
     (let (pgtbl, s1) = kalloc s
      in if pgtbl = 0 then (0, s1)
         else (pgtbl, s1\<lparr>mem := memset (mem s1) pgtbl 0 4096\<rparr>))"

function uvmunmap_loop ::
  "u64 \<Rightarrow> u64 \<Rightarrow> u64 \<Rightarrow> bool \<Rightarrow> 'a machine_scheme \<Rightarrow> 'a machine_scheme option" where
  "uvmunmap_loop pgtbl a end_va do_free s =
     (if a < end_va then
        do {
          (pte, s) \<leftarrow> walk pgtbl a False s;
          let e = read64 (mem s) pte;
          s \<leftarrow> (if pte = 0 \<or> e AND PTE_V = 0 then Some s
                else do {
                  s \<leftarrow> (if do_free then kfree (PTE2PA e) s else Some s);
                  Some (s\<lparr>mem := write64 (mem s) pte 0\<rparr>) });
          uvmunmap_loop pgtbl (a + PGSIZE) end_va do_free s }
      else Some s)"
  by pat_completeness auto
termination
  by (relation "measure (\<lambda>(pt, a, l, d, s). unat MAXVA - unat a)")
    (auto dest!: walk_SomeD simp: unat_step_below_MAXVA word_less_nat_alt)

declare uvmunmap_loop.simps [simp del]

definition uvmunmap ::
  "u64 \<Rightarrow> u64 \<Rightarrow> u64 \<Rightarrow> bool \<Rightarrow> 'a machine_scheme \<Rightarrow> 'a machine_scheme option" where
  "uvmunmap pgtbl va npages do_free s =
     (if va mod PGSIZE \<noteq> 0 then panic ''uvmunmap: not aligned''
      else uvmunmap_loop pgtbl va (va + npages * PGSIZE) do_free s)"

text \<open>\<^verbatim>\<open>npages\<close> of \<^verbatim>\<open>uvmdealloc\<close> is an \<^verbatim>\<open>int\<close>, converted back to 64 bits in the call.\<close>

definition uvmdealloc ::
  "u64 \<Rightarrow> u64 \<Rightarrow> u64 \<Rightarrow> 'a machine_scheme \<Rightarrow> (u64 \<times> 'a machine_scheme) option" where
  "uvmdealloc pgtbl oldsz newsz s =
     (if newsz \<ge> oldsz then Some (oldsz, s)
      else do {
        s \<leftarrow> (if PGROUNDUP newsz < PGROUNDUP oldsz then
                let npages = (ucast ((PGROUNDUP oldsz - PGROUNDUP newsz) div PGSIZE) :: cint)
                in uvmunmap pgtbl (PGROUNDUP newsz) (scast npages) True s
              else Some s);
        Some (newsz, s) })"

function uvmalloc_loop ::
  "u64 \<Rightarrow> u64 \<Rightarrow> u64 \<Rightarrow> u64 \<Rightarrow> u64 \<Rightarrow> 'a machine_scheme \<Rightarrow> (u64 \<times> 'a machine_scheme) option" where
  "uvmalloc_loop pgtbl a oldsz newsz xperm s =
     (if a < newsz then
        let (pa, s) = kalloc s in
        if pa = 0 then do { (_, s) \<leftarrow> uvmdealloc pgtbl a oldsz s; Some (0, s) }
        else do {
          let s = s\<lparr>mem := memset (mem s) pa 0 4096\<rparr>;
          (r, s) \<leftarrow> mappages pgtbl a PGSIZE pa (PTE_R OR PTE_U OR xperm) s;
          if r \<noteq> 0 then do {
            s \<leftarrow> kfree pa s;
            (_, s) \<leftarrow> uvmdealloc pgtbl a oldsz s;
            Some (0, s) }
          else uvmalloc_loop pgtbl (a + PGSIZE) oldsz newsz xperm s }
      else Some (newsz, s))"
  by pat_completeness auto

lemma mappages_below_MAXVA: "mappages pt a nbytes pa perm s = Some r \<Longrightarrow> a < MAXVA"
  by (auto simp: mappages_def mappages_loop.simps [of pt a] bind_Some_iff
      dest: walk_SomeD split: if_splits)

termination uvmalloc_loop
  by (relation "measure (\<lambda>(pt, a, l, n, x, s). unat MAXVA - unat a)")
    (auto dest!: mappages_below_MAXVA simp: unat_step_below_MAXVA word_less_nat_alt)

declare uvmalloc_loop.simps [simp del]

definition uvmalloc ::
  "u64 \<Rightarrow> u64 \<Rightarrow> u64 \<Rightarrow> u64 \<Rightarrow> 'a machine_scheme \<Rightarrow> (u64 \<times> 'a machine_scheme) option" where
  "uvmalloc pgtbl oldsz newsz xperm s =
     (if newsz < oldsz then Some (oldsz, s)
      else uvmalloc_loop pgtbl (PGROUNDUP oldsz) (PGROUNDUP oldsz) newsz xperm s)"

text \<open>
  \<^verbatim>\<open>freewalk\<close> recurses through the memory without a bound of its own; the argument \<open>level\<close> is the
  number of levels it may descend, 3 for an Sv39 table, so \<open>None\<close> also stands for a deeper chain.
\<close>

fun freewalk :: "nat \<Rightarrow> u64 \<Rightarrow> 'a machine_scheme \<Rightarrow> 'a machine_scheme option" and
  freewalk_entries :: "nat \<Rightarrow> nat \<Rightarrow> u64 \<Rightarrow> 'a machine_scheme \<Rightarrow> 'a machine_scheme option" where
  "freewalk level pgtbl s =
     (case level of 0 \<Rightarrow> None
      | Suc level' \<Rightarrow> do { s \<leftarrow> freewalk_entries level' 512 pgtbl s; kfree pgtbl s })"
| "freewalk_entries level 0 pgtbl s = Some s"
| "freewalk_entries level (Suc k) pgtbl s =
     (let i = 511 - k;
          pte = read64 (mem s) (pgtbl + 8 * of_nat i)
      in if pte AND PTE_V \<noteq> 0 \<and> pte AND (PTE_R OR PTE_W OR PTE_X) = 0 then
           do { s \<leftarrow> freewalk level (PTE2PA pte) s;
                freewalk_entries level k pgtbl
                  (s\<lparr>mem := write64 (mem s) (pgtbl + 8 * of_nat i) 0\<rparr>) }
         else if pte AND PTE_V \<noteq> 0 then panic ''freewalk: leaf''
         else freewalk_entries level k pgtbl s)"

definition uvmfree :: "u64 \<Rightarrow> u64 \<Rightarrow> 'a machine_scheme \<Rightarrow> 'a machine_scheme option" where
  "uvmfree pgtbl n s =
     do { s \<leftarrow> (if n > 0 then uvmunmap pgtbl 0 (PGROUNDUP n div PGSIZE) True s else Some s);
          freewalk 3 pgtbl s }"

text \<open>The loop of \<^verbatim>\<open>uvmcopy\<close>; the two \<^verbatim>\<open>goto err\<close> undo the copies made so far.\<close>

function uvmcopy_loop ::
  "u64 \<Rightarrow> u64 \<Rightarrow> u64 \<Rightarrow> u64 \<Rightarrow> 'a machine_scheme \<Rightarrow> (cint \<times> 'a machine_scheme) option" where
  "uvmcopy_loop old new i n s =
     (if i < n then
        do {
          (pte, s) \<leftarrow> walk old i False s;
          let e = read64 (mem s) pte;
          if pte = 0 \<or> e AND PTE_V = 0 then uvmcopy_loop old new (i + PGSIZE) n s
          else
            let (pa, s) = kalloc s in
            if pa = 0 then do { s \<leftarrow> uvmunmap new 0 (i div PGSIZE) True s; Some (- 1, s) }
            else do {
              let s = s\<lparr>mem := memmove (mem s) pa (PTE2PA e) 4096\<rparr>;
              (r, s) \<leftarrow> mappages new i PGSIZE pa (PTE_FLAGS e) s;
              if r \<noteq> 0 then do {
                s \<leftarrow> kfree pa s;
                s \<leftarrow> uvmunmap new 0 (i div PGSIZE) True s;
                Some (- 1, s) }
              else uvmcopy_loop old new (i + PGSIZE) n s } }
      else Some (0, s))"
  by pat_completeness auto
termination
  by (relation "measure (\<lambda>(old, new, i, n, s). unat MAXVA - unat i)")
    (auto dest!: walk_SomeD simp: unat_step_below_MAXVA word_less_nat_alt)

declare uvmcopy_loop.simps [simp del]

definition uvmcopy ::
  "u64 \<Rightarrow> u64 \<Rightarrow> u64 \<Rightarrow> 'a machine_scheme \<Rightarrow> (cint \<times> 'a machine_scheme) option" where
  "uvmcopy old new n s = uvmcopy_loop old new 0 n s"

definition uvmclear :: "u64 \<Rightarrow> u64 \<Rightarrow> 'a machine_scheme \<Rightarrow> 'a machine_scheme option" where
  "uvmclear pgtbl va s =
     do { (pte, s) \<leftarrow> walk pgtbl va False s;
          if pte = 0 then panic ''uvmclear''
          else Some (s\<lparr>mem := write64 (mem s) pte (read64 (mem s) pte AND NOT PTE_U)\<rparr>) }"

subsection \<open>The kernel page table\<close>

text \<open>The linker symbols \<^verbatim>\<open>etext\<close> and \<^verbatim>\<open>trampoline\<close> are arguments.\<close>

abbreviation UART0 :: u64 where "UART0 \<equiv> 0x10000000"
abbreviation VIRTIO0 :: u64 where "VIRTIO0 \<equiv> 0x10001000"
abbreviation PLIC :: u64 where "PLIC \<equiv> 0x0c000000"

definition kvmmap ::
  "u64 \<Rightarrow> u64 \<Rightarrow> u64 \<Rightarrow> u64 \<Rightarrow> u64 \<Rightarrow> 'a machine_scheme \<Rightarrow> 'a machine_scheme option" where
  "kvmmap kpgtbl va pa n perm s =
     do { (r, s) \<leftarrow> mappages kpgtbl va n pa perm s;
          if r \<noteq> 0 then panic ''kvmmap'' else Some s }"

fun proc_mapstacks :: "u64 \<Rightarrow> nat list \<Rightarrow> 'a machine_scheme \<Rightarrow> 'a machine_scheme option" where
  "proc_mapstacks kpgtbl [] s = Some s"
| "proc_mapstacks kpgtbl (p # ps) s =
     (let (pa, s) = kalloc s in
      if pa = 0 then panic ''kalloc''
      else do { s \<leftarrow> kvmmap kpgtbl (KSTACK p) pa PGSIZE (PTE_R OR PTE_W) s;
                proc_mapstacks kpgtbl ps s })"

definition kvmmake :: "u64 \<Rightarrow> u64 \<Rightarrow> 'a machine_scheme \<Rightarrow> (u64 \<times> 'a machine_scheme) option" where
  "kvmmake etext trampoline s =
     do {
       let (kpgtbl, s) = kalloc s;
       let s = s\<lparr>mem := memset (mem s) kpgtbl 0 4096\<rparr>;
       s \<leftarrow> kvmmap kpgtbl UART0 UART0 PGSIZE (PTE_R OR PTE_W) s;
       s \<leftarrow> kvmmap kpgtbl VIRTIO0 VIRTIO0 PGSIZE (PTE_R OR PTE_W) s;
       s \<leftarrow> kvmmap kpgtbl PLIC PLIC 0x4000000 (PTE_R OR PTE_W) s;
       s \<leftarrow> kvmmap kpgtbl KERNBASE KERNBASE (etext - KERNBASE) (PTE_R OR PTE_X) s;
       s \<leftarrow> kvmmap kpgtbl etext etext (PHYSTOP - etext) (PTE_R OR PTE_W) s;
       s \<leftarrow> kvmmap kpgtbl TRAMPOLINE trampoline PGSIZE (PTE_R OR PTE_X) s;
       s \<leftarrow> proc_mapstacks kpgtbl [0 ..< NPROC] s;
       Some (kpgtbl, s) }"

subsection \<open>Page faults and copying between kernel and user\<close>

definition ismapped :: "u64 \<Rightarrow> u64 \<Rightarrow> 'a machine_scheme \<Rightarrow> bool option" where
  "ismapped pgtbl va s =
     do { (pte, s) \<leftarrow> walk pgtbl va False s;
          if pte = 0 then Some False
          else if read64 (mem s) pte AND PTE_V \<noteq> 0 then Some True
          else Some False }"

text \<open>
  \<^verbatim>\<open>vmfault\<close> allocates a page that \<^verbatim>\<open>sys_sbrk\<close> promised. It checks the table it is given and maps into
  the table of the current process. Without a current process the code would dereference null.
\<close>

definition vmfault :: "u64 \<Rightarrow> u64 \<Rightarrow> 'a kproc_scheme \<Rightarrow> (u64 \<times> 'a kproc_scheme) option" where
  "vmfault pgtbl va s =
     (case myproc s of None \<Rightarrow> panic ''kerneltrap''
      | Some i \<Rightarrow>
        let p = procs s ! i in
        if va \<ge> sz p then Some (0, s)
        else do {
          let va = PGROUNDDOWN va;
          b \<leftarrow> ismapped pgtbl va s;
          if b then Some (0, s)
          else
            let (pa, s) = kalloc s in
            if pa = 0 then Some (0, s)
            else do {
              let s = s\<lparr>mem := memset (mem s) pa 0 4096\<rparr>;
              (r, s) \<leftarrow> mappages (pagetable p) va PGSIZE pa (PTE_W OR PTE_U OR PTE_R) s;
              if r \<noteq> 0 then do { s \<leftarrow> kfree pa s; Some (0, s) }
              else Some (pa, s) } })"

lemma page_offset_lt: "unat (a - PGROUNDDOWN a) < 4096"
proof -
  have "unat (PGROUNDDOWN a) \<le> unat a" by (simp add: unat_PGROUNDDOWN)
  then have "unat (a - PGROUNDDOWN a) = unat a - unat a div 4096 * 4096"
    by (simp add: unat_sub_small unat_PGROUNDDOWN)
  also have "\<dots> < 4096" using mod_less_divisor [of 4096 "unat a"] by (simp add: minus_div_mult_eq_mod)
  finally show ?thesis .
qed

text \<open>The number of bytes of a transfer that lie in the page of \<open>va\<close>.\<close>

definition chunk :: "u64 \<Rightarrow> nat \<Rightarrow> nat" where
  "chunk va len = min (4096 - unat (va - PGROUNDDOWN va)) len"

lemma chunk_pos [simp]: "0 < len \<Longrightarrow> 0 < chunk va len"
  using page_offset_lt [of va] by (simp add: chunk_def)

lemma chunk_le: "chunk va len \<le> len"
  by (simp add: chunk_def)

text \<open>\<open>src\<close> is the kernel buffer of \<^verbatim>\<open>len\<close> bytes; the result is the return code.\<close>

function copyout ::
  "u64 \<Rightarrow> u64 \<Rightarrow> u8 list \<Rightarrow> 'a kproc_scheme \<Rightarrow> (cint \<times> 'a kproc_scheme) option" where
  "copyout pgtbl dstva src s =
     (if src = [] then Some (0, s)
      else
        let va0 = PGROUNDDOWN dstva in
        if va0 \<ge> MAXVA then Some (- 1, s)
        else do {
          pa0 \<leftarrow> walkaddr pgtbl va0 s;
          (pa0, s) \<leftarrow> (if pa0 = 0 then vmfault pgtbl va0 s else Some (pa0, s));
          if pa0 = 0 then Some (- 1, s)
          else do {
            (pte, s) \<leftarrow> walk pgtbl va0 False s;
            if pte = 0 then panic ''kerneltrap''
            else if read64 (mem s) pte AND PTE_W = 0 then Some (- 1, s)
            else
              let n = chunk dstva (length src);
                  s = s\<lparr>mem := write_bytes (mem s) (pa0 + (dstva - va0)) (take n src)\<rparr>
              in copyout pgtbl (va0 + PGSIZE) (drop n src) s } })"
  by pat_completeness auto
termination
  by (relation "measure (\<lambda>(pt, va, src, s). length src)") auto

declare copyout.simps [simp del]

text \<open>\<open>copyin\<close> also returns the bytes stored into the kernel buffer, all \<open>len\<close> of them on success.\<close>

function copyin ::
  "u64 \<Rightarrow> u64 \<Rightarrow> nat \<Rightarrow> 'a kproc_scheme \<Rightarrow> (cint \<times> u8 list \<times> 'a kproc_scheme) option" where
  "copyin pgtbl srcva len s =
     (if len = 0 then Some (0, [], s)
      else do {
        let va0 = PGROUNDDOWN srcva;
        pa0 \<leftarrow> walkaddr pgtbl va0 s;
        (pa0, s) \<leftarrow> (if pa0 = 0 then vmfault pgtbl va0 s else Some (pa0, s));
        if pa0 = 0 then Some (- 1, [], s)
        else do {
          let n = chunk srcva len;
          let bs = read_bytes (mem s) (pa0 + (srcva - va0)) n;
          (r, bs', s) \<leftarrow> copyin pgtbl (va0 + PGSIZE) (len - n) s;
          Some (r, bs @ bs', s) } })"
  by pat_completeness auto
termination
  by (relation "measure (\<lambda>(pt, va, len, s). len)") auto

declare copyin.simps [simp del]

text \<open>
  The inner loop of \<^verbatim>\<open>copyinstr\<close>: the bytes before the NUL, or all of them, and whether it was found.
\<close>

fun scan_nul :: "u8 list \<Rightarrow> u8 list \<times> bool" where
  "scan_nul [] = ([], False)"
| "scan_nul (b # bs) = (if b = 0 then ([], True) else let (xs, f) = scan_nul bs in (b # xs, f))"

text \<open>
  On success the kernel buffer holds the string returned, followed by a NUL. Unlike \<^verbatim>\<open>copyin\<close> the
  code does not call \<^verbatim>\<open>vmfault\<close>.
\<close>

function copyinstr :: "u64 \<Rightarrow> u64 \<Rightarrow> nat \<Rightarrow> 'a machine_scheme \<Rightarrow> (cint \<times> u8 list) option" where
  "copyinstr pgtbl srcva mx s =
     (if mx = 0 then Some (- 1, [])
      else do {
        let va0 = PGROUNDDOWN srcva;
        pa0 \<leftarrow> walkaddr pgtbl va0 s;
        if pa0 = 0 then Some (- 1, [])
        else do {
          let n = chunk srcva mx;
          let (xs, got_null) = scan_nul (read_bytes (mem s) (pa0 + (srcva - va0)) n);
          if got_null then Some (0, xs)
          else do {
            (r, ys) \<leftarrow> copyinstr pgtbl (va0 + PGSIZE) (mx - n) s;
            Some (r, xs @ ys) } } })"
  by pat_completeness auto
termination
  by (relation "measure (\<lambda>(pt, va, mx, s). mx)") auto

declare copyinstr.simps [simp del]

end
