(* ===== verification/Vm_Inv.thy ===== *)
theory Vm_Inv
  imports Vm
begin

section \<open>The page table invariant\<close>

text \<open>
  What a page table in memory means. A ghost map \<open>nd\<close> gives the table page at each path of
  indices; it makes the three-level tree explicit, so that the pages of the tree are distinct and
  separate from the free list. The leaf entry of an address is a function of the tree, and
  \<^verbatim>\<open>walk\<close>, \<^verbatim>\<open>mappages\<close> and the copy functions are described by what they do to it.
\<close>

subsection \<open>Bit-level facts\<close>

lemma page_bits: "(p :: u64) mod PGSIZE = 0 \<longleftrightarrow> take_bit 12 p = 0"
  by (simp add: take_bit_eq_mod)

lemma page_lt_bits:
  assumes "p < PHYSTOP" "bit p n"
  shows "n < 32"
proof (rule ccontr)
  assume "\<not> n < 32"
  have "unat p < 2 ^ 32" using assms(1) by (simp add: word_less_nat_alt)
  then have "take_bit 32 p = p" by (simp add: take_bit_eq_mod word_unat_eq_iff unat_mod)
  then have "bit (take_bit 32 p) n" using assms(2) by simp
  with \<open>\<not> n < 32\<close> show False by (simp add: bit_take_bit_iff)
qed

text \<open>An entry built from a physical page and flags gives the page back.\<close>

lemma PTE2PA_entry:
  assumes "page_ok e pa" "take_bit 10 fl = fl"
  shows "PTE2PA (PA2PTE pa OR fl) = pa"
proof (rule bit_word_eqI)
  fix n assume "n < LENGTH(64)"
  have low: "\<not> bit pa n" if "n < 12"
  proof -
    have "take_bit 12 pa = 0" using assms(1) by (simp only: page_ok_def page_bits)
    then show ?thesis using that by (metis bit_take_bit_iff bit_0_eq bot_apply bot_bool_def)
  qed
  have fl: "\<not> bit fl k" if "10 \<le> k" for k
    using that assms(2) by (metis bit_take_bit_iff not_less)
  have high: "n < 32" if "bit pa n" using page_lt_bits [of pa n] that assms(1) by (simp add: page_ok_def)
  show "bit (PTE2PA (PA2PTE pa OR fl)) n = bit pa n"
  proof (cases "n < 12")
    case True
    with low show ?thesis by (simp add: PTE2PA_def bit_simps)
  next
    case False
    then obtain k where "n = 12 + k" using le_Suc_ex [of 12 n] by auto
    with fl [of "10 + k"] high \<open>n < LENGTH(64)\<close> show ?thesis
      by (auto simp: PTE2PA_def PA2PTE_def bit_simps)
  qed
qed

lemma entry_flag:
  assumes "n < 10"
  shows "bit (PA2PTE pa OR fl) n = bit fl n"
  using assms by (auto simp: PA2PTE_def bit_simps)

lemma and_flag_iff:
  "(w :: u64) AND 1 \<noteq> 0 \<longleftrightarrow> bit w 0" "w AND 4 \<noteq> 0 \<longleftrightarrow> bit w 2" "w AND 16 \<noteq> 0 \<longleftrightarrow> bit w 4"
proof -
  have one: "w AND push_bit n 1 \<noteq> 0 \<longleftrightarrow> bit w n" if "n < 64" for n
  proof -
    have "w AND push_bit n 1 = (if bit w n then push_bit n 1 else 0)"
      using that by (intro bit_eqI) (auto simp: bit_simps)
    then show ?thesis using that by (simp add: push_bit_eq_mult)
  qed
  show "w AND 1 \<noteq> 0 \<longleftrightarrow> bit w 0" "w AND 4 \<noteq> 0 \<longleftrightarrow> bit w 2" "w AND 16 \<noteq> 0 \<longleftrightarrow> bit w 4"
    using one [of 0] one [of 2] one [of 4] by simp_all
qed

lemma flag_clear_iff:
  "(w :: u64) AND 1 = 0 \<longleftrightarrow> \<not> bit w 0" "w AND 4 = 0 \<longleftrightarrow> \<not> bit w 2" "w AND 16 = 0 \<longleftrightarrow> \<not> bit w 4"
  using and_flag_iff [of w] by blast+

text \<open>The indices of an address into the three levels, and the slots of a table.\<close>

definition pxi :: "nat \<Rightarrow> u64 \<Rightarrow> nat" where
  "pxi level va = unat (PX level va)"

definition slot :: "u64 \<Rightarrow> nat \<Rightarrow> u64" where
  "slot p i = p + 8 * of_nat i"

lemma PX_alt: "PX level va = take_bit 9 (drop_bit (12 + 9 * level) va)"
proof -
  have "(0x1FF :: u64) = mask 9" by (simp add: mask_eq_exp_minus_1)
  then show ?thesis by (simp add: PX_def take_bit_eq_mask)
qed

lemma pxi_lt: "pxi level va < 512"
proof -
  have "pxi level va = unat (drop_bit (12 + 9 * level) va) mod 512"
    by (simp add: pxi_def PX_alt take_bit_eq_mod unat_mod)
  then show ?thesis by simp
qed

lemma slot_pxi: "pt + 8 * PX level va = slot pt (pxi level va)"
  by (simp add: slot_def pxi_def)

lemma unat_slot:
  assumes "p mod PGSIZE = 0" "i < 512"
  shows "unat (slot p i) = unat p + 8 * i"
proof -
  have "slot p i = p + of_nat (8 * i)" by (simp add: slot_def)
  then show ?thesis using unat_page_offset [OF assms(1), of "8 * i"] assms(2) by simp
qed

lemma slot_offset:
  assumes "j < 8"
  shows "slot p i + of_nat j = p + of_nat (8 * i + j)"
  by (simp add: slot_def)

text \<open>Distinct slots do not overlap, and a slot lies in its page.\<close>

lemma slots_disjoint:
  assumes "p mod PGSIZE = 0" "q mod PGSIZE = 0" "i < 512" "j < 512" "p \<noteq> q \<or> i \<noteq> j" "k < 8"
  shows "\<not> in_range (slot q j + of_nat k) (slot p i) 8"
proof
  assume "in_range (slot q j + of_nat k) (slot p i) 8"
  then obtain n where n: "n < 8" "slot q j + of_nat k = slot p i + of_nat n" by (rule in_rangeE)
  then have eq: "q + of_nat (8 * j + k) = p + of_nat (8 * i + n)"
    using assms(6) by (simp only: slot_offset)
  have lt: "8 * j + k < 4096" "8 * i + n < 4096" using assms(3,4,6) n(1) by simp_all
  have "p = q"
    using eq PGROUNDDOWN_page_offset [OF assms(2) lt(1)] PGROUNDDOWN_page_offset [OF assms(1) lt(2)]
    by simp
  moreover note unat_page_offset [OF assms(2) lt(1)] unat_page_offset [OF assms(1) lt(2)]
  ultimately have "8 * j + k = 8 * i + n" using eq by simp
  then have "i = j" using n(1) assms(6) by arith
  with \<open>p = q\<close> assms(5) show False by simp
qed

lemma slot_in_page:
  assumes "i < 512" "in_range x (slot p i) 8"
  shows "in_range x p 4096"
proof -
  obtain k where k: "k < 8" "x = slot p i + of_nat k" using assms(2) by (rule in_rangeE)
  then have "x = p + of_nat (8 * i + k)" by (simp only: slot_offset)
  then show ?thesis using k(1) assms(1) by (simp only:) (intro in_range_offset; simp)
qed

lemma read64_write64_slot:
  assumes "p mod PGSIZE = 0" "q mod PGSIZE = 0" "i < 512" "j < 512"
  shows "read64 (write64 m (slot p i) w) (slot q j) =
    (if p = q \<and> i = j then w else read64 m (slot q j))"
proof (cases "p = q \<and> i = j")
  case False
  then have "read64 (write64 m (slot p i) w) (slot q j) = read64 m (slot q j)"
    using assms by (intro read64_cong) (simp add: write64_other slots_disjoint)
  with False show ?thesis by auto
qed simp

lemma read64_slot_cong:
  assumes "i < 512" "\<And>k. k < 4096 \<Longrightarrow> m' (p + of_nat k) = m (p + of_nat k)"
  shows "read64 m' (slot p i) = read64 m (slot p i)"
proof (rule read64_cong)
  fix k :: nat assume "k < 8"
  then show "m' (slot p i + of_nat k) = m (slot p i + of_nat k)"
    unfolding slot_offset [OF \<open>k < 8\<close>] using assms(1) by (intro assms(2)) simp
qed

lemma read64_zero: "(\<And>k. k < 8 \<Longrightarrow> m (a + of_nat k) = 0) \<Longrightarrow> read64 m a = 0"
proof -
  assume "\<And>k. k < 8 \<Longrightarrow> m (a + of_nat k) = 0"
  then have "read64 m a = read64 (\<lambda>_. 0) a" by (intro read64_cong) simp
  also have "\<dots> = 0" by (simp add: read64_def read_bytes_def upt_rec)
  finally show ?thesis .
qed

lemma read64_zero_page:
  assumes "i < 512" "\<And>k. k < 4096 \<Longrightarrow> m (p + of_nat k) = 0"
  shows "read64 m (slot p i) = 0"
proof (rule read64_zero)
  fix k :: nat assume "k < 8"
  then show "m (slot p i + of_nat k) = 0"
    unfolding slot_offset [OF \<open>k < 8\<close>] using assms(1) by (intro assms(2)) simp
qed

subsection \<open>The tree of table pages\<close>

type_synonym nodes = "nat list \<Rightarrow> u64 option"

definition pt_wf :: "u64 \<Rightarrow> memory \<Rightarrow> nodes \<Rightarrow> u64 \<Rightarrow> bool" where
  "pt_wf e m nd r \<longleftrightarrow>
     nd [] = Some r \<and>
     (\<forall>xs p. nd xs = Some p \<longrightarrow> page_ok e p \<and> length xs \<le> 2) \<and>
     (\<forall>xs ys p. nd xs = Some p \<longrightarrow> nd ys = Some p \<longrightarrow> xs = ys) \<and>
     (\<forall>xs i. nd (xs @ [i]) \<noteq> None \<longrightarrow> nd xs \<noteq> None) \<and>
     (\<forall>xs i p. nd xs = Some p \<longrightarrow> length xs < 2 \<longrightarrow> i < 512 \<longrightarrow>
        (case nd (xs @ [i]) of
           None \<Rightarrow> read64 m (slot p i) AND PTE_V = 0
         | Some q \<Rightarrow> read64 m (slot p i) AND PTE_V \<noteq> 0 \<and> PTE2PA (read64 m (slot p i)) = q))"

lemma pt_wf_page: "pt_wf e m nd r \<Longrightarrow> nd xs = Some p \<Longrightarrow> page_ok e p"
  unfolding pt_wf_def by blast

lemma pt_wf_aligned: "pt_wf e m nd r \<Longrightarrow> nd xs = Some p \<Longrightarrow> p mod PGSIZE = 0"
  using pt_wf_page unfolding page_ok_def by blast

lemma pt_wf_inj: "pt_wf e m nd r \<Longrightarrow> nd xs = Some p \<Longrightarrow> nd ys = Some p \<Longrightarrow> xs = ys"
  unfolding pt_wf_def by blast

lemma pt_wf_root: "pt_wf e m nd r \<Longrightarrow> nd [] = Some r"
  unfolding pt_wf_def by blast

lemma pt_wf_prefix: "pt_wf e m nd r \<Longrightarrow> nd (xs @ [i]) \<noteq> None \<Longrightarrow> nd xs \<noteq> None"
  unfolding pt_wf_def by blast

lemma pt_wf_entry:
  "pt_wf e m nd r \<Longrightarrow> nd xs = Some p \<Longrightarrow> length xs < 2 \<Longrightarrow> i < 512 \<Longrightarrow>
   (case nd (xs @ [i]) of
      None \<Rightarrow> read64 m (slot p i) AND PTE_V = 0
    | Some q \<Rightarrow> read64 m (slot p i) AND PTE_V \<noteq> 0 \<and> PTE2PA (read64 m (slot p i)) = q)"
  unfolding pt_wf_def by blast

lemma pt_wf_entry_None:
  "pt_wf e m nd r \<Longrightarrow> nd xs = Some p \<Longrightarrow> length xs < 2 \<Longrightarrow> i < 512 \<Longrightarrow> nd (xs @ [i]) = None \<Longrightarrow>
   read64 m (slot p i) AND PTE_V = 0"
  using pt_wf_entry [of e m nd r xs p i] by simp

lemma pt_wf_entry_Some:
  "pt_wf e m nd r \<Longrightarrow> nd xs = Some p \<Longrightarrow> length xs < 2 \<Longrightarrow> i < 512 \<Longrightarrow> nd (xs @ [i]) = Some q \<Longrightarrow>
   read64 m (slot p i) AND PTE_V \<noteq> 0 \<and> PTE2PA (read64 m (slot p i)) = q"
  using pt_wf_entry [of e m nd r xs p i] by simp

lemma pt_wf_cong:
  assumes wf: "pt_wf e m nd r"
    and keep: "\<And>xs p i. nd xs = Some p \<Longrightarrow> length xs < 2 \<Longrightarrow> i < 512 \<Longrightarrow>
      read64 m' (slot p i) = read64 m (slot p i)"
  shows "pt_wf e m' nd r"
proof -
  have "case nd (xs @ [i]) of
      None \<Rightarrow> read64 m' (slot p i) AND PTE_V = 0
    | Some q \<Rightarrow> read64 m' (slot p i) AND PTE_V \<noteq> 0 \<and> PTE2PA (read64 m' (slot p i)) = q"
    if p: "nd xs = Some p" "length xs < 2" "i < 512" for xs i p
    unfolding keep [OF p] by (rule pt_wf_entry [OF wf p])
  then show ?thesis using wf unfolding pt_wf_def by blast
qed

text \<open>The path of an address below a level, and its leaf entry, 0 where there is no table.\<close>

fun path :: "nat \<Rightarrow> u64 \<Rightarrow> nat list" where
  "path 0 va = []"
| "path (Suc level) va = pxi (Suc level) va # path level va"

lemma length_path [simp]: "length (path l va) = l"
  by (induction l) auto

definition leaf :: "memory \<Rightarrow> nodes \<Rightarrow> u64 \<Rightarrow> u64" where
  "leaf m nd va = (case nd (path 2 va) of None \<Rightarrow> 0 | Some q \<Rightarrow> read64 m (slot q (pxi 0 va)))"

definition vm_inv :: "u64 \<Rightarrow> 'a machine_scheme \<Rightarrow> u64 list \<Rightarrow> nodes \<Rightarrow> u64 \<Rightarrow> bool" where
  "vm_inv e s fl nd r \<longleftrightarrow> kalloc_inv e s fl \<and> pt_wf e (mem s) nd r \<and> ran nd \<inter> set fl = {}"

text \<open>Without allocation \<^verbatim>\<open>walk\<close> follows the tree and changes nothing.\<close>

lemma nd_none_extend:
  assumes "pt_wf e m nd r" "nd xs = None"
  shows "nd (xs @ ys) = None"
  using assms(2)
proof (induction ys rule: rev_induct)
  case (snoc y ys)
  then show ?case
    using pt_wf_prefix [OF assms(1), of "xs @ ys" y] by (cases "nd (xs @ ys @ [y])") auto
qed simp

lemma walk_level_lookup:
  assumes "pt_wf e (mem s) nd r" "nd xs = Some pt" "length xs + level = 2"
  shows "walk_level level pt va False s =
    (case nd (xs @ path level va) of None \<Rightarrow> 0 | Some q \<Rightarrow> slot q (pxi 0 va), s)"
  using assms(2,3)
proof (induction level arbitrary: xs pt)
  case 0
  then show ?case by (simp add: slot_pxi)
next
  case (Suc level)
  let ?i = "pxi (Suc level) va"
  have len: "length xs < 2" using Suc.prems by simp
  show ?case
  proof (cases "nd (xs @ [?i])")
    case None
    then have "nd ((xs @ [?i]) @ path level va) = None" by (rule nd_none_extend [OF assms(1)])
    then show ?thesis
      using pt_wf_entry_None [OF assms(1) Suc.prems(1) len pxi_lt None]
      by (simp add: slot_pxi)
  next
    case (Some q)
    then show ?thesis
      using pt_wf_entry_Some [OF assms(1) Suc.prems(1) len pxi_lt Some] Suc.IH [OF Some] Suc.prems(2)
      by (simp add: slot_pxi)
  qed
qed

lemma walk_lookup:
  assumes "pt_wf e (mem s) nd r" "va < MAXVA"
  shows "walk r va False s =
    Some (case nd (path 2 va) of None \<Rightarrow> 0 | Some q \<Rightarrow> slot q (pxi 0 va), s)"
  using walk_level_lookup [OF assms(1) pt_wf_root [OF assms(1)], of 2 va] assms(2)
  by (simp add: walk_def)

subsection \<open>Growing the tree\<close>

text \<open>Two memories agree on every page outside a set of pages.\<close>

definition same_outside :: "u64 set \<Rightarrow> memory \<Rightarrow> memory \<Rightarrow> bool" where
  "same_outside P m m' \<longleftrightarrow>
     (\<forall>p k. p mod PGSIZE = 0 \<longrightarrow> p \<notin> P \<longrightarrow> k < 4096 \<longrightarrow> m' (p + of_nat k) = m (p + of_nat k))"

lemma same_outside_refl [simp]: "same_outside P m m"
  by (simp add: same_outside_def)

lemma same_outsideD:
  "same_outside P m m' \<Longrightarrow> p mod PGSIZE = 0 \<Longrightarrow> p \<notin> P \<Longrightarrow> k < 4096 \<Longrightarrow>
   m' (p + of_nat k) = m (p + of_nat k)"
  unfolding same_outside_def by metis

lemma same_outside_trans:
  "same_outside P m m' \<Longrightarrow> same_outside Q m' m'' \<Longrightarrow> P \<subseteq> R \<Longrightarrow> Q \<subseteq> R \<Longrightarrow> same_outside R m m''"
  unfolding same_outside_def by (metis subsetD)

lemma same_outside_read64:
  assumes "same_outside P m m'" "p mod PGSIZE = 0" "p \<notin> P" "i < 512"
  shows "read64 m' (slot p i) = read64 m (slot p i)"
  using assms by (intro read64_slot_cong same_outsideD)

lemma same_outside_change:
  assumes "p mod PGSIZE = 0" "\<And>x. \<not> in_range x p 4096 \<Longrightarrow> m' x = m x"
  shows "same_outside {p} m m'"
  unfolding same_outside_def
proof (intro allI impI)
  fix q and k :: nat
  assume q: "q mod PGSIZE = 0" "q \<notin> {p}" "k < 4096"
  then have "\<not> in_range (q + of_nat k) p 4096" using assms(1) by (intro pages_disjoint) auto
  then show "m' (q + of_nat k) = m (q + of_nat k)" by (rule assms(2))
qed

lemma same_outside_memset: "p mod PGSIZE = 0 \<Longrightarrow> same_outside {p} m (memset m p c 4096)"
  by (rule same_outside_change) (auto simp: memset_page)

lemma same_outside_slot:
  assumes "p mod PGSIZE = 0" "i < 512"
  shows "same_outside {p} m (write64 m (slot p i) w)"
  using assms by (intro same_outside_change) (auto intro!: write64_other dest: slot_in_page)

lemma kalloc_inv_same_outside:
  assumes "kalloc_inv e s fl" "same_outside P (mem s) m" "set fl \<inter> P = {}"
  shows "kalloc_inv e (s\<lparr>mem := m\<rparr>) fl"
proof -
  have "flist m (freelist s) fl = flist (mem s) (freelist s) fl"
  proof (rule flist_cong)
    fix p and i :: nat assume p: "p \<in> set fl" and "i < 8"
    then have "p mod PGSIZE = 0" using assms(1) unfolding kalloc_inv_def page_ok_def by blast
    moreover have "p \<notin> P" using p assms(3) by auto
    ultimately show "m (p + of_nat i) = mem s (p + of_nat i)"
      using same_outsideD [OF assms(2)] \<open>i < 8\<close> by simp
  qed
  with assms(1) show ?thesis by (simp add: kalloc_inv_def)
qed

text \<open>
  A step that may add table pages taken from the free list but keeps every leaf entry, every
  other page and the rest of the state.
\<close>

definition vm_ext ::
  "u64 \<Rightarrow> u64 \<Rightarrow> 'a machine_scheme \<Rightarrow> u64 list \<Rightarrow> nodes \<Rightarrow> 'a machine_scheme \<Rightarrow> u64 list \<Rightarrow> nodes \<Rightarrow> bool" where
  "vm_ext e r s fl nd s' fl' nd' \<longleftrightarrow>
     vm_inv e s' fl' nd' r \<and> nd \<subseteq>\<^sub>m nd' \<and> set fl' \<union> ran nd' = set fl \<union> ran nd \<and>
     same_outside (set fl \<union> ran nd) (mem s) (mem s') \<and>
     (\<forall>va. leaf (mem s') nd' va = leaf (mem s) nd va) \<and>
     machine.more s' = machine.more s"

lemma vm_ext_refl: "vm_inv e s fl nd r \<Longrightarrow> vm_ext e r s fl nd s fl nd"
  by (simp add: vm_ext_def)

lemma vm_ext_trans:
  assumes "vm_ext e r s fl nd s1 fl1 nd1" "vm_ext e r s1 fl1 nd1 s2 fl2 nd2"
  shows "vm_ext e r s fl nd s2 fl2 nd2"
  using assms same_outside_trans [of _ "mem s" "mem s1" _ "mem s2"] map_le_trans [of nd nd1 nd2]
  unfolding vm_ext_def by auto

text \<open>Installing a fresh zeroed table page below an existing one.\<close>

lemma new_table_wf:
  assumes wf: "pt_wf e m nd r" and pt: "nd xs = Some pt" "length xs < 2" "i < 512" "nd (xs @ [i]) = None"
    and f: "page_ok e f" "f \<notin> ran nd"
    and zero: "\<And>k. k < 4096 \<Longrightarrow> m' (f + of_nat k) = 0" and out: "same_outside {f} m m'"
  shows "pt_wf e (write64 m' (slot pt i) (PA2PTE f OR PTE_V)) (nd(xs @ [i] \<mapsto> f)) r"
proof -
  let ?m = "write64 m' (slot pt i) (PA2PTE f OR PTE_V)" and ?nd = "nd(xs @ [i] \<mapsto> f)"
  have al: "f mod PGSIZE = 0" using f(1) unfolding page_ok_def by blast
  have ne: "nd ys \<noteq> Some f" for ys using f(2) by (auto simp: ran_def)
  have keep: "read64 m' (slot p j) = read64 m (slot p j)" if "nd ys = Some p" "j < 512" for ys p j
    using same_outside_read64 [OF out pt_wf_aligned [OF wf that(1)] _ that(2)] ne [of ys] that(1) by auto
  have entry: "case ?nd (ys @ [j]) of
      None \<Rightarrow> read64 ?m (slot p j) AND PTE_V = 0
    | Some q \<Rightarrow> read64 ?m (slot p j) AND PTE_V \<noteq> 0 \<and> PTE2PA (read64 ?m (slot p j)) = q"
    if p: "?nd ys = Some p" "length ys < 2" "j < 512" for ys j p
  proof (cases "ys = xs @ [i]")
    case True
    then have "p = f" using p(1) by simp
    have "nd (ys @ [j]) = None"
      using True pt(4) nd_none_extend [OF wf, of ys "[j]"] by simp
    moreover have "read64 m' (slot f j) = 0" by (rule read64_zero_page [OF p(3)]) (rule zero)
    then have "read64 ?m (slot f j) = 0"
      using read64_write64_slot [OF pt_wf_aligned [OF wf pt(1)] al pt(3) p(3)] ne [of xs] pt(1)
      by auto
    ultimately show ?thesis using True \<open>p = f\<close> by simp
  next
    case False
    then have p': "nd ys = Some p" using p(1) by simp
    have rd: "read64 ?m (slot p j) =
        (if pt = p \<and> i = j then PA2PTE f OR PTE_V else read64 m (slot p j))"
      using read64_write64_slot [OF pt_wf_aligned [OF wf pt(1)] pt_wf_aligned [OF wf p'] pt(3) p(3)]
        keep [OF p' p(3)] by simp
    show ?thesis
    proof (cases "pt = p \<and> i = j")
      case True
      then have "ys = xs" using pt_wf_inj [OF wf p'] pt(1) by blast
      moreover have "PTE2PA (PA2PTE f OR PTE_V) = f" by (rule PTE2PA_entry [OF f(1)]) simp
      moreover have "(PA2PTE f OR PTE_V) AND PTE_V \<noteq> 0"
        by (simp add: and_flag_iff bit_or_iff)
      ultimately show ?thesis using rd True by simp
    next
      case no: False
      then have "ys @ [j] \<noteq> xs @ [i]" using pt(1) p' by auto
      then have nd: "?nd (ys @ [j]) = nd (ys @ [j])" by auto
      have rd': "read64 ?m (slot p j) = read64 m (slot p j)" using rd no by simp
      show ?thesis unfolding nd rd' by (rule pt_wf_entry [OF wf p' p(2,3)])
    qed
  qed
  have pref: "?nd ys \<noteq> None" if "?nd (ys @ [j]) \<noteq> None" for ys j
    using that pt(1) pt_wf_prefix [OF wf, of ys j] by (auto split: if_splits)
  have inj: "ys = zs" if "?nd ys = Some p" "?nd zs = Some p" for ys zs p
    using that ne pt_wf_inj [OF wf] by (auto split: if_splits)
  have page: "page_ok e p \<and> length ys \<le> 2" if "?nd ys = Some p" for ys p
    using that f(1) pt(2) wf by (auto simp: pt_wf_def split: if_splits)
  have "?nd [] = Some r" using pt_wf_root [OF wf] by simp
  then show ?thesis unfolding pt_wf_def using page inj pref entry by blast
qed

lemma leaf_cong:
  assumes "pt_wf e m nd r" "same_outside P m m'" "ran nd \<inter> P = {}"
  shows "leaf m' nd va = leaf m nd va"
proof (cases "nd (path 2 va)")
  case (Some q)
  then have "q \<notin> P" using assms(3) by (auto simp: ran_def)
  then show ?thesis
    using same_outside_read64 [OF assms(2) pt_wf_aligned [OF assms(1) Some] _ pxi_lt] Some
    by (simp add: leaf_def)
qed (simp add: leaf_def)

lemma new_table_leaf:
  assumes wf: "pt_wf e m nd r" and pt: "nd xs = Some pt" "length xs < 2" "i < 512" "nd (xs @ [i]) = None"
    and f: "page_ok e f" "f \<notin> ran nd"
    and zero: "\<And>k. k < 4096 \<Longrightarrow> m' (f + of_nat k) = 0" and out: "same_outside {f} m m'"
  shows "leaf (write64 m' (slot pt i) (PA2PTE f OR PTE_V)) (nd(xs @ [i] \<mapsto> f)) va = leaf m nd va"
proof -
  let ?m = "write64 m' (slot pt i) (PA2PTE f OR PTE_V)" and ?nd = "nd(xs @ [i] \<mapsto> f)"
  have al: "f mod PGSIZE = 0" using f(1) unfolding page_ok_def by blast
  have ptf: "pt \<noteq> f" using f(2) pt(1) by (auto simp: ran_def)
  note pal = pt_wf_aligned [OF wf pt(1)]
  show ?thesis
  proof (cases "path 2 va = xs @ [i]")
    case True
    have "read64 m' (slot f (pxi 0 va)) = 0" by (rule read64_zero_page [OF pxi_lt]) (rule zero)
    then have "read64 ?m (slot f (pxi 0 va)) = 0"
      using read64_write64_slot [OF pal al pt(3) pxi_lt] ptf by simp
    with True pt(4) show ?thesis by (simp add: leaf_def)
  next
    case False
    then have same: "?nd (path 2 va) = nd (path 2 va)" by simp
    show ?thesis
    proof (cases "nd (path 2 va)")
      case (Some q)
      have "q \<noteq> pt" using pt_wf_inj [OF wf pt(1)] Some pt(2) length_path [of 2 va] by fastforce
      moreover have "q \<noteq> f" using f(2) Some by (auto simp: ran_def)
      moreover note qal = pt_wf_aligned [OF wf Some]
      ultimately have "read64 ?m (slot q (pxi 0 va)) = read64 m (slot q (pxi 0 va))"
        using read64_write64_slot [OF pal qal pt(3) pxi_lt]
          same_outside_read64 [OF out qal _ pxi_lt] by auto
      with same Some show ?thesis by (simp add: leaf_def)
    qed (use same in \<open>simp add: leaf_def\<close>)
  qed
qed

text \<open>One allocation of \<^verbatim>\<open>walk\<close>: the page from \<^verbatim>\<open>kalloc\<close>, zeroed and linked in.\<close>

lemma new_table_ext:
  assumes inv: "vm_inv e s (f # fl) nd r"
    and pt: "nd xs = Some pt" "length xs < 2" "i < 512" "nd (xs @ [i]) = None"
    and s1: "kalloc s = (f, s1)"
  shows "vm_ext e r s (f # fl) nd
    (s1\<lparr>mem := write64 (memset (mem s1) f 0 4096) (slot pt i) (PA2PTE f OR PTE_V)\<rparr>)
    fl (nd(xs @ [i] \<mapsto> f))"
proof -
  let ?m = "memset (mem s1) f 0 4096" and ?nd = "nd(xs @ [i] \<mapsto> f)"
  let ?m' = "write64 ?m (slot pt i) (PA2PTE f OR PTE_V)"
  have wf: "pt_wf e (mem s) nd r" and ka: "kalloc_inv e s (f # fl)" and dis: "ran nd \<inter> set (f # fl) = {}"
    using inv by (auto simp: vm_inv_def)
  have f: "page_ok e f" "f \<notin> ran nd" "f \<notin> set fl" "f \<noteq> 0"
    using ka dis page_ok_nonzero [of e f] by (auto simp: kalloc_inv_def)
  have al: "f mod PGSIZE = 0" using f(1) unfolding page_ok_def by blast
  have ka1: "kalloc_inv e s1 fl" using kalloc_inv_alloc [OF ka] s1 by simp
  have m1: "mem s1 = memset (mem s) f 5 4096" "machine.more s1 = machine.more s" "freelist s = f"
    using s1 f(4) by (auto simp: kalloc_def Let_def split: if_splits)
  have out1: "same_outside {f} (mem s) ?m"
    unfolding m1 by (rule same_outside_trans [OF same_outside_memset [OF al] same_outside_memset [OF al]]) auto
  have zero: "?m (f + of_nat k) = 0" if "k < 4096" for k
    using that by (simp add: memset_page in_range_offset)
  note ptal = pt_wf_aligned [OF wf pt(1)]
  have out2: "same_outside {f, pt} (mem s) ?m'"
    by (rule same_outside_trans [OF out1 same_outside_slot [OF ptal pt(3)]]) auto
  have ptfl: "pt \<notin> set fl" using dis pt(1) by (auto simp: ran_def)
  have "flist ?m' (freelist s1) fl = flist (mem s1) (freelist s1) fl"
  proof -
    have fal: "\<forall>q\<in>set fl. q mod PGSIZE = 0" using ka unfolding kalloc_inv_def page_ok_def by auto
    have "flist ?m' (freelist s1) fl = flist ?m (freelist s1) fl"
      using write64_other slot_in_page [OF pt(3)]
      by (intro flist_change_other [OF fal ptal ptfl]) blast
    also have "\<dots> = flist (mem s1) (freelist s1) fl"
      by (rule flist_change_other [OF fal al f(3)]) (simp add: memset_page)
    finally show ?thesis .
  qed
  then have ka2: "kalloc_inv e (s1\<lparr>mem := ?m'\<rparr>) fl" using ka1 by (simp add: kalloc_inv_def)
  have "ran ?nd = insert f (ran nd)" using pt(4) by (simp add: ran_map_upd)
  moreover have "nd \<subseteq>\<^sub>m ?nd" using pt(4) by (auto simp: map_le_def)
  moreover have "same_outside (set (f # fl) \<union> ran nd) (mem s) ?m'"
    by (rule same_outside_trans [OF out2 same_outside_refl]) (use pt(1) in \<open>auto simp: ran_def\<close>)
  ultimately show ?thesis
    using new_table_wf [OF wf pt f(1,2) zero out1] new_table_leaf [OF wf pt f(1,2) zero out1]
      ka2 dis f(3) m1(2) by (auto simp: vm_ext_def vm_inv_def)
qed

lemma walk_level_alloc:
  assumes "vm_inv e s fl nd r" "nd xs = Some pt" "length xs + level = 2"
  shows "\<exists>pte s' fl' nd'. walk_level level pt va True s = (pte, s') \<and> vm_ext e r s fl nd s' fl' nd' \<and>
    (pte = 0 \<and> fl' = [] \<or> (\<exists>q. nd' (xs @ path level va) = Some q \<and> pte = slot q (pxi 0 va)))"
  using assms
proof (induction level arbitrary: s fl nd xs pt)
  case 0
  then show ?case by (auto simp: slot_pxi intro: vm_ext_refl)
next
  case (Suc level)
  let ?i = "pxi (Suc level) va"
  have wf: "pt_wf e (mem s) nd r" and ka: "kalloc_inv e s fl" using Suc.prems(1) by (auto simp: vm_inv_def)
  have len: "length xs < 2" using Suc.prems(3) by simp
  show ?case
  proof (cases "nd (xs @ [?i])")
    case (Some q)
    then show ?thesis
      using pt_wf_entry_Some [OF wf Suc.prems(2) len pxi_lt Some]
        Suc.IH [OF Suc.prems(1) Some] Suc.prems(3)
      by (simp add: slot_pxi)
  next
    case None
    note inval = pt_wf_entry_None [OF wf Suc.prems(2) len pxi_lt None]
    from ka show ?thesis
    proof (cases rule: kmem.alloc_cases)
      case empty
      with inval Suc.prems(1) show ?thesis by (auto simp: slot_pxi intro: vm_ext_refl)
    next
      case (page f fl1 s1)
      let ?s = "s1\<lparr>mem := write64 (memset (mem s1) f 0 4096) (slot pt ?i) (PA2PTE f OR PTE_V)\<rparr>"
      have ext: "vm_ext e r s fl nd ?s fl1 (nd(xs @ [?i] \<mapsto> f))"
        unfolding page(1)
        by (rule new_table_ext [OF _ Suc.prems(2) len pxi_lt None page(3)]) (use Suc.prems(1) page(1) in simp)
      then have "vm_inv e ?s fl1 (nd(xs @ [?i] \<mapsto> f)) r" by (simp add: vm_ext_def)
      moreover have "(nd(xs @ [?i] \<mapsto> f)) (xs @ [?i]) = Some f" "length (xs @ [?i]) + level = 2"
        using Suc.prems(3) by simp_all
      ultimately obtain pte s' fl' nd' where IH: "walk_level level f va True ?s = (pte, s')"
        "vm_ext e r ?s fl1 (nd(xs @ [?i] \<mapsto> f)) s' fl' nd'"
        "pte = 0 \<and> fl' = [] \<or> (\<exists>q. nd' ((xs @ [?i]) @ path level va) = Some q \<and> pte = slot q (pxi 0 va))"
        using Suc.IH by blast
      have "walk_level (Suc level) pt va True s = (pte, s')"
        using inval page(2,3) IH(1) by (simp add: slot_pxi)
      moreover have "pte = 0 \<and> fl' = [] \<or>
          (\<exists>q. nd' (xs @ path (Suc level) va) = Some q \<and> pte = slot q (pxi 0 va))"
        using IH(3) by simp
      ultimately show ?thesis using vm_ext_trans [OF ext IH(2)] by blast
    qed
  qed
qed

lemma walk_alloc:
  assumes "vm_inv e s fl nd r" "va < MAXVA"
  shows "\<exists>pte s' fl' nd'. walk r va True s = Some (pte, s') \<and> vm_ext e r s fl nd s' fl' nd' \<and>
    (pte = 0 \<and> fl' = [] \<or> (\<exists>q. nd' (path 2 va) = Some q \<and> pte = slot q (pxi 0 va)))"
proof -
  have "nd [] = Some r" using assms(1) by (auto simp: vm_inv_def intro: pt_wf_root)
  from walk_level_alloc [OF assms(1) this, of 2 va] assms(2) show ?thesis
    by (simp add: walk_def)
qed

subsection \<open>Mapping a page\<close>

text \<open>Two page addresses below \<^verbatim>\<open>MAXVA\<close> with the same indices are equal.\<close>

lemma bit_below_MAXVA:
  assumes "a < MAXVA" "bit a n"
  shows "n < 39"
proof (rule ccontr)
  assume "\<not> n < 39"
  have "unat a < 2 ^ 39" using assms(1) by (simp add: word_less_nat_alt)
  then have "take_bit 39 a = a" by (simp add: take_bit_eq_mod word_unat_eq_iff unat_mod)
  then have "bit (take_bit 39 a) n" using assms(2) by simp
  with \<open>\<not> n < 39\<close> show False by (simp add: bit_take_bit_iff)
qed

lemma pxi_eq_iff: "pxi l a = pxi l b \<longleftrightarrow> (\<forall>k<9. bit a (12 + 9 * l + k) = bit b (12 + 9 * l + k))"
proof -
  have "pxi l a = pxi l b \<longleftrightarrow> take_bit 9 (drop_bit (12 + 9 * l) a) = take_bit 9 (drop_bit (12 + 9 * l) b)"
    by (simp add: pxi_def PX_alt word_unat_eq_iff)
  also have "\<dots> \<longleftrightarrow> (\<forall>k<9. bit a (12 + 9 * l + k) = bit b (12 + 9 * l + k))" (is "?L \<longleftrightarrow> ?R")
  proof
    assume ?L
    show ?R
    proof (intro allI impI)
      fix k :: nat assume "k < 9"
      from \<open>?L\<close> have "bit (take_bit 9 (drop_bit (12 + 9 * l) a)) k = bit (take_bit 9 (drop_bit (12 + 9 * l) b)) k"
        by simp
      with \<open>k < 9\<close> show "bit a (12 + 9 * l + k) = bit b (12 + 9 * l + k)" by (simp add: bit_simps)
    qed
  qed (auto simp: bit_eq_iff bit_simps)
  finally show ?thesis .
qed

lemma same_indices:
  assumes "a < MAXVA" "b < MAXVA" "a mod PGSIZE = 0" "b mod PGSIZE = 0"
    and "path 2 a = path 2 b" "pxi 0 a = pxi 0 b"
  shows "a = b"
proof (rule bit_word_eqI)
  fix n
  assume "n < LENGTH(64)"
  have px: "pxi 0 a = pxi 0 b" "pxi 1 a = pxi 1 b" "pxi 2 a = pxi 2 b"
    using assms(5,6) by (simp_all add: numeral_2_eq_2)
  have low: "\<not> bit c n" if "c mod PGSIZE = 0" "n < 12" for c :: u64
  proof -
    have "take_bit 12 c = 0" using that(1) by (simp only: page_bits)
    then show ?thesis using that(2) by (metis bit_take_bit_iff bit_0_eq bot_apply bot_bool_def)
  qed
  consider "n < 12" | "12 \<le> n" "n < 21" | "21 \<le> n" "n < 30" | "30 \<le> n" "n < 39" | "39 \<le> n"
    by linarith
  then show "bit a n = bit b n"
  proof cases
    case 1
    with low [OF assms(3)] low [OF assms(4)] show ?thesis by simp
  next
    case 2
    with px(1) show ?thesis using le_Suc_ex [of 12 n] by (auto simp: pxi_eq_iff)
  next
    case 3
    with px(2) show ?thesis using le_Suc_ex [of 21 n] by (auto simp: pxi_eq_iff)
  next
    case 4
    with px(3) show ?thesis using le_Suc_ex [of 30 n] by (auto simp: pxi_eq_iff)
  next
    case 5
    with bit_below_MAXVA [OF assms(1)] bit_below_MAXVA [OF assms(2)] show ?thesis by fastforce
  qed
qed

lemma set_leaf:
  assumes inv: "vm_inv e s fl nd r" and q: "nd (path 2 va) = Some q"
    and va: "va < MAXVA" "va mod PGSIZE = 0"
    and s'_def: "s' = s\<lparr>mem := write64 (mem s) (slot q (pxi 0 va)) w\<rparr>"
  shows "vm_inv e s' fl nd r"
    and "same_outside (ran nd) (mem s) (mem s')"
    and "va' < MAXVA \<Longrightarrow> va' mod PGSIZE = 0 \<Longrightarrow>
      leaf (mem s') nd va' = (if va' = va then w else leaf (mem s) nd va')"
proof -
  have wf: "pt_wf e (mem s) nd r" and ka: "kalloc_inv e s fl" and dis: "ran nd \<inter> set fl = {}"
    using inv by (auto simp: vm_inv_def)
  note qal = pt_wf_aligned [OF wf q]
  have out: "same_outside {q} (mem s) (mem s')"
    unfolding s'_def using same_outside_slot [OF qal pxi_lt] by simp
  show "same_outside (ran nd) (mem s) (mem s')"
    by (rule same_outside_trans [OF out same_outside_refl]) (use q in \<open>auto simp: ran_def\<close>)
  have qfl: "q \<notin> set fl" using dis q by (auto simp: ran_def)
  then have ka': "kalloc_inv e s' fl"
    using kalloc_inv_same_outside [OF ka, of "{q}" "mem s'"] out s'_def by simp
  have keep: "read64 (mem s') (slot p i) = read64 (mem s) (slot p i)"
    if "nd xs = Some p" "length xs < 2" "i < 512" for xs p i
  proof -
    have "p \<noteq> q" using pt_wf_inj [OF wf q] that(1,2) length_path [of 2 va] by fastforce
    then show ?thesis using same_outside_read64 [OF out pt_wf_aligned [OF wf that(1)] _ that(3)] by simp
  qed
  have "pt_wf e (mem s') nd r"
    by (rule pt_wf_cong [OF wf keep])
  with ka' dis show "vm_inv e s' fl nd r" by (simp add: vm_inv_def)
  show "leaf (mem s') nd va' = (if va' = va then w else leaf (mem s) nd va')"
    if va': "va' < MAXVA" "va' mod PGSIZE = 0"
  proof (cases "nd (path 2 va')")
    case None
    then show ?thesis using q by (auto simp: leaf_def)
  next
    case (Some p)
    have rd: "read64 (mem s') (slot p (pxi 0 va')) =
        (if q = p \<and> pxi 0 va = pxi 0 va' then w else read64 (mem s) (slot p (pxi 0 va')))"
      unfolding s'_def using read64_write64_slot [OF qal pt_wf_aligned [OF wf Some] pxi_lt pxi_lt] by simp
    have "q = p \<and> pxi 0 va = pxi 0 va' \<longleftrightarrow> va' = va"
    proof
      assume eq: "q = p \<and> pxi 0 va = pxi 0 va'"
      then have "path 2 va = path 2 va'" using pt_wf_inj [OF wf q, of "path 2 va'"] Some by simp
      with same_indices [OF va(1) va'(1) va(2) va'(2)] eq show "va' = va" by simp
    qed (use q Some in simp)
    with rd Some show ?thesis by (simp add: leaf_def)
  qed
qed

lemma leaf_same_outside:
  assumes "vm_inv e s fl nd r" "same_outside P (mem s) m" "ran nd \<inter> P = {}" "set fl \<inter> P = {}"
  shows "vm_inv e (s\<lparr>mem := m\<rparr>) fl nd r" "leaf m nd va = leaf (mem s) nd va"
proof -
  have wf: "pt_wf e (mem s) nd r" and ka: "kalloc_inv e s fl" and dis: "ran nd \<inter> set fl = {}"
    using assms(1) by (auto simp: vm_inv_def)
  have "pt_wf e m nd r"
  proof (rule pt_wf_cong [OF wf])
    fix xs p and i :: nat assume p: "nd xs = Some p" "i < 512"
    then have "p \<notin> P" using assms(3) by (auto simp: ran_def)
    then show "read64 m (slot p i) = read64 (mem s) (slot p i)"
      using same_outside_read64 [OF assms(2) pt_wf_aligned [OF wf p(1)] _ p(2)] by blast
  qed
  then show "vm_inv e (s\<lparr>mem := m\<rparr>) fl nd r"
    using kalloc_inv_same_outside [OF ka assms(2,4)] dis by (simp add: vm_inv_def)
  show "leaf m nd va = leaf (mem s) nd va" by (rule leaf_cong [OF wf assms(2,3)])
qed

text \<open>The leaf entries after mapping the first \<open>n\<close> pages from \<open>a\<close> to \<open>pa\<close>.\<close>

definition map_range :: "u64 \<Rightarrow> nat \<Rightarrow> u64 \<Rightarrow> u64 \<Rightarrow> (u64 \<Rightarrow> u64) \<Rightarrow> u64 \<Rightarrow> u64" where
  "map_range a n pa perm L va =
     (if in_range va a (4096 * n) then PA2PTE (pa + (va - a)) OR perm OR PTE_V else L va)"

definition page_addr :: "u64 \<Rightarrow> bool" where
  "page_addr va \<longleftrightarrow> va < MAXVA \<and> va mod PGSIZE = 0"

lemma in_range_page:
  assumes "page_addr va" "page_addr a"
  shows "in_range va a 4096 \<longleftrightarrow> va = a"
proof
  assume "in_range va a 4096"
  then obtain k where "k < 4096" "va = a + of_nat k" by (rule in_rangeE)
  then have "PGROUNDDOWN va = a" using assms(2) by (simp add: PGROUNDDOWN_page_offset page_addr_def)
  moreover have "PGROUNDDOWN va = va"
    using PGROUNDDOWN_page_offset [of va 0] assms(1) by (simp add: page_addr_def)
  ultimately show "va = a" by simp
qed (simp add: in_range_def)

text \<open>
  What \<^verbatim>\<open>mappages\<close> does, for a range of \<open>n + 1\<close> pages none of which is mapped: it returns 0 with the
  whole range mapped, or -1 with a first part of it mapped when the memory ran out.
\<close>

definition mapped_part ::
  "u64 \<Rightarrow> u64 \<Rightarrow> 'a machine_scheme \<Rightarrow> u64 list \<Rightarrow> nodes \<Rightarrow> 'a machine_scheme \<Rightarrow> u64 list \<Rightarrow> nodes \<Rightarrow>
   u64 \<Rightarrow> nat \<Rightarrow> u64 \<Rightarrow> u64 \<Rightarrow> bool" where
  "mapped_part e r s fl nd s' fl' nd' a n pa perm \<longleftrightarrow>
     vm_inv e s' fl' nd' r \<and> nd \<subseteq>\<^sub>m nd' \<and> set fl' \<union> ran nd' = set fl \<union> ran nd \<and>
     same_outside (set fl \<union> ran nd) (mem s) (mem s') \<and> machine.more s' = machine.more s \<and>
     (\<forall>va. page_addr va \<longrightarrow> leaf (mem s') nd' va = map_range a n pa perm (leaf (mem s) nd) va)"

lemma mapped_part_0: "vm_ext e r s fl nd s' fl' nd' \<Longrightarrow> mapped_part e r s fl nd s' fl' nd' a 0 pa perm"
  by (simp add: vm_ext_def mapped_part_def map_range_def in_range_def)

lemma slot_nonzero:
  assumes "vm_inv e s fl nd r" "nd xs = Some q" "i < 512"
  shows "slot q i \<noteq> 0"
proof -
  have wf: "pt_wf e (mem s) nd r" and ka: "kalloc_inv e s fl" using assms(1) by (auto simp: vm_inv_def)
  have "q \<noteq> 0" using ka pt_wf_page [OF wf assms(2)] page_ok_nonzero by (auto simp: kalloc_inv_def)
  moreover have "unat (slot q i) = unat q + 8 * i" by (rule unat_slot [OF pt_wf_aligned [OF wf assms(2)] assms(3)])
  ultimately show ?thesis by (auto simp: word_unat_eq_iff)
qed

lemma map_one:
  assumes inv: "vm_inv e s fl nd r" and a: "page_addr a" and free: "leaf (mem s) nd a AND PTE_V = 0"
  shows "\<exists>pte s1 fl' nd'. walk r a True s = Some (pte, s1) \<and>
    (pte = 0 \<and> fl' = [] \<and> mapped_part e r s fl nd s1 fl' nd' a 0 pa perm \<or>
     pte \<noteq> 0 \<and> read64 (mem s1) pte AND PTE_V = 0 \<and>
     mapped_part e r s fl nd (s1\<lparr>mem := write64 (mem s1) pte (PA2PTE pa OR perm OR PTE_V)\<rparr>) fl' nd' a 1 pa perm)"
proof -
  have va: "a < MAXVA" "a mod PGSIZE = 0" using a unfolding page_addr_def by blast+
  from walk_alloc [OF inv va(1)] obtain pte s1 fl' nd' where w: "walk r a True s = Some (pte, s1)"
    and ext: "vm_ext e r s fl nd s1 fl' nd'"
    and pte: "pte = 0 \<and> fl' = [] \<or> (\<exists>q. nd' (path 2 a) = Some q \<and> pte = slot q (pxi 0 a))" by blast
  show ?thesis
  proof (cases "pte = 0 \<and> fl' = []")
    case True
    with w mapped_part_0 [OF ext] show ?thesis by blast
  next
    case False
    then obtain q where q: "nd' (path 2 a) = Some q" "pte = slot q (pxi 0 a)" using pte by blast
    have inv1: "vm_inv e s1 fl' nd' r" using ext by (simp add: vm_ext_def)
    have nz: "pte \<noteq> 0" unfolding q(2) by (rule slot_nonzero [OF inv1 q(1) pxi_lt])
    have lf: "leaf (mem s1) nd' a = read64 (mem s1) pte" using q by (simp add: leaf_def)
    let ?w = "PA2PTE pa OR perm OR PTE_V"
    let ?s = "s1\<lparr>mem := write64 (mem s1) pte ?w\<rparr>"
    note set1 = set_leaf [OF inv1 q(1) va, of ?s ?w, unfolded q(2) [symmetric], OF refl]
    have "leaf (mem ?s) nd' va = map_range a 1 pa perm (leaf (mem s) nd) va" if "page_addr va" for va
      using set1(3) [of va] that ext in_range_page [OF that a]
      by (auto simp: page_addr_def vm_ext_def map_range_def)
    moreover have "same_outside (set fl \<union> ran nd) (mem s) (mem ?s)"
      using ext by (intro same_outside_trans [OF _ set1(2)]) (auto simp: vm_ext_def)
    ultimately have "mapped_part e r s fl nd ?s fl' nd' a 1 pa perm"
      using set1(1) ext by (simp add: mapped_part_def vm_ext_def)
    moreover have "read64 (mem s1) pte AND PTE_V = 0" using lf ext free by (simp add: vm_ext_def)
    ultimately show ?thesis using w nz by blast
  qed
qed

lemma in_range_next:
  "in_range va a (4096 * Suc k) \<longleftrightarrow> in_range va a 4096 \<or> in_range va (a + PGSIZE) (4096 * k)"
proof -
  have "unat (va - (a + PGSIZE)) = unat (va - a) - 4096" if "\<not> unat (va - a) < 4096"
  proof -
    have "unat (va - (a + PGSIZE)) = unat (va - a - PGSIZE)" by (simp only: diff_diff_eq)
    also have "\<dots> = unat (va - a) - unat PGSIZE" using that by (intro unat_sub_small) simp
    finally show ?thesis by simp
  qed
  then show ?thesis
    by (cases "unat (va - a) < 4096") (auto simp: in_range_def)
qed

lemma map_range_Suc:
  "map_range (a + PGSIZE) k (pa + PGSIZE) perm (map_range a 1 pa perm L) va = map_range a (Suc k) pa perm L va"
proof -
  have "pa + PGSIZE + (va - (a + PGSIZE)) = pa + (va - a)" by simp
  then show ?thesis
    unfolding map_range_def in_range_next [of va a k] by auto
qed

lemma mapped_part_trans:
  assumes "mapped_part e r s fl nd s1 fl1 nd1 a 1 pa perm"
    and "mapped_part e r s1 fl1 nd1 s2 fl2 nd2 (a + PGSIZE) k (pa + PGSIZE) perm"
  shows "mapped_part e r s fl nd s2 fl2 nd2 a (Suc k) pa perm"
proof -
  have "leaf (mem s2) nd2 va = map_range a (Suc k) pa perm (leaf (mem s) nd) va" if "page_addr va" for va
  proof -
    have "leaf (mem s2) nd2 va = map_range (a + PGSIZE) k (pa + PGSIZE) perm (leaf (mem s1) nd1) va"
      "leaf (mem s1) nd1 va = map_range a 1 pa perm (leaf (mem s) nd) va"
      using assms that by (auto simp: mapped_part_def)
    then have "leaf (mem s2) nd2 va =
        map_range (a + PGSIZE) k (pa + PGSIZE) perm (map_range a 1 pa perm (leaf (mem s) nd)) va"
      by (simp add: map_range_def)
    then show ?thesis by (simp only: map_range_Suc)
  qed
  then show ?thesis
    using assms same_outside_trans [of _ "mem s" "mem s1" _ "mem s2"] map_le_trans [of nd nd1 nd2]
    by (auto simp: mapped_part_def)
qed

lemma mappages_loop_correct:
  assumes "vm_inv e s fl nd r" "a mod PGSIZE = 0" "unat a + 4096 * n < 2 ^ 38"
    and "\<And>va. page_addr va \<Longrightarrow> in_range va a (4096 * Suc n) \<Longrightarrow> leaf (mem s) nd va AND PTE_V = 0"
  shows "\<exists>res s' fl' nd' k. mappages_loop r a (a + of_nat (4096 * n)) pa perm s = Some (res, s') \<and>
    mapped_part e r s fl nd s' fl' nd' a k pa perm \<and>
    (res = 0 \<and> k = Suc n \<or> res = - 1 \<and> k \<le> n \<and> fl' = [])"
  using assms
proof (induction n arbitrary: a pa s fl nd)
  case 0
  have a: "page_addr a" using 0(2,3) by (simp add: page_addr_def word_less_nat_alt)
  have "leaf (mem s) nd a AND PTE_V = 0" using 0(4) [OF a] by (simp add: in_range_def)
  from map_one [OF 0(1) a this, of pa perm] obtain pte s1 fl' nd' where
    m: "walk r a True s = Some (pte, s1)"
    "pte = 0 \<and> fl' = [] \<and> mapped_part e r s fl nd s1 fl' nd' a 0 pa perm \<or>
     pte \<noteq> 0 \<and> read64 (mem s1) pte AND PTE_V = 0 \<and>
     mapped_part e r s fl nd (s1\<lparr>mem := write64 (mem s1) pte (PA2PTE pa OR perm OR PTE_V)\<rparr>) fl' nd' a 1 pa perm"
    by blast
  from m(2) show ?case
    using m(1) by (elim disjE conjE) (subst mappages_loop.simps, fastforce)+
next
  case (Suc n)
  have a: "page_addr a" using Suc.prems(2,3) by (simp add: page_addr_def word_less_nat_alt)
  have "leaf (mem s) nd a AND PTE_V = 0" using Suc.prems(4) [OF a] by (simp add: in_range_def)
  from map_one [OF Suc.prems(1) a this, of pa perm] obtain pte s1 fl1 nd1 where
    m: "walk r a True s = Some (pte, s1)"
    "pte = 0 \<and> fl1 = [] \<and> mapped_part e r s fl nd s1 fl1 nd1 a 0 pa perm \<or>
     pte \<noteq> 0 \<and> read64 (mem s1) pte AND PTE_V = 0 \<and>
     mapped_part e r s fl nd (s1\<lparr>mem := write64 (mem s1) pte (PA2PTE pa OR perm OR PTE_V)\<rparr>) fl1 nd1 a 1 pa perm"
    by blast
  have nl: "a \<noteq> a + of_nat (4096 * Suc n)"
  proof -
    have "(of_nat (4096 * Suc n) :: u64) \<noteq> of_nat 0"
      using Suc.prems(3) by (subst of_nat_inj_small) simp_all
    then show ?thesis by simp
  qed
  have up: "unat (a + PGSIZE) = unat a + 4096" using a by (simp add: page_addr_def unat_step_below_MAXVA)
  show ?case
  proof (cases "pte = 0")
    case True
    with m nl have "mappages_loop r a (a + of_nat (4096 * Suc n)) pa perm s = Some (- 1, s1)"
      by (subst mappages_loop.simps) simp
    with True m(2) show ?thesis by fastforce
  next
    case False
    let ?s = "s1\<lparr>mem := write64 (mem s1) pte (PA2PTE pa OR perm OR PTE_V)\<rparr>"
    have mp: "mapped_part e r s fl nd ?s fl1 nd1 a 1 pa perm" and inval: "read64 (mem s1) pte AND PTE_V = 0"
      using m(2) False by blast+
    have inv1: "vm_inv e ?s fl1 nd1 r" using mp by (simp add: mapped_part_def)
    have al: "(a + PGSIZE) mod PGSIZE = 0"
      using Suc.prems(2) up unfolding page_aligned_iff by (simp add: dvd_add)
    have rest: "leaf (mem ?s) nd1 va AND PTE_V = 0"
      if va: "page_addr va" "in_range va (a + PGSIZE) (4096 * Suc n)" for va
    proof -
      have "unat ((va - (a + PGSIZE)) + PGSIZE) = unat (va - (a + PGSIZE)) + unat PGSIZE"
        using va(2) Suc.prems(3) by (intro unat_add_small) (simp add: in_range_def)
      then have "unat (va - a) = unat (va - (a + PGSIZE)) + 4096" by simp
      then have "\<not> in_range va a (4096 * 1)" by (simp add: in_range_def)
      then have "leaf (mem ?s) nd1 va = leaf (mem s) nd va"
        using mp va(1) by (simp add: mapped_part_def map_range_def)
      moreover have "in_range va a (4096 * Suc (Suc n))" using va(2) in_range_next [of va a "Suc n"] by blast
      ultimately show ?thesis using Suc.prems(4) [OF va(1)] by simp
    qed
    have bound: "unat (a + PGSIZE) + 4096 * n < 2 ^ 38" using up Suc.prems(3) by simp
    from Suc.IH [OF inv1 al bound rest, of "pa + PGSIZE"]
    obtain res s' fl' nd' k where IH:
      "mappages_loop r (a + PGSIZE) (a + PGSIZE + of_nat (4096 * n)) (pa + PGSIZE) perm ?s = Some (res, s')"
      "mapped_part e r ?s fl1 nd1 s' fl' nd' (a + PGSIZE) k (pa + PGSIZE) perm"
      "res = 0 \<and> k = Suc n \<or> res = - 1 \<and> k \<le> n \<and> fl' = []" by blast
    have "a + PGSIZE + of_nat (4096 * n) = a + of_nat (4096 * Suc n)" by simp
    then have "mappages_loop r a (a + of_nat (4096 * Suc n)) pa perm s = Some (res, s')"
      using m(1) False inval nl IH(1) by (subst mappages_loop.simps) (simp add: add.assoc)
    moreover have "res = 0 \<and> Suc k = Suc (Suc n) \<or> res = - 1 \<and> Suc k \<le> Suc n \<and> fl' = []"
      using IH(3) by auto
    ultimately show ?thesis using mapped_part_trans [OF mp IH(2)] by blast
  qed
qed

lemma mappages_correct:
  assumes "vm_inv e s fl nd r" "va mod PGSIZE = 0" "unat va + 4096 * n < 2 ^ 38"
    and "\<And>a. page_addr a \<Longrightarrow> in_range a va (4096 * Suc n) \<Longrightarrow> leaf (mem s) nd a AND PTE_V = 0"
  shows "\<exists>res s' fl' nd' k. mappages r va (of_nat (4096 * Suc n)) pa perm s = Some (res, s') \<and>
    mapped_part e r s fl nd s' fl' nd' va k pa perm \<and>
    (res = 0 \<and> k = Suc n \<or> res = - 1 \<and> k \<le> n \<and> fl' = [])"
proof -
  have small: "4096 * Suc n < 2 ^ 64" using assms(3) by simp
  have "unat (of_nat (4096 * Suc n) :: u64) = 4096 * Suc n" by (rule unat_of_nat_small) (use small in simp)
  then have "(of_nat (4096 * Suc n) :: u64) mod PGSIZE = 0" "(of_nat (4096 * Suc n) :: u64) \<noteq> 0"
    unfolding page_aligned_iff by (simp, metis unsigned_0 mult_eq_0_iff nat.distinct(1) zero_neq_numeral)
  moreover have "va + of_nat (4096 * Suc n) - PGSIZE = va + of_nat (4096 * n)" by simp
  ultimately have "mappages r va (of_nat (4096 * Suc n)) pa perm s =
      mappages_loop r va (va + of_nat (4096 * n)) pa perm s"
    using assms(2) unfolding mappages_def by (simp only: if_False not_True_eq_False) simp
  with mappages_loop_correct [OF assms, of pa perm] show ?thesis by simp
qed

lemma walkaddr_leaf:
  assumes "vm_inv e s fl nd r" "va < MAXVA"
  shows "walkaddr r va s =
    Some (let x = leaf (mem s) nd va in if bit x 0 \<and> bit x 4 then PTE2PA x else 0)"
proof -
  have wf: "pt_wf e (mem s) nd r" using assms(1) by (simp add: vm_inv_def)
  have nle: "\<not> MAXVA \<le> va" using assms(2) by simp
  show ?thesis
  proof (cases "nd (path 2 va)")
    case None
    then show ?thesis using walk_lookup [OF wf assms(2)] assms(2) by (simp add: walkaddr_def leaf_def)
  next
    case (Some q)
    then show ?thesis
      using walk_lookup [OF wf assms(2)] nle slot_nonzero [OF assms(1) Some pxi_lt]
      by (simp add: walkaddr_def leaf_def Let_def flag_clear_iff)
  qed
qed

end
