(* ===== verification/Vm_User.thy ===== *)
theory Vm_User
  imports Vm_Inv
begin

section \<open>User memory\<close>

text \<open>
  What user code and the copy functions see of a process's memory. The view \<open>lview\<close> gives the byte
  at a user address, and counts a page that \<^verbatim>\<open>sbrk\<close> promised but no access has touched yet as
  zeros. A page fault does not change the view, so lazy allocation is invisible; \<^verbatim>\<open>copyin\<close> reads
  exactly the view and \<^verbatim>\<open>copyout\<close> changes exactly the bytes it is asked to.
\<close>

subsection \<open>The view\<close>

definition user_leaf :: "u64 \<Rightarrow> bool" where
  "user_leaf x \<longleftrightarrow> bit x 0 \<and> bit x 4"

definition lview :: "u64 \<Rightarrow> memory \<Rightarrow> nodes \<Rightarrow> u64 \<Rightarrow> u8 option" where
  "lview n m nd va =
     (let va0 = PGROUNDDOWN va; x = leaf m nd va0 in
      if \<not> va0 < MAXVA then None
      else if user_leaf x then Some (m (PTE2PA x + (va - va0)))
      else if \<not> bit x 0 \<and> va0 < n then Some 0 else None)"

text \<open>The physical pages of the user, each mapped once and neither free nor part of the tree.\<close>

definition upages :: "memory \<Rightarrow> nodes \<Rightarrow> u64 set" where
  "upages m nd = {PTE2PA (leaf m nd va) | va. page_addr va \<and> user_leaf (leaf m nd va)}"

definition uspace_inv :: "u64 \<Rightarrow> 'a machine_scheme \<Rightarrow> u64 list \<Rightarrow> nodes \<Rightarrow> u64 \<Rightarrow> bool" where
  "uspace_inv e s fl nd r \<longleftrightarrow>
     vm_inv e s fl nd r \<and>
     (\<forall>p \<in> upages (mem s) nd. page_ok e p \<and> p \<notin> set fl \<and> p \<notin> ran nd) \<and>
     (\<forall>va va'. page_addr va \<longrightarrow> page_addr va' \<longrightarrow> user_leaf (leaf (mem s) nd va) \<longrightarrow>
        user_leaf (leaf (mem s) nd va') \<longrightarrow> PTE2PA (leaf (mem s) nd va) = PTE2PA (leaf (mem s) nd va') \<longrightarrow>
        va = va')"

text \<open>A page that is mapped can be written only with the W flag; an untouched page gets it on its first fault.\<close>

definition wview :: "memory \<Rightarrow> nodes \<Rightarrow> u64 \<Rightarrow> bool" where
  "wview m nd va \<longleftrightarrow> (bit (leaf m nd (PGROUNDDOWN va)) 0 \<longrightarrow> bit (leaf m nd (PGROUNDDOWN va)) 2)"

text \<open>The page of an address is present in the page table.\<close>

definition present :: "memory \<Rightarrow> nodes \<Rightarrow> u64 \<Rightarrow> bool" where
  "present m nd va \<longleftrightarrow> PGROUNDDOWN va < MAXVA \<and> bit (leaf m nd (PGROUNDDOWN va)) 0"

text \<open>A step that leaves the user's view and everything outside the page pools as it was.\<close>

definition us_step ::
  "u64 \<Rightarrow> u64 \<Rightarrow> u64 \<Rightarrow> 'a machine_scheme \<Rightarrow> u64 list \<Rightarrow> nodes \<Rightarrow> 'a machine_scheme \<Rightarrow> u64 list \<Rightarrow> nodes \<Rightarrow> bool" where
  "us_step e r n s fl nd s' fl' nd' \<longleftrightarrow>
     uspace_inv e s' fl' nd' r \<and> machine.more s' = machine.more s \<and>
     set fl' \<subseteq> set fl \<and> set fl' \<union> ran nd' \<subseteq> set fl \<union> ran nd \<and> upages (mem s') nd' \<subseteq> upages (mem s) nd \<union> set fl \<and>
     same_outside (set fl \<union> ran nd) (mem s) (mem s') \<and>
     (\<forall>va. lview n (mem s') nd' va = lview n (mem s) nd va) \<and>
     (\<forall>va. PGROUNDDOWN va < MAXVA \<longrightarrow> wview (mem s') nd' va = wview (mem s) nd va) \<and>
     (\<forall>va. present (mem s) nd va \<longrightarrow> present (mem s') nd' va)"

lemma us_step_refl: "uspace_inv e s fl nd r \<Longrightarrow> us_step e r n s fl nd s fl nd"
  by (simp add: us_step_def)

lemma us_step_trans:
  assumes "us_step e r n s fl nd s1 fl1 nd1" "us_step e r n s1 fl1 nd1 s2 fl2 nd2"
  shows "us_step e r n s fl nd s2 fl2 nd2"
proof -
  have pools: "set fl1 \<union> ran nd1 \<subseteq> set fl \<union> ran nd" "set fl2 \<union> ran nd2 \<subseteq> set fl1 \<union> ran nd1"
    and up: "upages (mem s1) nd1 \<subseteq> upages (mem s) nd \<union> set fl"
      "upages (mem s2) nd2 \<subseteq> upages (mem s1) nd1 \<union> set fl1"
    and fl: "set fl1 \<subseteq> set fl"
    and out: "same_outside (set fl \<union> ran nd) (mem s) (mem s1)"
      "same_outside (set fl1 \<union> ran nd1) (mem s1) (mem s2)"
    using assms unfolding us_step_def by blast+
  have "same_outside (set fl \<union> ran nd) (mem s) (mem s2)"
    by (rule same_outside_trans [OF out]) (use pools in auto)
  moreover have "upages (mem s2) nd2 \<subseteq> upages (mem s) nd \<union> set fl" using up fl by blast
  ultimately show ?thesis using assms pools unfolding us_step_def by (simp only:) blast
qed

lemma more_procs:
  fixes s t :: "'a kproc_scheme"
  assumes "machine.more s = machine.more t"
  shows "procs s = procs t" "myproc s = myproc t"
  using assms by (cases s; cases t; simp add: myproc_def mycpu_def cpuid_def)+

text \<open>Page addresses.\<close>

lemma page_addr_round: "page_addr a \<Longrightarrow> PGROUNDDOWN a = a"
  using PGROUNDDOWN_page_offset [of a 0] by (simp add: page_addr_def)

lemma page_addr_PGROUNDDOWN: "PGROUNDDOWN a < MAXVA \<Longrightarrow> page_addr (PGROUNDDOWN a)"
  by (simp only: page_addr_def PGROUNDDOWN_aligned simp_thms)

lemma uspace_vm: "uspace_inv e s fl nd r \<Longrightarrow> vm_inv e s fl nd r"
  by (simp add: uspace_inv_def)

lemma uspace_page:
  assumes "uspace_inv e s fl nd r" "page_addr va" "user_leaf (leaf (mem s) nd va)"
  shows "page_ok e (PTE2PA (leaf (mem s) nd va))" "PTE2PA (leaf (mem s) nd va) \<notin> set fl"
    "PTE2PA (leaf (mem s) nd va) \<notin> ran nd"
  using assms unfolding uspace_inv_def upages_def by blast+

lemma uspace_inj:
  "uspace_inv e s fl nd r \<Longrightarrow> page_addr va \<Longrightarrow> page_addr va' \<Longrightarrow> user_leaf (leaf (mem s) nd va) \<Longrightarrow>
   user_leaf (leaf (mem s) nd va') \<Longrightarrow> PTE2PA (leaf (mem s) nd va) = PTE2PA (leaf (mem s) nd va') \<Longrightarrow> va = va'"
  unfolding uspace_inv_def by blast

text \<open>A view depends on the leaf entries and the user pages only.\<close>

lemma lview_cong:
  assumes inv: "uspace_inv e s fl nd r"
    and leaves: "\<And>va. page_addr va \<Longrightarrow> leaf m' nd' va = leaf (mem s) nd va"
    and out: "same_outside (set fl \<union> ran nd) (mem s) m'"
  shows "lview n m' nd' va = lview n (mem s) nd va"
proof (cases "PGROUNDDOWN va < MAXVA \<and> user_leaf (leaf (mem s) nd (PGROUNDDOWN va))")
  case True
  let ?va0 = "PGROUNDDOWN va"
  have pa: "page_addr ?va0" using True page_addr_PGROUNDDOWN by blast
  note pg = uspace_page [OF inv pa conjunct2 [OF True]]
  have "m' (PTE2PA (leaf (mem s) nd ?va0) + of_nat (unat (va - ?va0))) =
      mem s (PTE2PA (leaf (mem s) nd ?va0) + of_nat (unat (va - ?va0)))"
    using pg page_offset_lt [of va] unfolding page_ok_def by (intro same_outsideD [OF out]) auto
  with True leaves [OF pa] show ?thesis by (simp add: lview_def Let_def)
next
  case False
  then show ?thesis
    using leaves [OF page_addr_PGROUNDDOWN, of va] by (auto simp: lview_def Let_def)
qed

subsection \<open>Pages leaving and entering the free list\<close>

lemma kalloc_zero_vm:
  assumes inv: "vm_inv e s (f # fl) nd r" and k: "kalloc s = (f, s1)"
  defines "s2 \<equiv> s1\<lparr>mem := memset (mem s1) f 0 4096\<rparr>"
  shows "vm_inv e s2 fl nd r" "same_outside {f} (mem s) (mem s2)" "machine.more s2 = machine.more s"
    "leaf (mem s2) nd va = leaf (mem s) nd va" "k < 4096 \<Longrightarrow> mem s2 (f + of_nat k) = 0"
    "page_ok e f" "f \<notin> set fl" "f \<notin> ran nd" "f \<noteq> 0"
proof -
  have wf: "pt_wf e (mem s) nd r" and ka: "kalloc_inv e s (f # fl)" and dis: "ran nd \<inter> set (f # fl) = {}"
    using inv by (auto simp: vm_inv_def)
  show f: "page_ok e f" "f \<notin> set fl" "f \<notin> ran nd" "f \<noteq> 0"
    using ka dis page_ok_nonzero [of e f] by (auto simp: kalloc_inv_def)
  have al: "f mod PGSIZE = 0" using f(1) unfolding page_ok_def by blast
  have s1: "s1 = s\<lparr>freelist := read64 (mem s) f, nfree := nfree s - 1, nalloc := nalloc s + 1,
      mem := memset (mem s) f 5 4096\<rparr>"
    using k f(4) by (auto simp: kalloc_def Let_def split: if_splits)
  have out5: "same_outside {f} (mem s) (memset (mem s) f 5 4096)" by (rule same_outside_memset [OF al])
  show out: "same_outside {f} (mem s) (mem s2)"
    unfolding s2_def s1 by (simp, rule same_outside_trans [OF out5 same_outside_memset [OF al]]) auto
  have ka1: "kalloc_inv e s1 fl" using kalloc_inv_alloc [OF ka] k by simp
  have ka2: "kalloc_inv e s2 fl"
    unfolding s2_def by (rule kalloc_inv_same_outside [OF ka1 same_outside_memset [OF al]]) (use f(2) in simp)
  have "pt_wf e (mem s2) nd r"
  proof (rule pt_wf_cong [OF wf])
    fix xs p and i :: nat assume p: "nd xs = Some p" "i < 512"
    then have "p \<notin> {f}" using f(3) by (auto simp: ran_def)
    then show "read64 (mem s2) (slot p i) = read64 (mem s) (slot p i)"
      by (rule same_outside_read64 [OF out pt_wf_aligned [OF wf p(1)] _ p(2)])
  qed
  with ka2 dis show "vm_inv e s2 fl nd r" by (auto simp: vm_inv_def)
  show "machine.more s2 = machine.more s" by (simp add: s2_def s1)
  show "leaf (mem s2) nd va = leaf (mem s) nd va" by (rule leaf_cong [OF wf out]) (use f(3) in simp)
  show "mem s2 (f + of_nat k) = 0" if "k < 4096"
    using that by (simp add: s2_def memset_page in_range_offset)
qed

lemma kfree_vm:
  assumes inv: "vm_inv e s fl nd r" and f: "page_ok e f" "f \<notin> set fl" "f \<notin> ran nd"
  shows "\<exists>s'. kfree f s = Some s' \<and> vm_inv e s' (f # fl) nd r \<and> same_outside {f} (mem s) (mem s') \<and>
    machine.more s' = machine.more s \<and> (\<forall>va. leaf (mem s') nd va = leaf (mem s) nd va)"
proof -
  have wf: "pt_wf e (mem s) nd r" and ka: "kalloc_inv e s fl" and dis: "ran nd \<inter> set fl = {}"
    using inv by (auto simp: vm_inv_def)
  have al: "f mod PGSIZE = 0" using f(1) unfolding page_ok_def by blast
  obtain s' where s': "kfree f s = Some s'" "kalloc_inv e s' (f # fl)"
    using kalloc_inv_free [OF ka f(1,2)] by blast
  have eq: "s' = s\<lparr>mem := write64 (memset (mem s) f 1 4096) f (freelist s), freelist := f, nfree := nfree s + 1\<rparr>"
    using s'(1) by (auto simp: kfree_def Let_def split: if_splits)
  have "same_outside {f} (memset (mem s) f 1 4096) (write64 (memset (mem s) f 1 4096) (slot f 0) (freelist s))"
    by (rule same_outside_slot [OF al]) simp
  then have out: "same_outside {f} (mem s) (mem s')"
    unfolding eq by (simp add: slot_def) (rule same_outside_trans [OF same_outside_memset [OF al]], auto)
  have "pt_wf e (mem s') nd r"
  proof (rule pt_wf_cong [OF wf])
    fix xs p and i :: nat assume p: "nd xs = Some p" "i < 512"
    then have "p \<notin> {f}" using f(3) by (auto simp: ran_def)
    then show "read64 (mem s') (slot p i) = read64 (mem s) (slot p i)"
      by (rule same_outside_read64 [OF out pt_wf_aligned [OF wf p(1)] _ p(2)])
  qed
  moreover have "leaf (mem s') nd va = leaf (mem s) nd va" for va
    by (rule leaf_cong [OF wf out]) (use f(3) in simp)
  ultimately show ?thesis
    using s' dis f(3) out eq by (auto simp: vm_inv_def)
qed

lemma ismapped_leaf:
  assumes "vm_inv e s fl nd r" "va < MAXVA"
  shows "ismapped r va s = Some (bit (leaf (mem s) nd va) 0)"
proof -
  have wf: "pt_wf e (mem s) nd r" using assms(1) by (simp add: vm_inv_def)
  show ?thesis
    using walk_lookup [OF wf assms(2)] slot_nonzero [OF assms(1) _ pxi_lt]
    by (cases "nd (path 2 va)") (simp_all add: ismapped_def leaf_def and_flag_iff flag_clear_iff)
qed

subsection \<open>Page faults\<close>

abbreviation PTE_RWU :: u64 where "PTE_RWU \<equiv> PTE_W OR PTE_U OR PTE_R"

lemma user_entry:
  assumes "page_ok e f"
  shows "user_leaf (PA2PTE f OR PTE_RWU OR PTE_V)" "bit (PA2PTE f OR PTE_RWU OR PTE_V) 2"
    "PTE2PA (PA2PTE f OR PTE_RWU OR PTE_V) = f"
proof -
  have fl: "PA2PTE f OR PTE_RWU OR PTE_V = PA2PTE f OR 23" by (simp add: or.assoc)
  have bits: "bit (23 :: u64) 0" "bit (23 :: u64) 4" "bit (23 :: u64) 2" by simp_all
  show "user_leaf (PA2PTE f OR PTE_RWU OR PTE_V)" "bit (PA2PTE f OR PTE_RWU OR PTE_V) 2"
    unfolding fl user_leaf_def using bits by (simp_all add: entry_flag)
  show "PTE2PA (PA2PTE f OR PTE_RWU OR PTE_V) = f"
    unfolding fl by (rule PTE2PA_entry [OF assms]) simp
qed

lemma map_zero_page:
  assumes inv: "uspace_inv e s (f # fl) nd r" and k: "kalloc s = (f, s1)"
    and mp: "mapped_part e r (s1\<lparr>mem := memset (mem s1) f 0 4096\<rparr>) fl nd s3 fl3 nd3 va0 1 f PTE_RWU"
    and va0: "page_addr va0" "\<not> bit (leaf (mem s) nd va0) 0" "va0 < n"
  shows "us_step e r n s (f # fl) nd s3 fl3 nd3"
    and "leaf (mem s3) nd3 va0 = PA2PTE f OR PTE_RWU OR PTE_V"
proof -
  note z = kalloc_zero_vm [OF uspace_vm [OF inv] k]
  let ?s2 = "s1\<lparr>mem := memset (mem s1) f 0 4096\<rparr>"
  define E where "E = PA2PTE f OR PTE_RWU OR PTE_V"
  have lf: "leaf (mem s3) nd3 va = (if va = va0 then E else leaf (mem s) nd va)" if "page_addr va" for va
    using mp that z(4) in_range_page [OF that va0(1)] by (simp add: mapped_part_def map_range_def E_def)
  then show "leaf (mem s3) nd3 va0 = PA2PTE f OR PTE_RWU OR PTE_V" using va0(1) by (simp add: E_def)
  have pool: "set fl3 \<union> ran nd3 = set fl \<union> ran nd" and vm3: "vm_inv e s3 fl3 nd3 r"
    and out3: "same_outside (set fl \<union> ran nd) (mem ?s2) (mem s3)"
    and more: "machine.more s3 = machine.more s" and sub: "nd \<subseteq>\<^sub>m nd3"
    using mp z(3) by (auto simp: mapped_part_def)
  have out: "same_outside (set (f # fl) \<union> ran nd) (mem s) (mem s3)"
    by (rule same_outside_trans [OF z(2) out3]) auto
  have fal: "f mod PGSIZE = 0" using z(6) unfolding page_ok_def by blast
  have zero: "mem s3 (f + of_nat j) = 0" if "j < 4096" for j
    using same_outsideD [OF out3 fal _ that] z(5) [OF that] z(7,8) by simp
  note E = user_entry [OF z(6), folded E_def]
  have up: "upages (mem s3) nd3 = insert f (upages (mem s) nd)"
  proof -
    have nu: "\<not> user_leaf (leaf (mem s) nd va0)" using va0(2) by (simp add: user_leaf_def)
    have "p = f \<or> p \<in> upages (mem s) nd" if p: "p \<in> upages (mem s3) nd3" for p
    proof -
      from p obtain va where va: "page_addr va" "user_leaf (leaf (mem s3) nd3 va)" "p = PTE2PA (leaf (mem s3) nd3 va)"
        unfolding upages_def by blast
      with lf [OF va(1)] E(3) show ?thesis unfolding upages_def by (cases "va = va0") auto
    qed
    moreover have "f \<in> upages (mem s3) nd3"
      unfolding upages_def using lf [OF va0(1)] E(1,3) va0(1) by (intro CollectI exI [of _ va0]) simp
    moreover have "p \<in> upages (mem s3) nd3" if p: "p \<in> upages (mem s) nd" for p
    proof -
      from p obtain va where va: "page_addr va" "user_leaf (leaf (mem s) nd va)" "p = PTE2PA (leaf (mem s) nd va)"
        unfolding upages_def by blast
      then have "va \<noteq> va0" using nu by auto
      with va lf [OF va(1)] show ?thesis unfolding upages_def by (intro CollectI exI [of _ va]) simp
    qed
    ultimately show ?thesis by blast
  qed
  have old: "p \<noteq> f" "page_ok e p" "p \<notin> set fl" "p \<notin> ran nd" if "p \<in> upages (mem s) nd" for p
    using inv that unfolding uspace_inv_def by auto
  have pages: "\<forall>p\<in>upages (mem s3) nd3. page_ok e p \<and> p \<notin> set fl3 \<and> p \<notin> ran nd3"
    unfolding up using old(2-4) z(6-8) pool by blast
  have inj: "va = va'" if "page_addr va" "page_addr va'" "user_leaf (leaf (mem s3) nd3 va)"
    "user_leaf (leaf (mem s3) nd3 va')" "PTE2PA (leaf (mem s3) nd3 va) = PTE2PA (leaf (mem s3) nd3 va')" for va va'
  proof -
    have ne: "PTE2PA (leaf (mem s) nd x) \<noteq> f" if "page_addr x" "user_leaf (leaf (mem s) nd x)" for x
      using old(1) that unfolding upages_def by blast
    show ?thesis
      using that lf [OF that(1)] lf [OF that(2)] E(3) ne [OF that(1)] ne [OF that(2)]
        uspace_inj [OF inv that(1,2)]
      by (cases "va = va0"; cases "va' = va0") simp_all
  qed
  have us3: "uspace_inv e s3 fl3 nd3 r" unfolding uspace_inv_def using vm3 pages inj by blast
  have view: "lview n (mem s3) nd3 va = lview n (mem s) nd va" for va
  proof (cases "PGROUNDDOWN va = va0")
    case True
    have "mem s3 (f + of_nat (unat (va - va0))) = 0" using page_offset_lt [of va] True by (intro zero) simp
    then show ?thesis using True lf [OF va0(1)] E va0 by (auto simp: lview_def Let_def page_addr_def user_leaf_def)
  next
    case False
    show ?thesis
    proof (cases "PGROUNDDOWN va < MAXVA \<and> user_leaf (leaf (mem s) nd (PGROUNDDOWN va))")
      case yes: True
      have pa: "page_addr (PGROUNDDOWN va)" using yes page_addr_PGROUNDDOWN by blast
      note pg = uspace_page [OF inv pa conjunct2 [OF yes]]
      have "mem s3 (PTE2PA (leaf (mem s) nd (PGROUNDDOWN va)) + of_nat (unat (va - PGROUNDDOWN va))) =
          mem s (PTE2PA (leaf (mem s) nd (PGROUNDDOWN va)) + of_nat (unat (va - PGROUNDDOWN va)))"
        using pg page_offset_lt [of va] unfolding page_ok_def by (intro same_outsideD [OF out]) auto
      with yes lf [OF pa] False show ?thesis by (simp add: lview_def Let_def)
    next
      case no: False
      then show ?thesis
        using lf [OF page_addr_PGROUNDDOWN, of va] False by (auto simp: lview_def Let_def)
    qed
  qed
  have "set fl3 \<subseteq> set fl"
  proof -
    have "ran nd \<subseteq> ran nd3" using sub by (auto simp: map_le_def ran_def dom_def) (metis domI)
    moreover have "ran nd3 \<inter> set fl3 = {}" using vm3 by (simp add: vm_inv_def)
    ultimately show ?thesis using pool by blast
  qed
  moreover have "wview (mem s3) nd3 va = wview (mem s) nd va" if "PGROUNDDOWN va < MAXVA" for va
    using lf [OF page_addr_PGROUNDDOWN [OF that]] E(2) va0(2) by (auto simp: wview_def)
  moreover have "present (mem s3) nd3 va" if "present (mem s) nd va" for va
    using that lf [OF page_addr_PGROUNDDOWN, of va] E(1) by (auto simp: present_def user_leaf_def)
  ultimately show "us_step e r n s (f # fl) nd s3 fl3 nd3"
    unfolding us_step_def using us3 more pool up out view by auto
qed

lemma us_step_keep:
  assumes inv: "uspace_inv e s fl nd r" and vm': "vm_inv e s' fl' nd' r"
    and more: "machine.more s' = machine.more s" and pool: "set fl' \<subseteq> set fl" "set fl' \<union> ran nd' \<subseteq> set fl \<union> ran nd"
    and out: "same_outside (set fl \<union> ran nd) (mem s) (mem s')"
    and lf: "\<And>va. page_addr va \<Longrightarrow> leaf (mem s') nd' va = leaf (mem s) nd va"
  shows "us_step e r n s fl nd s' fl' nd'"
proof -
  have up: "upages (mem s') nd' = upages (mem s) nd"
    unfolding upages_def by (intro Collect_cong ex_cong1) (use lf in auto)
  have "uspace_inv e s' fl' nd' r"
    unfolding uspace_inv_def up using vm' pool uspace_inj [OF inv] lf inv
    by (auto simp: uspace_inv_def)
  then show ?thesis
    unfolding us_step_def up using more pool out lview_cong [OF inv lf out] lf page_addr_PGROUNDDOWN
    by (simp add: wview_def present_def)
qed

text \<open>The page a failed mapping gives back.\<close>

lemma map_failed_page:
  assumes inv: "uspace_inv e s (f # fl) nd r" and k: "kalloc s = (f, s1)"
    and mp: "mapped_part e r (s1\<lparr>mem := memset (mem s1) f 0 4096\<rparr>) fl nd s3 [] nd3 va0 0 f perm"
  shows "\<exists>s4. kfree f s3 = Some s4 \<and> us_step e r n s (f # fl) nd s4 [f] nd3"
proof -
  note z = kalloc_zero_vm [OF uspace_vm [OF inv] k]
  let ?s2 = "s1\<lparr>mem := memset (mem s1) f 0 4096\<rparr>"
  have pool: "ran nd3 = set fl \<union> ran nd" and vm3: "vm_inv e s3 [] nd3 r"
    and out3: "same_outside (set fl \<union> ran nd) (mem ?s2) (mem s3)" and more: "machine.more s3 = machine.more s"
    using mp z(3) by (auto simp: mapped_part_def)
  have lf: "leaf (mem s3) nd3 va = leaf (mem s) nd va" if "page_addr va" for va
    using mp that z(4) by (simp add: mapped_part_def map_range_def in_range_def)
  have "f \<notin> ran nd3" using pool z(7,8) by simp
  from kfree_vm [OF vm3 z(6) _ this] obtain s4 where s4: "kfree f s3 = Some s4" "vm_inv e s4 [f] nd3 r"
    "same_outside {f} (mem s3) (mem s4)" "machine.more s4 = machine.more s3"
    "\<And>va. leaf (mem s4) nd3 va = leaf (mem s3) nd3 va" by auto
  have "same_outside (set (f # fl) \<union> ran nd) (mem s) (mem s3)"
    by (rule same_outside_trans [OF z(2) out3]) auto
  then have "same_outside (set (f # fl) \<union> ran nd) (mem s) (mem s4)"
    by (rule same_outside_trans [OF _ s4(3)]) auto
  then have "us_step e r n s (f # fl) nd s4 [f] nd3"
    using s4 more pool lf by (intro us_step_keep [OF inv]) auto
  with s4(1) show ?thesis by blast
qed

text \<open>
  The process of the executing CPU has the page table \<open>r\<close> and the size \<open>n\<close>, below the trapframe.
\<close>

definition cur_space :: "'a kproc_scheme \<Rightarrow> u64 \<Rightarrow> u64 \<Rightarrow> bool" where
  "cur_space s r n \<longleftrightarrow> (\<exists>i. myproc s = Some i \<and> pagetable (procs s ! i) = r \<and> sz (procs s ! i) = n \<and> n \<le> MAXVA)"

lemma cur_space_more:
  "machine.more s' = machine.more s \<Longrightarrow> cur_space s' r n = cur_space s r n"
  using more_procs [of s' s] by (simp add: cur_space_def)

lemma vmfault_correct:
  assumes inv: "uspace_inv e s fl nd r" and cur: "cur_space s r n"
    and va0: "va0 mod PGSIZE = 0" "\<not> (va0 < MAXVA \<and> user_leaf (leaf (mem s) nd va0))"
  shows "\<exists>pa s' fl' nd'. vmfault r va0 s = Some (pa, s') \<and> us_step e r n s fl nd s' fl' nd' \<and>
    (pa = 0 \<and> (lview n (mem s) nd va0 = None \<or> \<not> present (mem s) nd va0 \<and> length fl' \<le> 1) \<or>
     pa \<noteq> 0 \<and> va0 < n \<and> \<not> bit (leaf (mem s) nd va0) 0 \<and> page_ok e pa \<and> leaf (mem s') nd' va0 = PA2PTE pa OR PTE_RWU OR PTE_V)"
proof -
  obtain i where i: "myproc s = Some i" "pagetable (procs s ! i) = r" "sz (procs s ! i) = n" "n \<le> MAXVA"
    using cur by (auto simp: cur_space_def)
  have rnd: "PGROUNDDOWN va0 = va0" using PGROUNDDOWN_page_offset [OF va0(1), of 0] by simp
  show ?thesis
  proof (cases "va0 < n \<and> \<not> bit (leaf (mem s) nd va0) 0")
    case False
    have "lview n (mem s) nd va0 = None" using False va0(2) rnd by (auto simp: lview_def Let_def)
    moreover have "vmfault r va0 s = Some (0, s)"
    proof (cases "va0 < n")
      case True
      then have "va0 < MAXVA" using i(4) by auto
      then show ?thesis
        using i True False rnd ismapped_leaf [OF uspace_vm [OF inv] \<open>va0 < MAXVA\<close>]
        by (simp add: vmfault_def)
    qed (use i in \<open>simp add: vmfault_def not_less\<close>)
    ultimately show ?thesis using us_step_refl [OF inv] by blast
  next
    case True
    then have "va0 < MAXVA" using i(4) by auto
    then have pa0: "page_addr va0" using va0(1) by (simp add: page_addr_def)
    have ka: "kalloc_inv e s fl" using inv by (simp add: uspace_inv_def vm_inv_def)
    have nle: "\<not> n \<le> va0" using True by auto
    have np: "\<not> present (mem s) nd va0" using True rnd by (simp add: present_def)
    have im: "ismapped r va0 s = Some False"
      using ismapped_leaf [OF uspace_vm [OF inv] \<open>va0 < MAXVA\<close>] True by simp
    from ka show ?thesis
    proof (cases rule: kmem.alloc_cases)
      case empty
      have "vmfault r va0 s = Some (0, s)" using i nle rnd im empty by (simp add: vmfault_def)
      moreover have "length fl \<le> 1" using empty by simp
      ultimately show ?thesis using us_step_refl [OF inv] np by blast
    next
      case (page f fl1 s1)
      let ?s2 = "s1\<lparr>mem := memset (mem s1) f 0 4096\<rparr>"
      have inv': "uspace_inv e s (f # fl1) nd r" using inv page(1) by simp
      note z = kalloc_zero_vm [OF uspace_vm [OF inv'] page(3)]
      have free: "leaf (mem ?s2) nd a AND PTE_V = 0" if "page_addr a" "in_range a va0 (4096 * Suc 0)" for a
        using that in_range_page [OF that(1) pa0] z(4) True by (simp add: flag_clear_iff)
      have "unat va0 + 4096 * 0 < 2 ^ 38" using \<open>va0 < MAXVA\<close> by (simp add: word_less_nat_alt)
      from mappages_correct [OF z(1) va0(1) this free, of f PTE_RWU]
      obtain res s3 fl3 nd3 k where mp: "mappages r va0 PGSIZE f PTE_RWU ?s2 = Some (res, s3)"
        "mapped_part e r ?s2 fl1 nd s3 fl3 nd3 va0 k f PTE_RWU"
        "res = 0 \<and> k = 1 \<or> res = - 1 \<and> k = 0 \<and> fl3 = []" by auto
      have vf: "vmfault r va0 s = (if res \<noteq> 0 then do { s4 \<leftarrow> kfree f s3; Some (0, s4) } else Some (f, s3))"
        using i nle rnd im page(2,3) mp(1) by (simp add: vmfault_def)
      from mp(3) show ?thesis
      proof
        assume ok: "res = 0 \<and> k = 1"
        then have mp1: "mapped_part e r ?s2 fl1 nd s3 fl3 nd3 va0 1 f PTE_RWU" using mp(2) by simp
        from True have "\<not> bit (leaf (mem s) nd va0) 0" "va0 < n" by auto
        from map_zero_page [OF inv' page(3) mp1 pa0 this] this
        show ?thesis using ok vf z(6,9) unfolding page(1) by (metis (no_types))
      next
        assume bad: "res = - 1 \<and> k = 0 \<and> fl3 = []"
        then have "mapped_part e r ?s2 fl1 nd s3 [] nd3 va0 0 f PTE_RWU" using mp(2) by simp
        from map_failed_page [OF inv' page(3) this, of n] obtain s4
          where s4: "kfree f s3 = Some s4" "us_step e r n s (f # fl1) nd s4 [f] nd3" by blast
        have "vmfault r va0 s = Some (0, s4)" using vf bad s4(1) by simp
        moreover have "length [f] \<le> 1" by simp
        ultimately show ?thesis using s4(2) np unfolding page(1) by blast
      qed
    qed
  qed
qed

subsection \<open>Copying between kernel and user\<close>

lemma chunk_page:
  assumes "k < chunk va len"
  shows "PGROUNDDOWN (va + of_nat k) = PGROUNDDOWN va"
    and "va + of_nat k - PGROUNDDOWN va = (va - PGROUNDDOWN va) + of_nat k"
proof -
  let ?off = "unat (va - PGROUNDDOWN va)"
  have "va + of_nat k = PGROUNDDOWN va + of_nat (?off + k)" by simp
  moreover have "?off + k < 4096" using assms by (auto simp: chunk_def)
  ultimately show "PGROUNDDOWN (va + of_nat k) = PGROUNDDOWN va"
    using PGROUNDDOWN_page_offset [OF PGROUNDDOWN_aligned [of va]] by metis
  show "va + of_nat k - PGROUNDDOWN va = (va - PGROUNDDOWN va) + of_nat k" by simp
qed

lemma chunk_next:
  assumes "chunk va len < len"
  shows "PGROUNDDOWN va + PGSIZE = va + of_nat (chunk va len)"
proof -
  let ?off = "unat (va - PGROUNDDOWN va)"
  have c: "chunk va len = 4096 - ?off" using assms by (simp add: chunk_def min_def split: if_splits)
  have "va + of_nat (chunk va len) = PGROUNDDOWN va + (of_nat ?off + of_nat (4096 - ?off))"
    unfolding c by simp
  also have "of_nat ?off + of_nat (4096 - ?off) = (of_nat (?off + (4096 - ?off)) :: u64)" by (simp only: of_nat_add)
  also have "?off + (4096 - ?off) = 4096" using page_offset_lt [of va] by simp
  finally show ?thesis by simp
qed

lemma lview_None_page: "lview n m nd (PGROUNDDOWN va) = None \<Longrightarrow> lview n m nd va = None"
proof -
  have "PGROUNDDOWN (PGROUNDDOWN va) = PGROUNDDOWN va"
    using PGROUNDDOWN_page_offset [OF PGROUNDDOWN_aligned, of 0] by simp
  then show "lview n m nd (PGROUNDDOWN va) = None \<Longrightarrow> lview n m nd va = None"
    by (auto simp: lview_def Let_def split: if_splits)
qed

lemma PGROUNDDOWN_idem [simp]: "PGROUNDDOWN (PGROUNDDOWN va) = PGROUNDDOWN va"
  using PGROUNDDOWN_page_offset [OF PGROUNDDOWN_aligned, of 0 va] by simp

lemma present_round: "present m nd (PGROUNDDOWN va) = present m nd va"
  by (simp add: present_def)

text \<open>The start of an iteration of both copy loops: find the page, or fault it in.\<close>

lemma fetch_page:
  assumes inv: "uspace_inv e s fl nd r" and cur: "cur_space s r n" and va0: "va0 mod PGSIZE = 0"
  shows "\<exists>pa0 pa s' fl' nd'. walkaddr r va0 s = Some pa0 \<and>
    (if pa0 = 0 then vmfault r va0 s else Some (pa0, s)) = Some (pa, s') \<and> us_step e r n s fl nd s' fl' nd' \<and>
    (pa = 0 \<and> (lview n (mem s) nd va0 = None \<or> \<not> present (mem s) nd va0 \<and> length fl' \<le> 1) \<or>
     pa \<noteq> 0 \<and> va0 < MAXVA \<and> user_leaf (leaf (mem s') nd' va0) \<and> PTE2PA (leaf (mem s') nd' va0) = pa \<and>
       (bit (leaf (mem s') nd' va0) 2 \<longleftrightarrow> wview (mem s) nd va0))"
proof (cases "va0 < MAXVA \<and> user_leaf (leaf (mem s) nd va0)")
  case True
  then have pa: "page_addr va0" using va0 by (simp add: page_addr_def)
  have "page_ok e (PTE2PA (leaf (mem s) nd va0))" using uspace_page [OF inv pa] True by blast
  then have "PTE2PA (leaf (mem s) nd va0) \<noteq> 0"
    using inv page_ok_nonzero [of e] by (auto simp: uspace_inv_def vm_inv_def kalloc_inv_def)
  moreover have "walkaddr r va0 s = Some (PTE2PA (leaf (mem s) nd va0))"
    using walkaddr_leaf [OF uspace_vm [OF inv]] True by (simp add: user_leaf_def Let_def)
  ultimately show ?thesis
    using True us_step_refl [OF inv] page_addr_round [OF pa] by (auto simp: user_leaf_def wview_def)
next
  case False
  have w: "walkaddr r va0 s = Some 0"
  proof (cases "va0 < MAXVA")
    case True
    then show ?thesis
      using walkaddr_leaf [OF uspace_vm [OF inv] True] False by (auto simp: user_leaf_def Let_def)
  qed (simp add: walkaddr_def not_less)
  from vmfault_correct [OF inv cur va0 False] obtain pa s' fl' nd' where vf:
    "vmfault r va0 s = Some (pa, s')" "us_step e r n s fl nd s' fl' nd'"
    "pa = 0 \<and> (lview n (mem s) nd va0 = None \<or> \<not> present (mem s) nd va0 \<and> length fl' \<le> 1) \<or>
     pa \<noteq> 0 \<and> va0 < n \<and> \<not> bit (leaf (mem s) nd va0) 0 \<and> page_ok e pa \<and> leaf (mem s') nd' va0 = PA2PTE pa OR PTE_RWU OR PTE_V"
    by blast
  have rnd: "PGROUNDDOWN va0 = va0" using PGROUNDDOWN_page_offset [OF va0, of 0] by simp
  have "n \<le> MAXVA" using cur by (auto simp: cur_space_def)
  then have "va0 < n \<Longrightarrow> va0 < MAXVA" by auto
  then have "pa = 0 \<and> (lview n (mem s) nd va0 = None \<or> \<not> present (mem s) nd va0 \<and> length fl' \<le> 1) \<or>
     pa \<noteq> 0 \<and> va0 < MAXVA \<and> user_leaf (leaf (mem s') nd' va0) \<and> PTE2PA (leaf (mem s') nd' va0) = pa \<and>
       (bit (leaf (mem s') nd' va0) 2 \<longleftrightarrow> wview (mem s) nd va0)"
    using vf(3) user_entry [of e pa] rnd unfolding wview_def by metis
  with w vf(1,2) show ?thesis by auto
qed

lemma map_upt_split:
  assumes "a \<le> (b :: nat)"
  shows "map f [0 ..< b] = map f [0 ..< a] @ map (\<lambda>k. f (a + k)) [0 ..< b - a]"
  using assms by (intro nth_equalityI) (auto simp: nth_append)

lemma copyin_correct:
  assumes "uspace_inv e s fl nd r" "cur_space s r n"
  shows "\<exists>res bs s' fl' nd'. copyin r va len s = Some (res, bs, s') \<and> us_step e r n s fl nd s' fl' nd' \<and>
    (res = 0 \<and> map Some bs = map (\<lambda>k. lview n (mem s) nd (va + of_nat k)) [0 ..< len] \<or>
     res = - 1 \<and> (\<exists>k<len. lview n (mem s) nd (va + of_nat k) = None \<or>
       \<not> present (mem s) nd (va + of_nat k) \<and> length fl' \<le> 1))"
  using assms
proof (induction len arbitrary: va s fl nd rule: less_induct)
  case (less len)
  show ?case
  proof (cases "len = 0")
    case True
    then show ?thesis using us_step_refl [OF less.prems(1)] by (auto simp: copyin.simps)
  next
    case False
    let ?va0 = "PGROUNDDOWN va" and ?n = "chunk va len" and ?V = "\<lambda>k. lview n (mem s) nd (va + of_nat k)"
      and ?P = "\<lambda>k. present (mem s) nd (va + of_nat k)"
    obtain pa0 pa s1 fl1 nd1 where f: "walkaddr r ?va0 s = Some pa0"
      "(if pa0 = 0 then vmfault r ?va0 s else Some (pa0, s)) = Some (pa, s1)" "us_step e r n s fl nd s1 fl1 nd1"
      "pa = 0 \<and> (lview n (mem s) nd ?va0 = None \<or> \<not> present (mem s) nd ?va0 \<and> length fl1 \<le> 1) \<or>
       pa \<noteq> 0 \<and> ?va0 < MAXVA \<and> user_leaf (leaf (mem s1) nd1 ?va0) \<and> PTE2PA (leaf (mem s1) nd1 ?va0) = pa"
      using fetch_page [OF less.prems PGROUNDDOWN_aligned] by metis
    show ?thesis
    proof (cases "pa = 0")
      case True
      have "copyin r va len s = Some (- 1, [], s1)" using False f(1,2) True by (subst copyin.simps) simp
      moreover have "\<exists>k<len. ?V k = None \<or> \<not> ?P k \<and> length fl1 \<le> 1"
        using f(4) True False lview_None_page [of n "mem s" nd va] present_round [of "mem s" nd va]
        by (intro exI [of _ 0]) auto
      ultimately show ?thesis using f(3) by blast
    next
      case pa: False
      have inv1: "uspace_inv e s1 fl1 nd1 r" and view1: "\<And>x. lview n (mem s1) nd1 x = lview n (mem s) nd x"
        and cur1: "cur_space s1 r n"
        using f(3) less.prems(2) cur_space_more by (auto simp: us_step_def)
      let ?bs = "read_bytes (mem s1) (pa + (va - ?va0)) ?n"
      have first: "map Some ?bs = map ?V [0 ..< ?n]"
      proof (rule nth_equalityI)
        fix k assume "k < length (map Some ?bs)"
        then have k: "k < chunk va len" by simp
        have "lview n (mem s1) nd1 (va + of_nat k) = Some (mem s1 (pa + (va + of_nat k - ?va0)))"
          using f(4) pa chunk_page(1) [OF k] by (simp add: lview_def Let_def)
        then have "?V k = Some (mem s1 (pa + (va - ?va0) + of_nat k))"
          unfolding view1 chunk_page(2) [OF k] by (simp only: add.assoc)
        then show "map Some ?bs ! k = map ?V [0 ..< ?n] ! k" using k by (simp add: read_bytes_def)
      qed simp
      have "len - ?n < len" using False by simp
      from less.IH [OF this inv1 cur1, of "?va0 + PGSIZE"]
      obtain res bs s2 fl2 nd2 where IH: "copyin r (?va0 + PGSIZE) (len - ?n) s1 = Some (res, bs, s2)"
        "us_step e r n s1 fl1 nd1 s2 fl2 nd2"
        "res = 0 \<and> map Some bs = map (\<lambda>k. lview n (mem s) nd (?va0 + PGSIZE + of_nat k)) [0 ..< len - ?n] \<or>
         res = - 1 \<and> (\<exists>k<len - ?n. lview n (mem s) nd (?va0 + PGSIZE + of_nat k) = None \<or>
           \<not> present (mem s1) nd1 (?va0 + PGSIZE + of_nat k) \<and> length fl2 \<le> 1)"
        unfolding view1 by blast
      have keep: "present (mem s) nd x \<Longrightarrow> present (mem s1) nd1 x" for x using f(3) unfolding us_step_def by blast
      have shift: "lview n (mem s) nd (?va0 + PGSIZE + of_nat k) = ?V (?n + k)" if "k < len - ?n" for k
        using chunk_next [of va len] that by (simp add: add.assoc)
      have run: "copyin r va len s = Some (res, ?bs @ bs, s2)"
        using False f(1,2) pa IH(1) by (subst copyin.simps) simp
      have step: "us_step e r n s fl nd s2 fl2 nd2" by (rule us_step_trans [OF f(3) IH(2)])
      have "map ?V [0 ..< len] = map ?V [0 ..< ?n] @ map (\<lambda>k. ?V (?n + k)) [0 ..< len - ?n]"
        by (rule map_upt_split) (rule chunk_le)
      also have "map (\<lambda>k. ?V (?n + k)) [0 ..< len - ?n] =
          map (\<lambda>k. lview n (mem s) nd (?va0 + PGSIZE + of_nat k)) [0 ..< len - ?n]"
        using shift by simp
      finally have all: "map ?V [0 ..< len] = map Some ?bs @
          map (\<lambda>k. lview n (mem s) nd (?va0 + PGSIZE + of_nat k)) [0 ..< len - ?n]"
        unfolding first .
      have none: "\<exists>k<len. ?V k = None \<or> \<not> ?P k \<and> length fl2 \<le> 1"
        if "\<exists>k<len - ?n. lview n (mem s) nd (?va0 + PGSIZE + of_nat k) = None \<or>
          \<not> present (mem s1) nd1 (?va0 + PGSIZE + of_nat k) \<and> length fl2 \<le> 1"
      proof -
        from that obtain k where k: "k < len - ?n" "lview n (mem s) nd (?va0 + PGSIZE + of_nat k) = None \<or>
          \<not> present (mem s1) nd1 (?va0 + PGSIZE + of_nat k) \<and> length fl2 \<le> 1" by blast
        have eq: "?va0 + PGSIZE + of_nat k = va + of_nat (?n + k)"
          using chunk_next [of va len] k(1) by (simp add: add.assoc)
        have "?n + k < len" using k(1) by simp
        with k(2) [unfolded eq] keep [of "va + of_nat (?n + k)"] show ?thesis by blast
      qed
      from IH(3) have "res = 0 \<and> map Some (?bs @ bs) = map ?V [0 ..< len] \<or>
          res = - 1 \<and> (\<exists>k<len. ?V k = None \<or> \<not> ?P k \<and> length fl2 \<le> 1)"
        unfolding all map_append using none by (elim disjE conjE) simp_all
      with run step show ?thesis by blast
    qed
  qed
qed

text \<open>Storing into a user page.\<close>

lemma write_user:
  assumes inv: "uspace_inv e s fl nd r" and va0: "PGROUNDDOWN va < MAXVA" "user_leaf (leaf (mem s) nd (PGROUNDDOWN va))"
    and pa: "PTE2PA (leaf (mem s) nd (PGROUNDDOWN va)) = pa" and len: "unat (va - PGROUNDDOWN va) + length bs \<le> 4096"
    and m: "m = write_bytes (mem s) (pa + (va - PGROUNDDOWN va)) bs"
  shows "uspace_inv e (s\<lparr>mem := m\<rparr>) fl nd r" "same_outside {pa} (mem s) m" "pa \<in> upages (mem s) nd"
    "leaf m nd x = leaf (mem s) nd x"
    "lview n m nd x = (if in_range x va (length bs) then Some (bs ! unat (x - va)) else lview n (mem s) nd x)"
proof -
  let ?va0 = "PGROUNDDOWN va" and ?off = "unat (va - PGROUNDDOWN va)"
  have pa0: "page_addr ?va0" by (rule page_addr_PGROUNDDOWN [OF va0(1)])
  note pg = uspace_page [OF inv pa0 va0(2), unfolded pa]
  have pal: "pa mod PGSIZE = 0" using pg(1) unfolding page_ok_def by blast
  have app: "m y = (if in_range y (pa + (va - ?va0)) (length bs) then bs ! unat (y - (pa + (va - ?va0))) else mem s y)" for y
    unfolding m using len by (intro write_bytes_apply) simp
  show out: "same_outside {pa} (mem s) m"
  proof (rule same_outside_change [OF pal])
    fix y assume no: "\<not> in_range y pa 4096"
    have "\<not> in_range y (pa + (va - ?va0)) (length bs)"
    proof
      assume "in_range y (pa + (va - ?va0)) (length bs)"
      then obtain j where j: "j < length bs" "y = pa + (va - ?va0) + of_nat j" by (rule in_rangeE)
      then have "y = pa + of_nat (?off + j)" by (simp add: add.assoc)
      moreover have "in_range (pa + of_nat (?off + j)) pa 4096" using j(1) len by (intro in_range_offset) simp_all
      ultimately show False using no by simp
    qed
    then show "m y = mem s y" by (simp add: app)
  qed
  show "pa \<in> upages (mem s) nd" unfolding upages_def using pa0 va0(2) pa by blast
  note keep = leaf_same_outside [OF uspace_vm [OF inv] out]
  have dis: "ran nd \<inter> {pa} = {}" "set fl \<inter> {pa} = {}" using pg(2,3) by auto
  show lf: "leaf m nd x = leaf (mem s) nd x" for x by (rule keep(2) [OF dis])
  have "upages m nd = upages (mem s) nd" unfolding upages_def lf ..
  then show "uspace_inv e (s\<lparr>mem := m\<rparr>) fl nd r"
    using inv keep(1) [OF dis] unfolding uspace_inv_def by (simp add: lf)
  show "lview n m nd x = (if in_range x va (length bs) then Some (bs ! unat (x - va)) else lview n (mem s) nd x)"
  proof (cases "PGROUNDDOWN x = ?va0")
    case True
    have "m (pa + (x - ?va0)) = (if in_range x va (length bs) then bs ! unat (x - va) else mem s (pa + (x - ?va0)))"
      unfolding app by (simp add: in_range_def)
    with True va0 pa show ?thesis by (simp add: lview_def Let_def lf)
  next
    case False
    have nr: "\<not> in_range x va (length bs)"
    proof
      assume "in_range x va (length bs)"
      then obtain j where j: "j < length bs" "x = va + of_nat j" by (rule in_rangeE)
      then have "j < chunk va (length bs)" using len by (auto simp: chunk_def)
      from chunk_page(1) [OF this] j(2) False show False by simp
    qed
    show ?thesis
    proof (cases "PGROUNDDOWN x < MAXVA \<and> user_leaf (leaf (mem s) nd (PGROUNDDOWN x))")
      case True
      let ?p = "PTE2PA (leaf (mem s) nd (PGROUNDDOWN x))"
      have px: "page_addr (PGROUNDDOWN x)" using True page_addr_PGROUNDDOWN by blast
      have "?p \<noteq> pa" using uspace_inj [OF inv px pa0 conjunct2 [OF True] va0(2)] pa False by auto
      moreover have "?p mod PGSIZE = 0"
        using uspace_page(1) [OF inv px conjunct2 [OF True]] unfolding page_ok_def by blast
      ultimately have "m (?p + of_nat (unat (x - PGROUNDDOWN x))) = mem s (?p + of_nat (unat (x - PGROUNDDOWN x)))"
        using page_offset_lt [of x] by (intro same_outsideD [OF out]) auto
      with True nr show ?thesis by (simp add: lview_def Let_def lf)
    next
      case no: False
      then show ?thesis using nr by (auto simp: lview_def Let_def lf)
    qed
  qed
qed

text \<open>
  The first \<open>k\<close> bytes of \<open>bs\<close> have been stored at \<open>dst\<close> in user memory; besides the pages of the
  pools and of this user, no page has changed.
\<close>

definition out_step ::
  "u64 \<Rightarrow> u64 \<Rightarrow> u64 \<Rightarrow> 'a machine_scheme \<Rightarrow> u64 list \<Rightarrow> nodes \<Rightarrow> 'a machine_scheme \<Rightarrow> u64 list \<Rightarrow> nodes \<Rightarrow>
   u64 \<Rightarrow> u8 list \<Rightarrow> nat \<Rightarrow> bool" where
  "out_step e r n s fl nd s' fl' nd' dst bs k \<longleftrightarrow>
     uspace_inv e s' fl' nd' r \<and> machine.more s' = machine.more s \<and>
     set fl' \<subseteq> set fl \<and> set fl' \<union> ran nd' \<subseteq> set fl \<union> ran nd \<and> upages (mem s') nd' \<subseteq> upages (mem s) nd \<union> set fl \<and>
     same_outside (set fl \<union> ran nd \<union> upages (mem s) nd) (mem s) (mem s') \<and>
     (\<forall>x. lview n (mem s') nd' x =
        (if in_range x dst k then Some (bs ! unat (x - dst)) else lview n (mem s) nd x)) \<and>
     (\<forall>va. PGROUNDDOWN va < MAXVA \<longrightarrow> wview (mem s') nd' va = wview (mem s) nd va) \<and>
     (\<forall>va. present (mem s) nd va \<or> in_range va dst k \<longrightarrow> present (mem s') nd' va)"

lemma us_out_step: "us_step e r n s fl nd s' fl' nd' \<Longrightarrow> out_step e r n s fl nd s' fl' nd' dst bs 0"
  using same_outside_trans [OF _ same_outside_refl, of "set fl \<union> ran nd" "mem s" "mem s'"
      "set fl \<union> ran nd \<union> upages (mem s) nd" "{}"]
  by (simp add: us_step_def out_step_def in_range_def)

lemma in_range_split:
  assumes "i + k < 2 ^ 64"
  shows "in_range x a (i + k) \<longleftrightarrow> in_range x a i \<or> in_range x (a + of_nat i) k"
    and "in_range x (a + of_nat i) k \<Longrightarrow> unat (x - a) = i + unat (x - (a + of_nat i))"
proof -
  have i: "unat (of_nat i :: u64) = i" using assms by (intro unat_of_nat_small) simp
  have eq: "x - (a + of_nat i) = x - a - of_nat i" by (simp only: diff_diff_eq)
  have hi: "unat (x - (a + of_nat i)) = unat (x - a) - i" if "i \<le> unat (x - a)"
    unfolding eq using that i by (subst unat_sub_small) simp_all
  have "\<not> in_range x (a + of_nat i) k" if "unat (x - a) < i"
  proof -
    have "unat (x - a - of_nat i) = 2 ^ 64 + unat (x - a) - i"
      using that i by (simp add: unat_sub_if_size word_size)
    then show ?thesis unfolding in_range_def eq using assms that by linarith
  qed
  with hi show "in_range x a (i + k) \<longleftrightarrow> in_range x a i \<or> in_range x (a + of_nat i) k"
    "in_range x (a + of_nat i) k \<Longrightarrow> unat (x - a) = i + unat (x - (a + of_nat i))"
    by (cases "unat (x - a) < i"; auto simp: in_range_def)+
qed

lemma out_step_trans:
  assumes 1: "out_step e r n s fl nd s1 fl1 nd1 dst (take i bs) i"
    and 2: "out_step e r n s1 fl1 nd1 s2 fl2 nd2 (dst + of_nat i) (drop i bs) k"
    and len: "i + k \<le> length bs" "length bs < 2 ^ 64"
  shows "out_step e r n s fl nd s2 fl2 nd2 dst bs (i + k)"
proof -
  have out: "same_outside (set fl \<union> ran nd \<union> upages (mem s) nd) (mem s) (mem s2)"
    by (rule same_outside_trans) (use 1 2 in \<open>(auto simp: out_step_def)\<close>)
  have view: "lview n (mem s2) nd2 x =
      (if in_range x dst (i + k) then Some (bs ! unat (x - dst)) else lview n (mem s) nd x)" for x
  proof -
    have small: "i + k < 2 ^ 64" using len by simp
    have v2: "lview n (mem s2) nd2 x = (if in_range x (dst + of_nat i) k
        then Some (drop i bs ! unat (x - (dst + of_nat i))) else lview n (mem s1) nd1 x)"
      and v1: "lview n (mem s1) nd1 x = (if in_range x dst i then Some (take i bs ! unat (x - dst)) else lview n (mem s) nd x)"
      using 1 2 unfolding out_step_def by blast+
    show ?thesis
    proof (cases "in_range x (dst + of_nat i) k")
      case True
      then show ?thesis using v2 in_range_split [OF small, of x dst] len by simp
    next
      case False
      then show ?thesis using v1 v2 in_range_split(1) [OF small, of x dst] len by (auto simp: in_range_def)
    qed
  qed
  have pres: "present (mem s2) nd2 x" if "present (mem s) nd x \<or> in_range x dst (i + k)" for x
    using that 1 2 in_range_split(1) [of i k x dst] len unfolding out_step_def by auto
  show ?thesis unfolding out_step_def using out view pres 1 2 by (auto simp: out_step_def)
qed

lemma us_then_out:
  assumes 1: "us_step e r n s fl nd s1 fl1 nd1" and 2: "out_step e r n s1 fl1 nd1 s2 fl2 nd2 dst bs k"
  shows "out_step e r n s fl nd s2 fl2 nd2 dst bs k"
proof -
  have "same_outside (set fl \<union> ran nd \<union> upages (mem s) nd) (mem s) (mem s2)"
    by (rule same_outside_trans) (use 1 2 in \<open>(auto simp: us_step_def out_step_def)\<close>)
  then show ?thesis unfolding out_step_def using 1 2 by (auto simp: us_step_def out_step_def)
qed

lemma write_out_step:
  assumes inv: "uspace_inv e s fl nd r" and va0: "PGROUNDDOWN va < MAXVA" "user_leaf (leaf (mem s) nd (PGROUNDDOWN va))"
    and pa: "PTE2PA (leaf (mem s) nd (PGROUNDDOWN va)) = pa" and len: "unat (va - PGROUNDDOWN va) + length bs \<le> 4096"
  shows "out_step e r n s fl nd (s\<lparr>mem := write_bytes (mem s) (pa + (va - PGROUNDDOWN va)) bs\<rparr>) fl nd va bs (length bs)"
proof -
  note w = write_user [OF inv va0 pa len refl]
  have "same_outside (set fl \<union> ran nd \<union> upages (mem s) nd) (mem s)
      (write_bytes (mem s) (pa + (va - PGROUNDDOWN va)) bs)"
    by (rule same_outside_trans [OF w(2) same_outside_refl [of "{}"]]) (use w(3) in auto)
  moreover have "upages (write_bytes (mem s) (pa + (va - PGROUNDDOWN va)) bs) nd = upages (mem s) nd"
    unfolding upages_def w(4) ..
  moreover have "present (mem s) nd x" if "in_range x va (length bs)" for x
  proof -
    from that obtain j where j: "j < length bs" "x = va + of_nat j" by (rule in_rangeE)
    then have "j < chunk va (length bs)" using len by (auto simp: chunk_def)
    from chunk_page(1) [OF this] j(2) va0 show ?thesis by (simp add: present_def user_leaf_def)
  qed
  ultimately show ?thesis unfolding out_step_def wview_def present_def using w(1,4,5) by (auto simp: present_def)
qed

lemma walk_user_leaf:
  assumes "uspace_inv e s fl nd r" "va < MAXVA" "user_leaf (leaf (mem s) nd va)"
  shows "\<exists>pte. pte \<noteq> 0 \<and> walk r va False s = Some (pte, s) \<and> read64 (mem s) pte = leaf (mem s) nd va"
proof -
  have vm: "vm_inv e s fl nd r" and wf: "pt_wf e (mem s) nd r"
    using assms(1) by (auto simp: uspace_inv_def vm_inv_def)
  obtain q where q: "nd (path 2 va) = Some q"
    using assms(3) by (cases "nd (path 2 va)") (auto simp: leaf_def user_leaf_def)
  then show ?thesis
    using walk_lookup [OF wf assms(2)] slot_nonzero [OF vm q pxi_lt] by (auto simp: leaf_def)
qed

lemma copyout_unfold:
  assumes "src \<noteq> []" "PGROUNDDOWN dst < MAXVA" "walkaddr r (PGROUNDDOWN dst) s = Some pa0"
    and "(if pa0 = 0 then vmfault r (PGROUNDDOWN dst) s else Some (pa0, s)) = Some (pa, s1)"
  shows "copyout r dst src s =
    (if pa = 0 then Some (- 1, s1)
     else do {
       (pte, s) \<leftarrow> walk r (PGROUNDDOWN dst) False s1;
       if pte = 0 then panic ''kerneltrap''
       else if read64 (mem s) pte AND PTE_W = 0 then Some (- 1, s)
       else copyout r (PGROUNDDOWN dst + PGSIZE) (drop (chunk dst (length src)) src)
         (s\<lparr>mem := write_bytes (mem s) (pa + (dst - PGROUNDDOWN dst)) (take (chunk dst (length src)) src)\<rparr>) })"
proof -
  have "\<not> MAXVA \<le> PGROUNDDOWN dst" using assms(2) by simp
  with assms(1,3,4) show ?thesis by (subst copyout.simps) (simp add: Let_def cong: if_cong)
qed

lemma copyout_correct:
  assumes "uspace_inv e s fl nd r" "cur_space s r n" "length src < 2 ^ 64"
  shows "\<exists>res s' fl' nd' k. copyout r dst src s = Some (res, s') \<and> out_step e r n s fl nd s' fl' nd' dst src k \<and>
    (res = 0 \<and> k = length src \<or>
     res = - 1 \<and> k < length src \<and> (lview n (mem s) nd (dst + of_nat k) = None \<or>
       \<not> wview (mem s) nd (dst + of_nat k) \<or> \<not> present (mem s) nd (dst + of_nat k) \<and> length fl' \<le> 1))"
  using assms
proof (induction "length src" arbitrary: dst src s fl nd rule: less_induct)
  case less
  note refl = us_out_step [OF us_step_refl [OF less.prems(1)]]
  let ?va0 = "PGROUNDDOWN dst" and ?n = "chunk dst (length src)"
  obtain pa0 pa s1 fl1 nd1 where f: "walkaddr r ?va0 s = Some pa0"
    "(if pa0 = 0 then vmfault r ?va0 s else Some (pa0, s)) = Some (pa, s1)" "us_step e r n s fl nd s1 fl1 nd1"
    "pa = 0 \<and> (lview n (mem s) nd ?va0 = None \<or> \<not> present (mem s) nd ?va0 \<and> length fl1 \<le> 1) \<or>
     pa \<noteq> 0 \<and> ?va0 < MAXVA \<and> user_leaf (leaf (mem s1) nd1 ?va0) \<and> PTE2PA (leaf (mem s1) nd1 ?va0) = pa \<and>
     (bit (leaf (mem s1) nd1 ?va0) 2 \<longleftrightarrow> wview (mem s) nd ?va0)"
    using fetch_page [OF less.prems(1,2) PGROUNDDOWN_aligned] by metis
  have inv1: "uspace_inv e s1 fl1 nd1 r" using f(3) by (simp add: us_step_def)
  have now: "out_step e r n s fl nd s1 fl1 nd1 dst src 0" by (rule us_out_step [OF f(3)])
  have wv: "wview (mem s) nd ?va0 = wview (mem s) nd dst"
    using PGROUNDDOWN_page_offset [OF PGROUNDDOWN_aligned, of 0 dst] by (simp add: wview_def)
  consider "src = []" | "src \<noteq> []" "\<not> ?va0 < MAXVA" | "src \<noteq> []" "?va0 < MAXVA" "pa = 0"
    | "src \<noteq> []" "?va0 < MAXVA" "pa \<noteq> 0" "\<not> wview (mem s) nd dst"
    | "src \<noteq> []" "?va0 < MAXVA" "pa \<noteq> 0" "wview (mem s) nd dst" by blast
  then show ?case
  proof cases
    case 1
    then have "copyout r dst src s = Some (0, s)" by (simp add: copyout.simps)
    with refl [of n dst src] 1 show ?thesis by (metis list.size(3))
  next
    case 2
    then have "copyout r dst src s = Some (- 1, s)" by (simp add: copyout.simps not_less)
    moreover have "lview n (mem s) nd (dst + of_nat 0) = None" using 2 by (simp add: lview_def Let_def)
    ultimately show ?thesis using refl [of n dst src] 2(1) by (metis length_greater_0_conv)
  next
    case 3
    then have "copyout r dst src s = Some (- 1, s1)" using copyout_unfold [OF 3(1,2) f(1,2)] by simp
    moreover have "lview n (mem s) nd (dst + of_nat 0) = None \<or>
        \<not> present (mem s) nd (dst + of_nat 0) \<and> length fl1 \<le> 1"
      using f(4) 3(3) lview_None_page present_round by auto
    ultimately show ?thesis using now 3(1) by (metis length_greater_0_conv)
  next
    case 4
    have lf: "user_leaf (leaf (mem s1) nd1 ?va0)" "\<not> bit (leaf (mem s1) nd1 ?va0) 2" using f(4) 4(3,4) wv by auto
    from walk_user_leaf [OF inv1 4(2) lf(1)] lf(2) 4(3) copyout_unfold [OF 4(1,2) f(1,2)]
    have "copyout r dst src s = Some (- 1, s1)" by (auto simp: flag_clear_iff)
    moreover have "\<not> wview (mem s) nd (dst + of_nat 0)" using 4(4) by simp
    ultimately show ?thesis using now 4(1) by (metis length_greater_0_conv)
  next
    case 5
    have lf: "user_leaf (leaf (mem s1) nd1 ?va0)" "PTE2PA (leaf (mem s1) nd1 ?va0) = pa"
      "bit (leaf (mem s1) nd1 ?va0) 2" using f(4) 5(3,4) wv by auto
    let ?bs = "take ?n src" and ?s2 = "s1\<lparr>mem := write_bytes (mem s1) (pa + (dst - ?va0)) (take ?n src)\<rparr>"
    have lb: "length ?bs = ?n" using chunk_le [of dst "length src"] by simp
    have "unat (dst - ?va0) + length ?bs \<le> 4096" unfolding lb using page_offset_lt [of dst] by (simp add: chunk_def)
    from us_then_out [OF f(3) write_out_step [OF inv1 5(2) lf(1,2) this]]
    have first: "out_step e r n s fl nd ?s2 fl1 nd1 dst ?bs ?n" unfolding lb .
    from walk_user_leaf [OF inv1 5(2) lf(1)] lf(3) 5(3) copyout_unfold [OF 5(1,2) f(1,2)]
    have run: "copyout r dst src s = copyout r (?va0 + PGSIZE) (drop ?n src) ?s2"
      by (auto simp: flag_clear_iff)
    have "length (drop ?n src) < length src" using 5(1) by simp
    moreover have "uspace_inv e ?s2 fl1 nd1 r" "cur_space ?s2 r n"
      using first less.prems(2) cur_space_more [of ?s2 s] by (auto simp: out_step_def)
    ultimately obtain res s3 fl3 nd3 k where IH:
      "copyout r (?va0 + PGSIZE) (drop ?n src) ?s2 = Some (res, s3)"
      "out_step e r n ?s2 fl1 nd1 s3 fl3 nd3 (?va0 + PGSIZE) (drop ?n src) k"
      "res = 0 \<and> k = length (drop ?n src) \<or> res = - 1 \<and> k < length (drop ?n src) \<and>
        (lview n (mem ?s2) nd1 (?va0 + PGSIZE + of_nat k) = None \<or>
         \<not> wview (mem ?s2) nd1 (?va0 + PGSIZE + of_nat k) \<or>
         \<not> present (mem ?s2) nd1 (?va0 + PGSIZE + of_nat k) \<and> length fl3 \<le> 1)"
      using less.hyps [of "drop ?n src" ?s2 fl1 nd1 "?va0 + PGSIZE"] less.prems(3) by auto
    show ?thesis
    proof (cases "?n < length src")
      case False
      then have k: "k = 0" "res = 0" "?n = length src" using IH(3) lb by auto
      then have "?va0 + PGSIZE = ?va0 + PGSIZE" "out_step e r n ?s2 fl1 nd1 s3 fl3 nd3 (dst + of_nat ?n) (drop ?n src) 0"
        using IH(2) by (auto simp: out_step_def in_range_def)
      from out_step_trans [OF first this(2)] k less.prems(3) run IH(1) show ?thesis by auto
    next
      case True
      have nx: "?va0 + PGSIZE = dst + of_nat ?n" by (rule chunk_next [OF True])
      have k: "?n + k \<le> length src" using IH(3) True by auto
      note all = out_step_trans [OF first IH(2) [unfolded nx] k less.prems(3)]
      show ?thesis
      proof (cases "res = 0")
        case ok: True
        then have "?n + k = length src" using IH(3) True by auto
        with all ok run IH(1) show ?thesis by metis
      next
        case no: False
        let ?x = "dst + of_nat (?n + k)"
        have lt: "?n + k < length src" and fail: "lview n (mem ?s2) nd1 ?x = None \<or>
            \<not> wview (mem ?s2) nd1 ?x \<or> \<not> present (mem ?s2) nd1 ?x \<and> length fl3 \<le> 1"
          and m1: "res = - 1"
          using IH(3) no unfolding nx by (auto simp: add.assoc)
        have "\<not> in_range ?x dst ?n" using lt less.prems(3) unat_diff_offset [of "?n + k" dst] by (simp only: in_range_def)
        then have "lview n (mem ?s2) nd1 ?x = lview n (mem s) nd ?x" using first unfolding out_step_def by simp
        moreover have "lview n (mem s) nd ?x = None \<or> wview (mem ?s2) nd1 ?x = wview (mem s) nd ?x"
          using first unfolding out_step_def by (cases "PGROUNDDOWN ?x < MAXVA") (auto simp: lview_def Let_def)
        moreover have "present (mem s) nd ?x \<Longrightarrow> present (mem ?s2) nd1 ?x" using first unfolding out_step_def by blast
        ultimately have "lview n (mem s) nd ?x = None \<or> \<not> wview (mem s) nd ?x \<or>
            \<not> present (mem s) nd ?x \<and> length fl3 \<le> 1" using fail by auto
        with all lt m1 run IH(1) show ?thesis by metis
      qed
    qed
  qed
qed

subsection \<open>A sample address space\<close>

text \<open>One user page at address 0, mapped readable and writable, and a process that owns it.\<close>

lemma pt_wf_empty:
  assumes "page_ok e r"
  shows "pt_wf e (\<lambda>_. 0) [[] \<mapsto> r] r"
proof -
  have "read64 (\<lambda>_. 0) a = 0" for a by (rule read64_zero) simp
  with assms show ?thesis by (auto simp: pt_wf_def split: if_splits)
qed

definition sample_mem1 :: memory where
  "sample_mem1 = write64 (\<lambda>_. 0) (slot 0x80030000 0) (PA2PTE 0x80031000 OR PTE_V)"

definition sample_mem2 :: memory where
  "sample_mem2 = write64 sample_mem1 (slot 0x80031000 0) (PA2PTE 0x80032000 OR PTE_V)"

definition sample_nd :: nodes where
  "sample_nd = [[] \<mapsto> 0x80030000, [0] \<mapsto> 0x80031000, [0, 0] \<mapsto> 0x80032000]"

definition sample_state :: kproc where
  "sample_state = (kproc_zero 0x80021000)
     \<lparr>mem := write64 sample_mem2 (slot 0x80032000 0) (PA2PTE 0x80033000 OR PTE_RWU OR PTE_V),
      procs := replicate 64 (proc_zero\<lparr>pagetable := 0x80030000, sz := 4096\<rparr>),
      cpus := replicate 8 (cpu_zero\<lparr>cpu_proc := Some 0\<rparr>)\<rparr>"

lemma sample_pages:
  "page_ok 0x80021000 0x80030000" "page_ok 0x80021000 0x80031000" "page_ok 0x80021000 0x80032000"
  "page_ok 0x80021000 0x80033000"
  by (simp_all add: page_ok_def PHYSTOP_def KERNBASE_def)

lemma sample_mem_zero:
  assumes "k < 4096"
  shows "sample_mem1 (0x80032000 + of_nat k) = 0" "sample_mem2 (0x80033000 + of_nat k) = 0"
    "sample_mem2 (0x80032000 + of_nat k) = 0"
proof -
  have out1: "same_outside {0x80030000} (\<lambda>_. 0) sample_mem1"
    unfolding sample_mem1_def by (rule same_outside_slot) simp_all
  have out2: "same_outside {0x80031000} sample_mem1 sample_mem2"
    unfolding sample_mem2_def by (rule same_outside_slot) simp_all
  show "sample_mem1 (0x80032000 + of_nat k) = 0"
    using same_outsideD [where p = "0x80032000", OF out1 _ _ assms] by simp
  then show "sample_mem2 (0x80032000 + of_nat k) = 0"
    using same_outsideD [where p = "0x80032000", OF out2 _ _ assms] by simp
  show "sample_mem2 (0x80033000 + of_nat k) = 0"
    using same_outsideD [where p = "0x80033000", OF out2 _ _ assms] same_outsideD [where p = "0x80033000", OF out1 _ _ assms] by simp
qed

lemma sample_pt_wf: "pt_wf 0x80021000 sample_mem2 sample_nd 0x80030000"
proof -
  have "pt_wf 0x80021000 sample_mem1 ((Map.empty([] \<mapsto> 0x80030000))([] @ [0] \<mapsto> 0x80031000)) 0x80030000"
    unfolding sample_mem1_def
    by (rule new_table_wf [OF pt_wf_empty [OF sample_pages(1)]]) (use sample_pages in simp_all)
  then have "pt_wf 0x80021000 sample_mem2
      ((Map.empty([] \<mapsto> 0x80030000))([] @ [0] \<mapsto> 0x80031000, [0] @ [0] \<mapsto> 0x80032000)) 0x80030000"
    unfolding sample_mem2_def
    by (rule new_table_wf) (use sample_pages sample_mem_zero(1) in simp_all)
  then show ?thesis by (simp add: sample_nd_def)
qed

lemma sample_leaf2: "page_addr va \<Longrightarrow> leaf sample_mem2 sample_nd va = 0"
  using read64_zero_page [OF pxi_lt, of sample_mem2 "0x80032000" 0 va] sample_mem_zero(3)
  by (auto simp: leaf_def sample_nd_def numeral_2_eq_2 split: option.splits if_splits)

lemma sample_uspace:
  "uspace_inv 0x80021000 sample_state [] sample_nd 0x80030000" "cur_space sample_state 0x80030000 4096"
  "page_addr va \<Longrightarrow> leaf (mem sample_state) sample_nd va =
    (if va = 0 then PA2PTE 0x80033000 OR PTE_RWU OR PTE_V else 0)"
  "k < 4096 \<Longrightarrow> mem sample_state (0x80033000 + of_nat k) = 0"
proof -
  let ?s = "sample_state\<lparr>mem := sample_mem2\<rparr>"
  have px: "pxi l 0 = 0" for l by (simp add: pxi_def PX_def)
  have ran: "ran sample_nd = {0x80030000, 0x80031000, 0x80032000}"
    by (auto simp: sample_nd_def ran_def)
  have "kalloc_inv 0x80021000 ?s []" by (simp add: kalloc_inv_def sample_state_def kproc_zero_def)
  then have vm2: "vm_inv 0x80021000 ?s [] sample_nd 0x80030000" using sample_pt_wf by (simp add: vm_inv_def)
  have q: "sample_nd (path 2 0) = Some 0x80032000" by (simp add: sample_nd_def numeral_2_eq_2 px)
  have "sample_state = ?s\<lparr>mem := write64 (mem ?s) (slot 0x80032000 (pxi 0 0)) (PA2PTE 0x80033000 OR PTE_RWU OR PTE_V)\<rparr>"
    by (simp add: sample_state_def px)
  note set0 = set_leaf [OF vm2 q _ _ this]
  have vm: "vm_inv 0x80021000 sample_state [] sample_nd 0x80030000" by (rule set0(1)) (simp_all add: word_less_nat_alt)
  show lf: "leaf (mem sample_state) sample_nd va = (if va = 0 then PA2PTE 0x80033000 OR PTE_RWU OR PTE_V else 0)"
    if "page_addr va" for va
    using set0(3) [of va] that sample_leaf2 [OF that] by (auto simp: page_addr_def word_less_nat_alt)
  note E = user_entry [OF sample_pages(4)]
  have "upages (mem sample_state) sample_nd \<subseteq> {0x80033000}"
    using lf E by (auto simp: upages_def user_leaf_def split: if_splits)
  moreover have "va = va'" if "page_addr va" "page_addr va'" "user_leaf (leaf (mem sample_state) sample_nd va)"
    "user_leaf (leaf (mem sample_state) sample_nd va')" for va va'
    using that lf [OF that(1)] lf [OF that(2)] by (auto simp: user_leaf_def split: if_splits)
  ultimately show "uspace_inv 0x80021000 sample_state [] sample_nd 0x80030000"
    using vm sample_pages(4) unfolding uspace_inv_def ran by auto
  show "cur_space sample_state 0x80030000 4096"
    by (auto simp: cur_space_def sample_state_def kproc_zero_def myproc_def mycpu_def cpuid_def word_le_nat_alt)
  have out: "same_outside {0x80032000} sample_mem2 (mem sample_state)"
    unfolding sample_state_def by (simp, rule same_outside_slot) simp_all
  show "mem sample_state (0x80033000 + of_nat k) = 0" if "k < 4096"
    using same_outsideD [where p = "0x80033000", OF out _ _ that] sample_mem_zero(2) [OF that] by simp
qed

lemma sample_view:
  assumes "va < 4096"
  shows "lview 4096 (mem sample_state) sample_nd va = Some 0" "present (mem sample_state) sample_nd va"
    "wview (mem sample_state) sample_nd va"
proof -
  have lt: "unat va < 4096" using assms by (simp add: word_less_nat_alt)
  then have r: "PGROUNDDOWN va = 0" using PGROUNDDOWN_page_offset [of 0 "unat va"] by simp
  have p0: "page_addr 0" by (simp add: page_addr_def word_less_nat_alt)
  note E = user_entry [OF sample_pages(4)]
  note lf = sample_uspace(3) [OF p0]
  have "mem sample_state (0x80033000 + of_nat (unat va)) = 0" by (rule sample_uspace(4) [OF lt])
  then show "lview 4096 (mem sample_state) sample_nd va = Some 0"
    using E lf p0 r by (simp add: lview_def page_addr_def)
  show "present (mem sample_state) sample_nd va" "wview (mem sample_state) sample_nd va"
    using E lf p0 r by (simp_all add: present_def wview_def page_addr_def user_leaf_def)
qed

subsection \<open>Properties\<close>

text \<open>
  C14. \<^verbatim>\<open>mappages\<close> maps exactly the range it is given. For \<open>n + 1\<close> pages from \<open>va\<close>, below \<^verbatim>\<open>MAXVA\<close> and none
  of them mapped, it never panics; it returns 0 with every page of the range mapped to its
  physical page and every other leaf entry unchanged, or -1, with the free list empty and a
  proper first part of the range mapped. Outside the free list and the table nothing changes.
\<close>

theorem mappages_range:
  assumes "vm_inv e s fl nd r" "va mod PGSIZE = 0" "unat va + 4096 * n < 2 ^ 38"
    and "\<And>a. page_addr a \<Longrightarrow> in_range a va (4096 * Suc n) \<Longrightarrow> leaf (mem s) nd a AND PTE_V = 0"
  shows "\<exists>res s' fl' nd' k. mappages r va (of_nat (4096 * Suc n)) pa perm s = Some (res, s') \<and>
    vm_inv e s' fl' nd' r \<and> same_outside (set fl \<union> ran nd) (mem s) (mem s') \<and>
    (\<forall>a. page_addr a \<longrightarrow> leaf (mem s') nd' a =
       (if in_range a va (4096 * k) then PA2PTE (pa + (a - va)) OR perm OR PTE_V else leaf (mem s) nd a)) \<and>
    (res = 0 \<and> k = Suc n \<or> res = - 1 \<and> k \<le> n \<and> fl' = [])"
  using mappages_correct [OF assms, of pa perm] unfolding mapped_part_def map_range_def by blast

theorem mappages_range_witness:
  "\<exists>res s'. mappages 0x80030000 0x1000 0x2000 0x80040000 PTE_RWU sample_state = Some (res, s') \<and>
    (res = 0 \<or> res = - 1)"
proof -
  have "leaf (mem sample_state) sample_nd a AND PTE_V = 0"
    if "page_addr a" "in_range a 0x1000 (4096 * Suc 1)" for a
    using that sample_uspace(3) [OF that(1)] by (auto simp: in_range_def)
  from mappages_range [where va = "0x1000" and n = 1 and pa = "0x80040000" and perm = PTE_RWU,
    OF uspace_vm [OF sample_uspace(1)] _ _ this]
  show ?thesis by auto
qed

text \<open>
  C15. \<^verbatim>\<open>copyin\<close> reads user memory as the process would, lazily allocated pages included. It never
  panics; on success it returns the bytes of the view, and it returns -1 only when some byte of the
  range is not in the address space or an untouched page could not be allocated. In every case
  the view is the same afterwards, although pages may have been allocated.
\<close>

theorem copyin_view:
  assumes "uspace_inv e s fl nd r" "cur_space s r n"
  shows "\<exists>res bs s' fl' nd'. copyin r va len s = Some (res, bs, s') \<and> uspace_inv e s' fl' nd' r \<and>
    (\<forall>x. lview n (mem s') nd' x = lview n (mem s) nd x) \<and>
    (res = 0 \<and> map Some bs = map (\<lambda>k. lview n (mem s) nd (va + of_nat k)) [0 ..< len] \<or>
     res = - 1 \<and> (\<exists>k<len. lview n (mem s) nd (va + of_nat k) = None \<or>
       \<not> present (mem s) nd (va + of_nat k) \<and> length fl' \<le> 1))"
  using copyin_correct [OF assms, of va len] unfolding us_step_def by blast

theorem copyin_view_witness:
  "\<exists>s'. copyin 0x80030000 8 2 sample_state = Some (0, [0, 0], s')"
proof -
  have v: "lview 4096 (mem sample_state) sample_nd (8 + of_nat k) = Some 0"
    "present (mem sample_state) sample_nd (8 + of_nat k)" if "k < 2" for k :: nat
  proof -
    have "k = 0 \<or> k = 1" using that by auto
    then have "8 + of_nat k < (4096 :: u64)" by auto
    then show "lview 4096 (mem sample_state) sample_nd (8 + of_nat k) = Some 0"
      "present (mem sample_state) sample_nd (8 + of_nat k)" by (rule sample_view)+
  qed
  from copyin_view [OF sample_uspace(1,2), of 8 2] v obtain bs s' where
    "copyin 0x80030000 8 2 sample_state = Some (0, bs, s')"
    "map Some bs = map (\<lambda>k. lview 4096 (mem sample_state) sample_nd (8 + of_nat k)) [0 ..< 2]" by fastforce
  moreover from this(2) have "bs = [0, 0]" using v(1) [of 0] v(1) [of 1] by (auto simp: upt_rec)
  ultimately show ?thesis by blast
qed

text \<open>
  C16. What \<^verbatim>\<open>copyout\<close> stored, \<^verbatim>\<open>copyin\<close> returns: after a successful \<^verbatim>\<open>copyout\<close> of \<open>src\<close> to \<open>dst\<close>, a
  \<^verbatim>\<open>copyin\<close> of as many bytes from \<open>dst\<close> succeeds, also across page boundaries, and gives \<open>src\<close> back.
\<close>

theorem copyout_copyin:
  assumes "uspace_inv e s fl nd r" "cur_space s r n" "length src < 2 ^ 64"
    and "copyout r dst src s = Some (0, s')"
  shows "\<exists>s''. copyin r dst (length src) s' = Some (0, src, s'')"
proof -
  from copyout_correct [OF assms(1-3), of dst] assms(4) obtain fl' nd'
    where o: "out_step e r n s fl nd s' fl' nd' dst src (length src)" by auto
  have view: "lview n (mem s') nd' (dst + of_nat k) = Some (src ! k)" "present (mem s') nd' (dst + of_nat k)"
    if "k < length src" for k
    using o that assms(3) in_range_offset [of k "length src" dst] unat_diff_offset [of k dst]
    unfolding out_step_def by (auto simp: unat_of_nat_small)
  have "uspace_inv e s' fl' nd' r" "cur_space s' r n"
    using o assms(2) cur_space_more [of s' s] by (auto simp: out_step_def)
  from copyin_correct [OF this, of dst "length src"] view obtain bs s'' where
    "copyin r dst (length src) s' = Some (0, bs, s'')"
    "map Some bs = map (\<lambda>k. lview n (mem s') nd' (dst + of_nat k)) [0 ..< length src]" by fastforce
  moreover have "map (\<lambda>k. lview n (mem s') nd' (dst + of_nat k)) [0 ..< length src] = map Some src"
    using view(1) by (intro nth_equalityI) simp_all
  ultimately show ?thesis by (metis list.inj_map_strong option.inject)
qed

theorem copyout_copyin_witness:
  "\<exists>s' s''. copyout 0x80030000 8 [7, 9] sample_state = Some (0, s') \<and>
    copyin 0x80030000 8 2 s' = Some (0, [7, 9], s'')"
proof -
  have v: "lview 4096 (mem sample_state) sample_nd (8 + of_nat k) \<noteq> None"
    "wview (mem sample_state) sample_nd (8 + of_nat k)" "present (mem sample_state) sample_nd (8 + of_nat k)"
    if "k < 2" for k :: nat
  proof -
    have "k = 0 \<or> k = 1" using that by auto
    then have "8 + of_nat k < (4096 :: u64)" by auto
    from sample_view [OF this] show "lview 4096 (mem sample_state) sample_nd (8 + of_nat k) \<noteq> None"
      "wview (mem sample_state) sample_nd (8 + of_nat k)" "present (mem sample_state) sample_nd (8 + of_nat k)" by simp_all
  qed
  have len: "length [7 :: u8, 9] < 2 ^ 64" by simp
  from copyout_correct [OF sample_uspace(1,2) len, of 8] obtain res s' and fl' :: "u64 list" and k :: nat where
    c: "copyout 0x80030000 8 [7, 9] sample_state = Some (res, s')" and
    r: "res = 0 \<or> k < length [7 :: u8, 9] \<and> (lview 4096 (mem sample_state) sample_nd (8 + of_nat k) = None \<or>
       \<not> wview (mem sample_state) sample_nd (8 + of_nat k) \<or>
       \<not> present (mem sample_state) sample_nd (8 + of_nat k) \<and> length fl' \<le> 1)" by blast
  have "res = 0"
  proof (rule ccontr)
    assume "res \<noteq> 0"
    with r have "k < 2" by simp
    from r v [OF this] \<open>res \<noteq> 0\<close> show False by blast
  qed
  then have s': "copyout 0x80030000 8 [7, 9] sample_state = Some (0, s')" using c by simp
  obtain s'' where "copyin 0x80030000 8 (length [7 :: u8, 9]) s' = Some (0, [7, 9], s'')"
    using copyout_copyin [OF sample_uspace(1,2) len s'] by blast
  then have "copyin 0x80030000 8 2 s' = Some (0, [7, 9], s'')" by (simp add: numeral_2_eq_2)
  with s' show ?thesis by blast
qed

text \<open>
  C17. \<^verbatim>\<open>copyout\<close> writes to one process only. Whatever the address, the length and the outcome, a page of
  physical memory that is not free, not a table of the page table and not a user page of it
  keeps every byte (in particular the pages of the kernel and of other processes), and nothing
  but memory and the allocator changes.
\<close>

theorem copyout_isolation:
  assumes "uspace_inv e s fl nd r" "cur_space s r n" "length src < 2 ^ 64"
    and "p mod PGSIZE = 0" "p \<notin> set fl \<union> ran nd \<union> upages (mem s) nd" "k < 4096"
  shows "\<exists>res s'. copyout r dst src s = Some (res, s') \<and> mem s' (p + of_nat k) = mem s (p + of_nat k) \<and>
    procs s' = procs s \<and> myproc s' = myproc s"
proof -
  from copyout_correct [OF assms(1-3), of dst] obtain res s' fl' nd' j where
    c: "copyout r dst src s = Some (res, s')" and o: "out_step e r n s fl nd s' fl' nd' dst src j" by blast
  from o have m: "machine.more s' = machine.more s"
    and so: "same_outside (set fl \<union> ran nd \<union> upages (mem s) nd) (mem s) (mem s')" by (simp_all add: out_step_def)
  then show ?thesis using c same_outsideD [OF so assms(4,5,6)] more_procs [OF m] by simp
qed

theorem copyout_isolation_witness:
  "\<exists>res s'. copyout 0x80030000 8 [7, 9] sample_state = Some (res, s') \<and> mem s' 0x80034007 = mem sample_state 0x80034007"
proof -
  have "(0x80034000 :: u64) \<notin> set [] \<union> ran sample_nd \<union> upages (mem sample_state) sample_nd"
    using sample_uspace(3) user_entry [OF sample_pages(4)]
    by (auto simp: sample_nd_def upages_def user_leaf_def split: if_splits)
  from copyout_isolation [OF sample_uspace(1,2) _ _ this, of "[7, 9]" 7 8] show ?thesis by auto
qed

end
