(* ===== verification/Proc.thy ===== *)
theory Proc
  imports Vm_User
begin

section \<open>Processes\<close>

text \<open>
  \<^verbatim>\<open>kernel/proc.c\<close> without the scheduler, which is in the theory of the lottery, and without
  \<^verbatim>\<open>kfork\<close>, \<^verbatim>\<open>kexit\<close> and \<^verbatim>\<open>forkret\<close>, which need the file system. Two linker symbols are
  arguments: \<open>tramp\<close>, the physical address of the trampoline page, and \<open>fkret\<close>, the address
  of \<^verbatim>\<open>forkret\<close>.

  The operations of the second half give up the CPU. \<^verbatim>\<open>swtch\<close> exchanges the callee-saved
  registers \<open>regs\<close> of the CPU with a saved context; an operation that sleeps is the code up to
  that exchange and, as a second definition, the code after it.
\<close>

subsection \<open>The trap frame\<close>

text \<open>The fields of \<^verbatim>\<open>struct trapframe\<close> in order; each takes eight bytes of the trap frame page.\<close>

datatype tfreg =
    Kernel_satp | Kernel_sp | Kernel_trap | Epc | Kernel_hartid
  | Ra | Sp | Gp | Tp | T0 | T1 | T2 | S0 | S1
  | A0 | A1 | A2 | A3 | A4 | A5 | A6 | A7
  | S2 | S3 | S4 | S5 | S6 | S7 | S8 | S9 | S10 | S11
  | T3 | T4 | T5 | T6

primrec tf_off :: "tfreg \<Rightarrow> u64" where
  "tf_off Kernel_satp = 0"
| "tf_off Kernel_sp = 8"
| "tf_off Kernel_trap = 16"
| "tf_off Epc = 24"
| "tf_off Kernel_hartid = 32"
| "tf_off Ra = 40"
| "tf_off Sp = 48"
| "tf_off Gp = 56"
| "tf_off Tp = 64"
| "tf_off T0 = 72"
| "tf_off T1 = 80"
| "tf_off T2 = 88"
| "tf_off S0 = 96"
| "tf_off S1 = 104"
| "tf_off A0 = 112"
| "tf_off A1 = 120"
| "tf_off A2 = 128"
| "tf_off A3 = 136"
| "tf_off A4 = 144"
| "tf_off A5 = 152"
| "tf_off A6 = 160"
| "tf_off A7 = 168"
| "tf_off S2 = 176"
| "tf_off S3 = 184"
| "tf_off S4 = 192"
| "tf_off S5 = 200"
| "tf_off S6 = 208"
| "tf_off S7 = 216"
| "tf_off S8 = 224"
| "tf_off S9 = 232"
| "tf_off S10 = 240"
| "tf_off S11 = 248"
| "tf_off T3 = 256"
| "tf_off T4 = 264"
| "tf_off T5 = 272"
| "tf_off T6 = 280"

definition tf_get :: "'a kproc_scheme \<Rightarrow> nat \<Rightarrow> tfreg \<Rightarrow> u64" where
  "tf_get s i r = read64 (mem s) (trapframe (procs s ! i) + tf_off r)"

definition tf_set :: "nat \<Rightarrow> tfreg \<Rightarrow> u64 \<Rightarrow> 'a kproc_scheme \<Rightarrow> 'a kproc_scheme" where
  "tf_set i r v s = s\<lparr>mem := write64 (mem s) (trapframe (procs s ! i) + tf_off r) v\<rparr>"

subsection \<open>The process table\<close>

definition procinit :: "'a kproc_scheme \<Rightarrow> 'a kproc_scheme" where
  "procinit s = s\<lparr>procs := map (\<lambda>i. (procs s ! i)\<lparr>state := UNUSED, kstack := KSTACK i\<rparr>) [0 ..< NPROC]\<rparr>"

definition allocpid :: "'a kproc_scheme \<Rightarrow> cint \<times> 'a kproc_scheme" where
  "allocpid s = (nextpid s, s\<lparr>nextpid := nextpid s + 1\<rparr>)"

definition proc_pagetable ::
  "u64 \<Rightarrow> u64 \<Rightarrow> 'a machine_scheme \<Rightarrow> (u64 \<times> 'a machine_scheme) option" where
  "proc_pagetable tramp tf s =
     (let (pt, s) = uvmcreate s in
      if pt = 0 then Some (0, s)
      else do {
        (r, s) \<leftarrow> mappages pt TRAMPOLINE PGSIZE tramp (PTE_R OR PTE_X) s;
        if r <s 0 then do { s \<leftarrow> uvmfree pt 0 s; Some (0, s) }
        else do {
          (r, s) \<leftarrow> mappages pt TRAPFRAME PGSIZE tf (PTE_R OR PTE_W) s;
          if r <s 0 then do {
            s \<leftarrow> uvmunmap pt TRAMPOLINE 1 False s;
            s \<leftarrow> uvmfree pt 0 s;
            Some (0, s) }
          else Some (pt, s) } })"

definition proc_freepagetable :: "u64 \<Rightarrow> u64 \<Rightarrow> 'a machine_scheme \<Rightarrow> 'a machine_scheme option" where
  "proc_freepagetable pt nbytes s = do {
     s \<leftarrow> uvmunmap pt TRAMPOLINE 1 False s;
     s \<leftarrow> uvmunmap pt TRAPFRAME 1 False s;
     uvmfree pt nbytes s }"

definition freeproc :: "nat \<Rightarrow> 'a kproc_scheme \<Rightarrow> 'a kproc_scheme option" where
  "freeproc i s = do {
     s \<leftarrow> (if trapframe (procs s ! i) \<noteq> 0 then kfree (trapframe (procs s ! i)) s else Some s);
     let s = upd_proc i (\<lambda>p. p\<lparr>trapframe := 0\<rparr>) s;
     s \<leftarrow> (if pagetable (procs s ! i) \<noteq> 0
           then proc_freepagetable (pagetable (procs s ! i)) (sz (procs s ! i)) s else Some s);
     Some (upd_proc i (\<lambda>p. p\<lparr>pagetable := 0, sz := 0, pid := 0, parent := None,
             name := (name p)[0 := 0], p_chan := NoChan, killed := 0, xstate := 0, state := UNUSED\<rparr>) s) }"

text \<open>The loop at the start of \<^verbatim>\<open>allocproc\<close>: the first UNUSED entry.\<close>

fun find_unused :: "proc list \<Rightarrow> nat \<Rightarrow> nat option" where
  "find_unused [] i = None"
| "find_unused (p # ps) i = (if state p = UNUSED then Some i else find_unused ps (Suc i))"

definition allocproc :: "u64 \<Rightarrow> u64 \<Rightarrow> 'a kproc_scheme \<Rightarrow> (nat option \<times> 'a kproc_scheme) option" where
  "allocproc tramp fkret s =
     (case find_unused (procs s) 0 of
        None \<Rightarrow> Some (None, s)
      | Some i \<Rightarrow>
          let (pd, s) = allocpid s;
              s = upd_proc i (\<lambda>p. p\<lparr>pid := pd, tickets := 10, state := USED\<rparr>) s;
              (tf, s) = kalloc s;
              s = upd_proc i (\<lambda>p. p\<lparr>trapframe := tf\<rparr>) s
          in if tf = 0 then do { s \<leftarrow> freeproc i s; Some (None, s) }
             else do {
               (pt, s) \<leftarrow> proc_pagetable tramp tf s;
               let s = upd_proc i (\<lambda>p. p\<lparr>pagetable := pt\<rparr>) s;
               if pt = 0 then do { s \<leftarrow> freeproc i s; Some (None, s) }
               else Some (Some i, upd_proc i (\<lambda>p. p\<lparr>p_context :=
                      \<lparr>ctx_ra = fkret, ctx_sp = kstack p + PGSIZE, ctx_s = replicate 12 0\<rparr>\<rparr>) s) })"

definition growproc :: "cint \<Rightarrow> 'a kproc_scheme \<Rightarrow> (cint \<times> 'a kproc_scheme) option" where
  "growproc n s =
     (case myproc s of None \<Rightarrow> panic ''kerneltrap''
      | Some i \<Rightarrow>
        let p = procs s ! i in
        if 0 <s n then
          if sz p + scast n > TRAPFRAME then Some (- 1, s)
          else do {
            (nsz, s) \<leftarrow> uvmalloc (pagetable p) (sz p) (sz p + scast n) PTE_W s;
            if nsz = 0 then Some (- 1, s) else Some (0, upd_proc i (\<lambda>p. p\<lparr>sz := nsz\<rparr>) s) }
        else if n <s 0 then do {
          (nsz, s) \<leftarrow> uvmdealloc (pagetable p) (sz p) (sz p + scast n) s;
          Some (0, upd_proc i (\<lambda>p. p\<lparr>sz := nsz\<rparr>) s) }
        else Some (0, upd_proc i (\<lambda>p. p\<lparr>sz := sz p\<rparr>) s))"

subsection \<open>Sleeping and waking up\<close>

text \<open>\<^verbatim>\<open>swtch\<close> of \<^verbatim>\<open>swtch.S\<close>: the saved context and the registers loaded from the other one.\<close>

definition swtch :: "swtch_context \<Rightarrow> swtch_context \<Rightarrow> swtch_context \<times> swtch_context" where
  "swtch regs new = (regs, new)"

text \<open>
  \<^verbatim>\<open>sched\<close> up to the switch to the scheduler. \<open>held\<close> is \<^verbatim>\<open>holding(&p->lock)\<close>, \<open>nf\<close> the nesting depth
  of the CPU and \<open>intr\<close> whether interrupts are on. The result has the registers the scheduler
  continues with and the value of \<^verbatim>\<open>intena\<close>, which the code keeps on its stack.
\<close>

definition sched ::
  "bool \<Rightarrow> cint \<Rightarrow> bool \<Rightarrow> swtch_context \<Rightarrow> 'a kproc_scheme \<Rightarrow> (bool \<times> swtch_context \<times> 'a kproc_scheme) option" where
  "sched held nf intr regs s =
     (case myproc s of None \<Rightarrow> panic ''kerneltrap''
      | Some i \<Rightarrow>
        if \<not> held then panic ''sched p->lock''
        else if nf \<noteq> 1 then panic ''sched locks''
        else if state (procs s ! i) = RUNNING then panic ''sched RUNNING''
        else if intr then panic ''sched interruptible''
        else
          let (saved, regs') = swtch regs (cpu_context (mycpu s)) in
          Some (intena (mycpu s), regs', upd_proc i (\<lambda>p. p\<lparr>p_context := saved\<rparr>) s))"

text \<open>\<^verbatim>\<open>sched\<close> after the switch back, possibly on another CPU.\<close>

definition sched_resume :: "bool \<Rightarrow> 'a kproc_scheme \<Rightarrow> 'a kproc_scheme" where
  "sched_resume ie s = upd_cpu (\<lambda>c. c\<lparr>intena := ie\<rparr>) s"

text \<open>
  \<^verbatim>\<open>yield\<close> and \<^verbatim>\<open>sleep\<close> hold exactly \<^verbatim>\<open>p->lock\<close> when they call \<^verbatim>\<open>sched\<close>, so the nesting depth is 1
  and interrupts are off.
\<close>

definition yield ::
  "swtch_context \<Rightarrow> 'a kproc_scheme \<Rightarrow> (bool \<times> swtch_context \<times> 'a kproc_scheme) option" where
  "yield regs s =
     (case myproc s of None \<Rightarrow> panic ''kerneltrap''
      | Some i \<Rightarrow> sched True 1 False regs (upd_proc i (\<lambda>p. p\<lparr>state := RUNNABLE\<rparr>) s))"

definition sleep ::
  "chan \<Rightarrow> swtch_context \<Rightarrow> 'a kproc_scheme \<Rightarrow> (bool \<times> swtch_context \<times> 'a kproc_scheme) option" where
  "sleep ch regs s =
     (case myproc s of None \<Rightarrow> panic ''kerneltrap''
      | Some i \<Rightarrow> sched True 1 False regs (upd_proc i (\<lambda>p. p\<lparr>p_chan := ch, state := SLEEPING\<rparr>) s))"

definition sleep_resume :: "bool \<Rightarrow> 'a kproc_scheme \<Rightarrow> 'a kproc_scheme option" where
  "sleep_resume ie s =
     (let s = sched_resume ie s in
      case myproc s of None \<Rightarrow> panic ''kerneltrap''
      | Some i \<Rightarrow> Some (upd_proc i (\<lambda>p. p\<lparr>p_chan := NoChan\<rparr>) s))"

definition wakeup :: "chan \<Rightarrow> 'a kproc_scheme \<Rightarrow> 'a kproc_scheme" where
  "wakeup ch s = s\<lparr>procs := map (\<lambda>(i, p).
     if myproc s \<noteq> Some i \<and> state p = SLEEPING \<and> p_chan p = ch then p\<lparr>state := RUNNABLE\<rparr> else p)
     (enumerate 0 (procs s))\<rparr>"

subsection \<open>Killing and waiting\<close>

text \<open>\<^verbatim>\<open>kkill\<close> on the table from entry \<open>i\<close> on: the first process with the pid.\<close>

fun find_pid :: "proc list \<Rightarrow> cint \<Rightarrow> nat \<Rightarrow> nat option" where
  "find_pid [] pd i = None"
| "find_pid (p # ps) pd i = (if pid p = pd then Some i else find_pid ps pd (Suc i))"

definition kkill :: "cint \<Rightarrow> 'a kproc_scheme \<Rightarrow> cint \<times> 'a kproc_scheme" where
  "kkill pd s =
     (case find_pid (procs s) pd 0 of
        None \<Rightarrow> (- 1, s)
      | Some i \<Rightarrow> (0, upd_proc i (\<lambda>p. p\<lparr>killed := 1,
                        state := (if state p = SLEEPING then RUNNABLE else state p)\<rparr>) s))"

definition setkilled :: "nat \<Rightarrow> 'a kproc_scheme \<Rightarrow> 'a kproc_scheme" where
  "setkilled i s = upd_proc i (\<lambda>p. p\<lparr>killed := 1\<rparr>) s"

definition is_killed :: "nat \<Rightarrow> 'a kproc_scheme \<Rightarrow> cint" where
  "is_killed i s = killed (procs s ! i)"

text \<open>\<^verbatim>\<open>reparent\<close> over the indices \<open>is\<close> of the table.\<close>

fun reparent_loop :: "nat \<Rightarrow> nat list \<Rightarrow> 'a kproc_scheme \<Rightarrow> 'a kproc_scheme" where
  "reparent_loop i [] s = s"
| "reparent_loop i (j # js) s =
     reparent_loop i js
       (if parent (procs s ! j) = Some i then
          wakeup (case initproc s of None \<Rightarrow> NoChan | Some k \<Rightarrow> ChProc k)
            (upd_proc j (\<lambda>p. p\<lparr>parent := initproc s\<rparr>) s)
        else s)"

definition reparent :: "nat \<Rightarrow> 'a kproc_scheme \<Rightarrow> 'a kproc_scheme" where
  "reparent i s = reparent_loop i [0 ..< NPROC] s"

text \<open>
  One scan of \<^verbatim>\<open>kwait\<close>: the first ZOMBIE child, and whether there are children among the entries
  scanned.
\<close>

fun find_zombie :: "nat \<Rightarrow> proc list \<Rightarrow> nat \<Rightarrow> bool \<Rightarrow> nat option \<times> bool" where
  "find_zombie i [] j havekids = (None, havekids)"
| "find_zombie i (p # ps) j havekids =
     (if parent p = Some i then
        if state p = ZOMBIE then (Some j, True) else find_zombie i ps (Suc j) True
      else find_zombie i ps (Suc j) havekids)"

text \<open>
  The loop of \<^verbatim>\<open>kwait\<close> from one acquisition of \<^verbatim>\<open>wait_lock\<close> to the next: it returns a value or goes to sleep on
  the channel of the calling process and scans again when it has been woken up.
\<close>

datatype 'a waiting = Returns 'a | Sleeps chan

definition kwait :: "u64 \<Rightarrow> 'a kproc_scheme \<Rightarrow> (cint waiting \<times> 'a kproc_scheme) option" where
  "kwait addr s =
     (case myproc s of None \<Rightarrow> panic ''kerneltrap''
      | Some i \<Rightarrow>
        (case find_zombie i (procs s) 0 False of
           (Some j, _) \<Rightarrow>
             let pd = pid (procs s ! j) in do {
               (r, s) \<leftarrow> (if addr \<noteq> 0 then copyout (pagetable (procs s ! i)) addr (le_bytes 4 (xstate (procs s ! j))) s
                         else Some (0, s));
               if r <s 0 then Some (Returns (- 1), s)
               else do { s \<leftarrow> freeproc j s; Some (Returns pd, s) } }
         | (None, havekids) \<Rightarrow>
             if \<not> havekids \<or> is_killed i s \<noteq> 0 then Some (Returns (- 1), s)
             else Some (Sleeps (ChProc i), s)))"

subsection \<open>Copying to user or kernel memory\<close>

text \<open>
  The \<^verbatim>\<open>user_dst\<close> flag and the address of \<^verbatim>\<open>either_copyout\<close>. A kernel address can be physical memory
  (a page) or a local variable of the calling function; a local variable is not in
  memory, and the caller takes the bytes from the result of the function that copies.
\<close>

datatype dst = UserDst u64 | KernDst u64 | LocalDst

datatype src = UserSrc u64 | KernSrc u64 | LocalSrc "u8 list"

definition either_copyout :: "dst \<Rightarrow> u8 list \<Rightarrow> 'a kproc_scheme \<Rightarrow> (cint \<times> 'a kproc_scheme) option" where
  "either_copyout d bs s =
     (case d of
        UserDst a \<Rightarrow> (case myproc s of None \<Rightarrow> panic ''kerneltrap''
                     | Some i \<Rightarrow> copyout (pagetable (procs s ! i)) a bs s)
      | KernDst a \<Rightarrow> Some (0, s\<lparr>mem := write_bytes (mem s) a bs\<rparr>)
      | LocalDst \<Rightarrow> Some (0, s))"

definition either_copyin :: "src \<Rightarrow> nat \<Rightarrow> 'a kproc_scheme \<Rightarrow> (cint \<times> u8 list \<times> 'a kproc_scheme) option" where
  "either_copyin a len s =
     (case a of
        UserSrc a \<Rightarrow> (case myproc s of None \<Rightarrow> panic ''kerneltrap''
                     | Some i \<Rightarrow> copyin (pagetable (procs s ! i)) a len s)
      | KernSrc a \<Rightarrow> Some (0, read_bytes (mem s) a len, s)
      | LocalSrc bs \<Rightarrow> Some (0, take len bs, s))"

definition dst_add :: "dst \<Rightarrow> nat \<Rightarrow> dst" where
  "dst_add d n = (case d of UserDst a \<Rightarrow> UserDst (a + of_nat n) | KernDst a \<Rightarrow> KernDst (a + of_nat n) | LocalDst \<Rightarrow> LocalDst)"

definition src_add :: "src \<Rightarrow> nat \<Rightarrow> src" where
  "src_add d n = (case d of UserSrc a \<Rightarrow> UserSrc (a + of_nat n) | KernSrc a \<Rightarrow> KernSrc (a + of_nat n) | LocalSrc bs \<Rightarrow> LocalSrc (drop n bs))"

end
