(* ===== verification/Sleeplock.thy ===== *)
theory Sleeplock
  imports Proc
begin

section \<open>Sleep locks\<close>

text \<open>
  \<^verbatim>\<open>kernel/sleeplock.c\<close>. The first part has the operations on the lock, for the buffer cache and the
  inode table. The second part is the protocol between \<^verbatim>\<open>acquiresleep\<close>, \<^verbatim>\<open>releasesleep\<close>,
  \<^verbatim>\<open>sleep\<close> and \<^verbatim>\<open>wakeup\<close> at the granularity of the spin locks, where the steps of different
  processes interleave: it shows mutual exclusion and that no wakeup is lost.
\<close>

subsection \<open>Operations\<close>

record sleeplock =
  sl_locked :: bool
  sl_pid :: cint

definition initsleeplock :: "sleeplock \<Rightarrow> sleeplock" where
  "initsleeplock lk = lk\<lparr>sl_locked := False, sl_pid := 0\<rparr>"

text \<open>The loop of \<^verbatim>\<open>acquiresleep\<close>: \<^const>\<open>None\<close> when the caller has to sleep because the lock is held.\<close>

definition acquiresleep :: "'a kproc_scheme \<Rightarrow> sleeplock \<Rightarrow> sleeplock option" where
  "acquiresleep s lk =
     (if sl_locked lk then None
      else case myproc s of None \<Rightarrow> panic ''kerneltrap''
           | Some i \<Rightarrow> Some (lk\<lparr>sl_locked := True, sl_pid := pid (procs s ! i)\<rparr>))"

text \<open>The caller of \<^verbatim>\<open>releasesleep\<close> also wakes up the processes that sleep on the lock.\<close>

definition releasesleep :: "sleeplock \<Rightarrow> sleeplock" where
  "releasesleep lk = lk\<lparr>sl_locked := False, sl_pid := 0\<rparr>"

definition holdingsleep :: "'a kproc_scheme \<Rightarrow> sleeplock \<Rightarrow> bool" where
  "holdingsleep s lk =
     (case myproc s of None \<Rightarrow> False | Some i \<Rightarrow> sl_locked lk \<and> sl_pid lk = pid (procs s ! i))"

lemma acquire_holding:
  "acquiresleep s lk = Some lk' \<Longrightarrow> holdingsleep s lk' \<and> \<not> sl_locked lk \<and> sl_locked lk'"
  by (auto simp: acquiresleep_def holdingsleep_def split: if_splits option.splits)

lemma acquire_free:
  "\<not> sl_locked lk \<Longrightarrow> myproc s = Some i \<Longrightarrow>
   acquiresleep s lk = Some (lk\<lparr>sl_locked := True, sl_pid := pid (procs s ! i)\<rparr>)"
  by (simp add: acquiresleep_def)

subsection \<open>The protocol\<close>

text \<open>
  Where a process is in \<^verbatim>\<open>acquiresleep\<close> or \<^verbatim>\<open>releasesleep\<close> of one sleep lock. Two spin locks matter:
  \<^verbatim>\<open>lk->lk\<close> and the \<^verbatim>\<open>p->lock\<close> of each process. \<open>Test\<close> and \<open>Waking j\<close> hold the first; \<open>Going\<close>
  holds its own \<^verbatim>\<open>p->lock\<close> and has released the first.
\<close>

datatype sl_pc =
    Outside        \<comment> \<open>not using the lock\<close>
  | Entry          \<comment> \<open>wants \<open>lk->lk\<close>: at the start, or in \<open>sleep\<close> after it was scheduled again\<close>
  | Test           \<comment> \<open>at the test of the loop\<close>
  | Going          \<comment> \<open>in \<open>sleep\<close>, before the state change and \<open>sched\<close>\<close>
  | Asleep         \<comment> \<open>SLEEPING on the lock\<close>
  | Critical       \<comment> \<open>holds the sleep lock\<close>
  | Releasing      \<comment> \<open>wants \<open>lk->lk\<close> in \<open>releasesleep\<close>\<close>
  | Waking nat     \<comment> \<open>in the loop of \<open>wakeup\<close>, at this entry of the process table\<close>

record sl_sys =
  lk_holder :: "nat option"
  is_locked :: bool
  pcs :: "nat \<Rightarrow> sl_pc"

definition goto :: "nat \<Rightarrow> sl_pc \<Rightarrow> sl_sys \<Rightarrow> sl_sys" where
  "goto i q t = t\<lparr>pcs := (pcs t)(i := q)\<rparr>"

text \<open>The test of the loop with \<^verbatim>\<open>lk->lk\<close> held: take the lock and leave, or enter \<^verbatim>\<open>sleep\<close>, which takes \<^verbatim>\<open>p->lock\<close> before it
  releases \<^verbatim>\<open>lk->lk\<close>.\<close>

definition acquiresleep_test :: "nat \<Rightarrow> sl_sys \<Rightarrow> sl_sys" where
  "acquiresleep_test i t =
     (if is_locked t then (goto i Going t)\<lparr>lk_holder := None\<rparr>
      else (goto i Critical t)\<lparr>is_locked := True, lk_holder := None\<rparr>)"

text \<open>One round of the loop of \<^verbatim>\<open>wakeup\<close> of process \<open>i\<close> at entry \<open>j\<close>; it needs \<open>p->lock\<close> of process \<open>j\<close>.\<close>

definition wakeup_one :: "nat \<Rightarrow> nat \<Rightarrow> sl_sys \<Rightarrow> sl_sys" where
  "wakeup_one i j t = goto i (Waking (Suc j)) (if j \<noteq> i \<and> pcs t j = Asleep then goto j Entry t else t)"

text \<open>A kill makes a sleeping process RUNNABLE too, so it can leave \<^verbatim>\<open>sleep\<close> without the lock being free.\<close>

inductive sl_step :: "nat \<Rightarrow> sl_sys \<Rightarrow> sl_sys \<Rightarrow> bool" for n where
  start: "i < n \<Longrightarrow> pcs t i = Outside \<Longrightarrow> sl_step n t (goto i Entry t)"
| lock: "i < n \<Longrightarrow> pcs t i = Entry \<Longrightarrow> lk_holder t = None \<Longrightarrow>
    sl_step n t ((goto i Test t)\<lparr>lk_holder := Some i\<rparr>)"
| test: "i < n \<Longrightarrow> pcs t i = Test \<Longrightarrow> sl_step n t (acquiresleep_test i t)"
| sched: "i < n \<Longrightarrow> pcs t i = Going \<Longrightarrow> sl_step n t (goto i Asleep t)"
| kill: "i < n \<Longrightarrow> pcs t i = Asleep \<Longrightarrow> sl_step n t (goto i Entry t)"
| leave: "i < n \<Longrightarrow> pcs t i = Critical \<Longrightarrow> sl_step n t (goto i Releasing t)"
| release: "i < n \<Longrightarrow> pcs t i = Releasing \<Longrightarrow> lk_holder t = None \<Longrightarrow>
    sl_step n t ((goto i (Waking 0) t)\<lparr>lk_holder := Some i, is_locked := False\<rparr>)"
| wake: "i < n \<Longrightarrow> pcs t i = Waking j \<Longrightarrow> j < n \<Longrightarrow> pcs t j \<noteq> Going \<Longrightarrow> sl_step n t (wakeup_one i j t)"
| finish: "i < n \<Longrightarrow> pcs t i = Waking n \<Longrightarrow> sl_step n t ((goto i Outside t)\<lparr>lk_holder := None\<rparr>)"

inductive sl_reach :: "nat \<Rightarrow> sl_sys \<Rightarrow> bool" for n where
  init: "sl_reach n \<lparr>lk_holder = None, is_locked = False, pcs = (\<lambda>_. Outside)\<rparr>"
| step: "sl_reach n t \<Longrightarrow> sl_step n t t' \<Longrightarrow> sl_reach n t'"

subsection \<open>Its invariant\<close>

fun uses_lk :: "sl_pc \<Rightarrow> bool" where
  "uses_lk Test = True"
| "uses_lk (Waking j) = True"
| "uses_lk _ = False"

fun owns :: "sl_pc \<Rightarrow> bool" where
  "owns Critical = True"
| "owns Releasing = True"
| "owns _ = False"

fun sleepy :: "sl_pc \<Rightarrow> bool" where
  "sleepy Going = True"
| "sleepy Asleep = True"
| "sleepy _ = False"

text \<open>A scan that is at an entry before the \<open>j\<close>-th will reach it.\<close>

fun reaches :: "sl_pc \<Rightarrow> nat \<Rightarrow> bool" where
  "reaches (Waking k) j = (k \<le> j)"
| "reaches _ j = False"

definition inv_lk :: "nat \<Rightarrow> sl_sys \<Rightarrow> bool" where
  "inv_lk n t \<longleftrightarrow> (\<forall>i. uses_lk (pcs t i) = (lk_holder t = Some i)) \<and> (\<forall>i. i < n \<or> pcs t i = Outside)"

definition inv_own :: "sl_sys \<Rightarrow> bool" where
  "inv_own t \<longleftrightarrow> (\<forall>i. owns (pcs t i) \<longrightarrow> is_locked t \<and> (\<forall>j. owns (pcs t j) \<longrightarrow> j = i))"

text \<open>Whoever is asleep, or on the way, will be seen by a scan that has not reached its entry, unless the lock is held.\<close>

definition inv_sleep :: "nat \<Rightarrow> sl_sys \<Rightarrow> bool" where
  "inv_sleep n t \<longleftrightarrow> is_locked t \<or>
     (\<forall>j. sleepy (pcs t j) \<longrightarrow> lk_holder t \<noteq> None \<and> reaches (pcs t (the (lk_holder t))) j)"

lemmas sl_simps = goto_def acquiresleep_test_def wakeup_one_def

lemma inv_lkD: "inv_lk n t \<Longrightarrow> uses_lk (pcs t i) = (lk_holder t = Some i)"
  by (simp add: inv_lk_def)

lemma inv_lk_awake: "inv_lk n t \<Longrightarrow> n \<le> j \<Longrightarrow> \<not> sleepy (pcs t j)"
  unfolding inv_lk_def by (metis linorder_not_less sleepy.simps(3))

lemma inv_ownD: "inv_own t \<Longrightarrow> owns (pcs t i) \<Longrightarrow> is_locked t \<and> (\<forall>j. owns (pcs t j) \<longrightarrow> j = i)"
  unfolding inv_own_def by blast

lemma inv_sleepD:
  "inv_sleep n t \<Longrightarrow> \<not> is_locked t \<Longrightarrow> sleepy (pcs t j) \<Longrightarrow>
   lk_holder t \<noteq> None \<and> reaches (pcs t (the (lk_holder t))) j"
  unfolding inv_sleep_def by blast

lemma inv_lk_step:
  assumes "sl_step n t t'" "inv_lk n t"
  shows "inv_lk n t'"
  using assms(1)
proof cases
  case (start i)
  with assms(2) inv_lkD [of n t i] show ?thesis by (auto simp: inv_lk_def sl_simps)
next
  case (lock i)
  with assms(2) inv_lkD [of n t i] show ?thesis by (auto simp: inv_lk_def sl_simps)
next
  case (test i)
  with assms(2) inv_lkD [of n t i] show ?thesis by (auto simp: inv_lk_def sl_simps)
next
  case (sched i)
  with assms(2) inv_lkD [of n t i] show ?thesis by (auto simp: inv_lk_def sl_simps)
next
  case (kill i)
  with assms(2) inv_lkD [of n t i] show ?thesis by (auto simp: inv_lk_def sl_simps)
next
  case (leave i)
  with assms(2) inv_lkD [of n t i] show ?thesis by (auto simp: inv_lk_def sl_simps)
next
  case (release i)
  with assms(2) inv_lkD [of n t i] show ?thesis by (auto simp: inv_lk_def sl_simps)
next
  case (wake i j)
  with assms(2) inv_lkD [of n t i] show ?thesis by (auto simp: inv_lk_def sl_simps)
next
  case (finish i)
  with assms(2) inv_lkD [of n t i] show ?thesis by (auto simp: inv_lk_def sl_simps)
qed

lemma inv_own_step:
  assumes "sl_step n t t'" "inv_own t"
  shows "inv_own t'"
  using assms(1)
proof cases
  case (start i)
  with assms(2) inv_ownD [of t i] show ?thesis by (auto simp: inv_own_def sl_simps)
next
  case (lock i)
  with assms(2) inv_ownD [of t i] show ?thesis by (auto simp: inv_own_def sl_simps)
next
  case (test i)
  with assms(2) inv_ownD [of t i] show ?thesis by (auto simp: inv_own_def sl_simps)
next
  case (sched i)
  with assms(2) inv_ownD [of t i] show ?thesis by (auto simp: inv_own_def sl_simps)
next
  case (kill i)
  with assms(2) inv_ownD [of t i] show ?thesis by (auto simp: inv_own_def sl_simps)
next
  case (leave i)
  with assms(2) inv_ownD [of t i] show ?thesis by (auto simp: inv_own_def sl_simps)
next
  case (release i)
  with assms(2) inv_ownD [of t i] show ?thesis by (auto simp: inv_own_def sl_simps)
next
  case (wake i j)
  with assms(2) inv_ownD [of t i] show ?thesis by (auto simp: inv_own_def sl_simps)
next
  case (finish i)
  with assms(2) inv_ownD [of t i] show ?thesis by (auto simp: inv_own_def sl_simps)
qed

lemma inv_sleep_step:
  assumes "sl_step n t t'" "inv_lk n t" "inv_own t" "inv_sleep n t"
  shows "inv_sleep n t'"
  using assms(1)
proof cases
  case (start i)
  with assms(2-) inv_lkD [of n t i] inv_ownD [of t i] inv_sleepD [of n t i] show ?thesis by (auto simp: inv_sleep_def sl_simps)
next
  case (lock i)
  with assms(2-) inv_lkD [of n t i] inv_ownD [of t i] inv_sleepD [of n t i] show ?thesis by (auto simp: inv_sleep_def sl_simps)
next
  case (test i)
  with assms(2-) inv_lkD [of n t i] inv_ownD [of t i] inv_sleepD [of n t i] show ?thesis by (auto simp: inv_sleep_def sl_simps)
next
  case (sched i)
  with assms(2-) inv_lkD [of n t i] inv_ownD [of t i] inv_sleepD [of n t i] show ?thesis by (auto simp: inv_sleep_def sl_simps)
next
  case (kill i)
  with assms(2-) inv_lkD [of n t i] inv_ownD [of t i] inv_sleepD [of n t i] show ?thesis by (auto simp: inv_sleep_def sl_simps)
next
  case (leave i)
  with assms(2-) inv_lkD [of n t i] inv_ownD [of t i] inv_sleepD [of n t i] show ?thesis by (auto simp: inv_sleep_def sl_simps)
next
  case (release i)
  with assms(2-) inv_lkD [of n t i] inv_ownD [of t i] inv_sleepD [of n t i] show ?thesis by (auto simp: inv_sleep_def sl_simps)
next
  case (wake i j)
  have "sleepy (pcs t j) \<longleftrightarrow> pcs t j = Asleep" using wake by (cases "pcs t j") simp_all
  moreover have lk: "lk_holder t = Some i" using wake inv_lkD [OF assms(2), of i] by simp
  ultimately have "Suc j \<le> k" if "sleepy (pcs t' k)" "\<not> is_locked t" for k
  proof -
    have "sleepy (pcs t k)" "k \<noteq> j"
      using that wake \<open>sleepy (pcs t j) \<longleftrightarrow> pcs t j = Asleep\<close> by (auto simp: sl_simps split: if_splits)
    with inv_sleepD [OF assms(4) that(2), of k] wake lk show ?thesis by simp
  qed
  moreover have "lk_holder t' = Some i" "pcs t' i = Waking (Suc j)" "is_locked t' = is_locked t"
    using wake lk by (simp_all add: sl_simps)
  ultimately show ?thesis unfolding inv_sleep_def by auto
next
  case (finish i)
  with assms(2-) inv_lkD [of n t i] inv_ownD [of t i] inv_sleepD [of n t i] inv_lk_awake [OF assms(2)] show ?thesis
    by (auto simp: inv_sleep_def sl_simps)
qed

lemma sl_reach_inv: "sl_reach n t \<Longrightarrow> inv_lk n t \<and> inv_own t \<and> inv_sleep n t"
proof (induction rule: sl_reach.induct)
  case init
  show ?case by (simp add: inv_lk_def inv_own_def inv_sleep_def)
next
  case (step t t')
  then show ?case using inv_lk_step inv_own_step inv_sleep_step by blast
qed

subsection \<open>Properties\<close>

text \<open>
  C18. Sleep locks exclude each other and lose no wakeup. In every state that the interleaved steps
  of \<open>n\<close> processes reach, at most one process is between \<^verbatim>\<open>acquiresleep\<close> and \<^verbatim>\<open>releasesleep\<close>; and if
  the sleep lock is free and its spin lock is not held (so no release is under way), no
  process sleeps on the lock or is about to.
\<close>

theorem sleeplock_no_lost_wakeup:
  assumes "sl_reach n t"
  shows "(owns (pcs t i) \<and> owns (pcs t j) \<longrightarrow> i = j) \<and>
    (\<not> is_locked t \<and> lk_holder t = None \<longrightarrow> pcs t i \<noteq> Asleep \<and> pcs t i \<noteq> Going)"
  using sl_reach_inv [OF assms] inv_ownD [of t i] inv_sleepD [of n t i] by auto

definition idle_lock :: sl_sys where
  "idle_lock = \<lparr>lk_holder = None, is_locked = False, pcs = (\<lambda>_. Outside)\<rparr>"

text \<open>Process 0 holds the lock, process 1 sleeps on it.\<close>

definition contended :: sl_sys where
  "contended =
     (let t = acquiresleep_test 0 ((goto 0 Test (goto 0 Entry idle_lock))\<lparr>lk_holder := Some 0\<rparr>);
          t = acquiresleep_test 1 ((goto 1 Test (goto 1 Entry t))\<lparr>lk_holder := Some 1\<rparr>)
      in goto 0 Releasing (goto 1 Asleep t))"

text \<open>Process 0 releases it and wakes process 1 up.\<close>

definition contended_run :: sl_sys where
  "contended_run = (goto 0 Outside (wakeup_one 0 1 (wakeup_one 0 0
     ((goto 0 (Waking 0) contended)\<lparr>lk_holder := Some 0, is_locked := False\<rparr>))))\<lparr>lk_holder := None\<rparr>"

lemma acquire_reach:
  assumes "sl_reach n t" "i < n" "pcs t i = Outside" "lk_holder t = None"
  shows "sl_reach n (acquiresleep_test i ((goto i Test (goto i Entry t))\<lparr>lk_holder := Some i\<rparr>))"
proof -
  have "sl_reach n (goto i Entry t)" using assms by (auto intro: sl_reach.step sl_step.start)
  then have "sl_reach n ((goto i Test (goto i Entry t))\<lparr>lk_holder := Some i\<rparr>)"
    using assms by (intro sl_reach.step [OF _ sl_step.lock]) (simp_all add: goto_def)
  then show ?thesis by (rule sl_reach.step) (simp add: assms goto_def sl_step.test)
qed

lemma contended_reach: "sl_reach 2 contended"
proof -
  have "sl_reach 2 idle_lock" unfolding idle_lock_def by (rule sl_reach.init)
  from acquire_reach [OF this, of 0]
  have "sl_reach 2 (acquiresleep_test 0 ((goto 0 Test (goto 0 Entry idle_lock))\<lparr>lk_holder := Some 0\<rparr>))"
    by (simp add: idle_lock_def)
  from acquire_reach [OF this, of 1] show ?thesis unfolding contended_def Let_def
    by (intro sl_reach.step [OF _ sl_step.leave] sl_reach.step [OF _ sl_step.sched])
      (simp_all add: sl_simps idle_lock_def)
qed

lemma contended_run_reach: "sl_reach 2 contended_run"
proof -
  let ?t = "(goto 0 (Waking 0) contended)\<lparr>lk_holder := Some 0, is_locked := False\<rparr>"
  have "sl_reach 2 ?t"
    by (intro sl_reach.step [OF contended_reach sl_step.release])
      (simp_all add: contended_def sl_simps idle_lock_def)
  then have "sl_reach 2 (wakeup_one 0 0 ?t)"
    by (rule sl_reach.step) (intro sl_step.wake; simp add: goto_def)
  then have "sl_reach 2 (wakeup_one 0 1 (wakeup_one 0 0 ?t))"
    by (rule sl_reach.step) (intro sl_step.wake; simp add: contended_def sl_simps idle_lock_def)
  then show ?thesis unfolding contended_run_def
    by (rule sl_reach.step) (intro sl_step.finish; simp add: contended_def sl_simps idle_lock_def)
qed

theorem sleeplock_no_lost_wakeup_witness:
  "pcs contended_run 1 = Entry \<and> pcs contended_run 0 \<noteq> Asleep \<and> \<not> is_locked contended_run"
proof -
  have l: "\<not> is_locked contended_run \<and> lk_holder contended_run = None"
    by (simp add: contended_run_def contended_def sl_simps idle_lock_def)
  have "pcs contended_run 1 = Entry" by (simp add: contended_run_def contended_def sl_simps idle_lock_def)
  with l sleeplock_no_lost_wakeup [OF contended_run_reach, of 0] show ?thesis by simp
qed

end
