(* ===== verification/Bio.thy ===== *)
theory Bio
  imports Sleeplock
begin

section \<open>The buffer cache\<close>

text \<open>
  \<^verbatim>\<open>kernel/bio.c\<close> and \<^verbatim>\<open>buf.h\<close>. The buffers are entries of a list with the head of the linked list as
  the last entry, at index \<^const>\<open>NBUF\<close>; \<^verbatim>\<open>prev\<close> and \<^verbatim>\<open>next\<close> are indices. The disk is a map from block
  numbers to contents; \<open>disk_rw\<close> is the effect of \<^verbatim>\<open>virtio_disk_rw\<close> on it, and \<open>dwrites\<close> records the
  writes in order, so that statements about a crash can refer to them.

  The lemmas give the cache an abstract reading: what a block contains (from its buffer, if it has
  one, else from the disk), how often it is pinned and by whom it is locked. In these terms each
  operation is an update of one block.
\<close>

subsection \<open>State\<close>

abbreviation BSIZE :: nat where "BSIZE \<equiv> 1024"

record buf =
  b_valid :: bool
  b_disk :: bool
  b_dev :: u32
  b_blockno :: u32
  b_lock :: sleeplock
  b_refcnt :: u32
  b_prev :: nat
  b_next :: nat
  b_data :: "u8 list"

record kbio = kproc +
  bcache :: "buf list"
  disk :: "u32 \<Rightarrow> u8 list"
  dwrites :: "(u32 \<times> u8 list) list"

definition upd_buf :: "nat \<Rightarrow> (buf \<Rightarrow> buf) \<Rightarrow> 'a kbio_scheme \<Rightarrow> 'a kbio_scheme" where
  "upd_buf i f s = s\<lparr>bcache := (bcache s)[i := f (bcache s ! i)]\<rparr>"

text \<open>The effect of a completed disk request for buffer \<open>i\<close>.\<close>

definition disk_rw :: "nat \<Rightarrow> bool \<Rightarrow> 'a kbio_scheme \<Rightarrow> 'a kbio_scheme" where
  "disk_rw i write s =
     (let b = bcache s ! i in
      if write then s\<lparr>disk := (disk s)(b_blockno b := b_data b), dwrites := dwrites s @ [(b_blockno b, b_data b)]\<rparr>
      else upd_buf i (\<lambda>b. b\<lparr>b_data := disk s (b_blockno b)\<rparr>) s)"

subsection \<open>Operations\<close>

text \<open>The pointer updates that insert buffer \<open>i\<close> after the head.\<close>

definition push_front :: "nat \<Rightarrow> 'a kbio_scheme \<Rightarrow> 'a kbio_scheme" where
  "push_front i s =
     (let s = upd_buf i (\<lambda>b. b\<lparr>b_next := b_next (bcache s ! NBUF)\<rparr>) s;
          s = upd_buf i (\<lambda>b. b\<lparr>b_prev := NBUF\<rparr>) s;
          s = upd_buf (b_next (bcache s ! NBUF)) (\<lambda>b. b\<lparr>b_prev := i\<rparr>) s
      in upd_buf NBUF (\<lambda>b. b\<lparr>b_next := i\<rparr>) s)"

definition unlink_buf :: "nat \<Rightarrow> 'a kbio_scheme \<Rightarrow> 'a kbio_scheme" where
  "unlink_buf i s =
     (let s = upd_buf (b_next (bcache s ! i)) (\<lambda>b. b\<lparr>b_prev := b_prev (bcache s ! i)\<rparr>) s
      in upd_buf (b_prev (bcache s ! i)) (\<lambda>b. b\<lparr>b_next := b_next (bcache s ! i)\<rparr>) s)"

fun binit_loop :: "nat list \<Rightarrow> 'a kbio_scheme \<Rightarrow> 'a kbio_scheme" where
  "binit_loop [] s = s"
| "binit_loop (i # is) s =
     binit_loop is (push_front i (upd_buf i (\<lambda>b. b\<lparr>b_lock := initsleeplock (b_lock b)\<rparr>) s))"

definition binit :: "'a kbio_scheme \<Rightarrow> 'a kbio_scheme" where
  "binit s = binit_loop [0 ..< NBUF] (upd_buf NBUF (\<lambda>b. b\<lparr>b_prev := NBUF, b_next := NBUF\<rparr>) s)"

text \<open>
  The two loops of \<^verbatim>\<open>bget\<close> follow the pointers until they are back at the head. They would not
  end on a broken list, hence the option of the result; \<open>Some None\<close> is the end of the list.
\<close>

partial_function (option) bget_cached :: "buf list \<Rightarrow> u32 \<Rightarrow> u32 \<Rightarrow> nat \<Rightarrow> nat option option" where
  "bget_cached bs dev bno i =
     (if i = NBUF then Some None
      else if b_dev (bs ! i) = dev \<and> b_blockno (bs ! i) = bno then Some (Some i)
      else bget_cached bs dev bno (b_next (bs ! i)))"

partial_function (option) bget_recycle :: "buf list \<Rightarrow> nat \<Rightarrow> nat option option" where
  "bget_recycle bs i =
     (if i = NBUF then Some None
      else if b_refcnt (bs ! i) = 0 then Some (Some i)
      else bget_recycle bs (b_prev (bs ! i)))"

definition lock_buf :: "nat \<Rightarrow> 'a kbio_scheme \<Rightarrow> (nat \<times> 'a kbio_scheme) option" where
  "lock_buf i s = do {
     lk \<leftarrow> acquiresleep s (b_lock (bcache s ! i));
     Some (i, upd_buf i (\<lambda>b. b\<lparr>b_lock := lk\<rparr>) s) }"

definition bget :: "u32 \<Rightarrow> u32 \<Rightarrow> 'a kbio_scheme \<Rightarrow> (nat \<times> 'a kbio_scheme) option" where
  "bget dev bno s = do {
     hit \<leftarrow> bget_cached (bcache s) dev bno (b_next (bcache s ! NBUF));
     case hit of
       Some i \<Rightarrow> lock_buf i (upd_buf i (\<lambda>b. b\<lparr>b_refcnt := b_refcnt b + 1\<rparr>) s)
     | None \<Rightarrow> do {
         victim \<leftarrow> bget_recycle (bcache s) (b_prev (bcache s ! NBUF));
         case victim of
           Some i \<Rightarrow> lock_buf i (upd_buf i (\<lambda>b. b\<lparr>b_dev := dev, b_blockno := bno, b_valid := False, b_refcnt := 1\<rparr>) s)
         | None \<Rightarrow> panic ''bget: no buffers'' } }"

definition bread :: "u32 \<Rightarrow> u32 \<Rightarrow> 'a kbio_scheme \<Rightarrow> (nat \<times> 'a kbio_scheme) option" where
  "bread dev bno s = do {
     (i, s) \<leftarrow> bget dev bno s;
     if \<not> b_valid (bcache s ! i) then Some (i, upd_buf i (\<lambda>b. b\<lparr>b_valid := True\<rparr>) (disk_rw i False s))
     else Some (i, s) }"

definition bwrite :: "nat \<Rightarrow> 'a kbio_scheme \<Rightarrow> 'a kbio_scheme option" where
  "bwrite i s =
     (if \<not> holdingsleep s (b_lock (bcache s ! i)) then panic ''bwrite'' else Some (disk_rw i True s))"

definition brelse :: "nat \<Rightarrow> 'a kbio_scheme \<Rightarrow> 'a kbio_scheme option" where
  "brelse i s =
     (if \<not> holdingsleep s (b_lock (bcache s ! i)) then panic ''brelse''
      else
        let s = wakeup (ChBufLock i) (upd_buf i (\<lambda>b. b\<lparr>b_lock := releasesleep (b_lock b)\<rparr>) s);
            s = upd_buf i (\<lambda>b. b\<lparr>b_refcnt := b_refcnt b - 1\<rparr>) s
        in Some (if b_refcnt (bcache s ! i) = 0 then push_front i (unlink_buf i s) else s))"

definition bpin :: "nat \<Rightarrow> 'a kbio_scheme \<Rightarrow> 'a kbio_scheme" where
  "bpin i s = upd_buf i (\<lambda>b. b\<lparr>b_refcnt := b_refcnt b + 1\<rparr>) s"

definition bunpin :: "nat \<Rightarrow> 'a kbio_scheme \<Rightarrow> 'a kbio_scheme" where
  "bunpin i s = upd_buf i (\<lambda>b. b\<lparr>b_refcnt := b_refcnt b - 1\<rparr>) s"

text \<open>Storing into the data of a buffer, which the callers do between \<^verbatim>\<open>bread\<close> and \<^verbatim>\<open>brelse\<close>.\<close>

definition set_data :: "nat \<Rightarrow> u8 list \<Rightarrow> 'a kbio_scheme \<Rightarrow> 'a kbio_scheme" where
  "set_data i bs s = upd_buf i (\<lambda>b. b\<lparr>b_data := bs\<rparr>) s"

subsection \<open>The linked list\<close>

text \<open>Consecutive elements of a list are linked by \<open>nx\<close> and \<open>pv\<close>.\<close>

fun linked :: "('a \<Rightarrow> 'a) \<Rightarrow> ('a \<Rightarrow> 'a) \<Rightarrow> 'a list \<Rightarrow> bool" where
  "linked nx pv (x # y # zs) \<longleftrightarrow> nx x = y \<and> pv y = x \<and> linked nx pv (y # zs)"
| "linked nx pv xs \<longleftrightarrow> True"

lemma linked_append:
  "linked nx pv (xs @ x # ys) \<longleftrightarrow> linked nx pv (xs @ [x]) \<and> linked nx pv (x # ys)"
proof (induction xs)
  case (Cons a xs)
  then show ?case by (cases xs) auto
qed simp

lemma linked_snoc: "linked nx pv (xs @ [x, y]) \<longleftrightarrow> linked nx pv (xs @ [x]) \<and> nx x = y \<and> pv y = x"
  using linked_append [of nx pv xs x "[y]"] by simp

lemma linked_nx_frame: "i \<notin> set (butlast xs) \<Longrightarrow> linked (nx(i := v)) pv xs = linked nx pv xs"
  by (induction nx pv xs rule: linked.induct) auto

lemma linked_pv_frame: "i \<notin> set (tl xs) \<Longrightarrow> linked nx (pv(i := v)) xs = linked nx pv xs"
  by (induction nx pv xs rule: linked.induct) auto

lemma linked_remove:
  assumes "linked nx pv (h # xs @ i # ys @ [h])" "distinct (h # xs @ i # ys)"
  shows "linked (nx(pv i := nx i)) (pv(nx i := pv i)) (h # xs @ ys @ [h])"
proof -
  obtain A p where A: "A @ [p] = h # xs" by (metis append_butlast_last_id list.distinct(1))
  obtain n B where B: "n # B = ys @ [h]" by (cases ys) auto
  have AB: "A @ p # i # n # B = h # xs @ i # ys @ [h]" "A @ p # n # B = h # xs @ ys @ [h]"
    using A B by (metis append_Cons append_assoc append_Nil)+
  with assms(1) have l: "linked nx pv (A @ [p])" "nx p = i" "pv i = p" "nx i = n" "pv n = i" "linked nx pv (n # B)"
    using linked_append [of nx pv A p "i # n # B"] by simp_all
  have "distinct (A @ [p])" "distinct (n # B)" using assms(2) by (simp_all add: A B)
  then have d: "p \<notin> set A" "n \<notin> set B" by simp_all
  have "n \<in> set (ys @ [h])" "p \<in> set (h # xs)" by (simp_all add: A [symmetric] B [symmetric])
  then have d': "n \<notin> set xs" "p \<notin> set ys" using assms(2) by auto
  have "linked (nx(p := n)) (pv(n := p)) (A @ [p])"
  proof -
    have "butlast (A @ [p]) = A" "tl (A @ [p]) = xs" by (simp, simp only: A list.sel)
    then show ?thesis using l(1) d d' linked_nx_frame [of p "A @ [p]"] linked_pv_frame [of n "A @ [p]"] by simp
  qed
  moreover have "linked (nx(p := n)) (pv(n := p)) (n # B)"
  proof -
    have "butlast (n # B) = ys" by (simp add: B)
    then show ?thesis using l(6) d d' linked_nx_frame [of p "n # B"] linked_pv_frame [of n "n # B"] by simp
  qed
  ultimately have "linked (nx(p := n)) (pv(n := p)) (A @ p # n # B)"
    using linked_append [of _ _ A p "n # B"] by simp
  then show ?thesis using l AB(2) by simp
qed

lemma linked_insert:
  assumes "linked nx pv (h # xs @ [h])" "distinct (h # xs)" "i \<notin> set (h # xs)"
  shows "linked (nx(i := nx h, h := i)) (pv(i := h, nx h := i)) (h # i # xs @ [h])"
proof -
  obtain n B where B: "n # B = xs @ [h]" by (cases xs) auto
  with assms(1) have n: "nx h = n" and l: "linked nx pv (n # B)" by (metis linked.simps(1))+
  have "distinct (n # B)" "set (n # B) = insert h (set xs)" "butlast (n # B) = xs"
    using assms(2) unfolding B by simp_all
  then have d: "n \<noteq> i" "n \<notin> set B" "i \<notin> set B" "h \<notin> set (butlast (n # B))" "i \<notin> set (butlast (n # B))"
    using assms(2,3) by auto
  have "linked (nx(i := n, h := i)) (pv(i := h, n := i)) (n # B)"
    using l d linked_nx_frame [of _ "n # B"] linked_pv_frame [of _ "n # B"] by (metis list.sel(3))
  then have "linked (nx(i := n, h := i)) (pv(i := h, n := i)) (h # i # n # B)" using d assms(3) by auto
  then show ?thesis by (simp add: B n)
qed

definition nxt :: "buf list \<Rightarrow> nat \<Rightarrow> nat" where "nxt bs i = b_next (bs ! i)"
definition prv :: "buf list \<Rightarrow> nat \<Rightarrow> nat" where "prv bs i = b_prev (bs ! i)"

text \<open>The buffers form a ring through the head, in the order \<open>l\<close> from the most recently to the least recently used.\<close>

definition ring :: "buf list \<Rightarrow> nat list \<Rightarrow> bool" where
  "ring bs l \<longleftrightarrow> length bs = Suc NBUF \<and> linked (nxt bs) (prv bs) (NBUF # l @ [NBUF]) \<and>
     distinct l \<and> set l = {i. i < NBUF}"

lemma nxt_update:
  "i < length bs \<Longrightarrow> nxt (bs[i := b]) = (nxt bs)(i := b_next b)"
  "i < length bs \<Longrightarrow> prv (bs[i := b]) = (prv bs)(i := b_prev b)"
  by (auto simp: nxt_def prv_def nth_list_update fun_eq_iff)

lemma bget_cached_ring:
  assumes "linked (nxt bs) (prv bs) (x # l @ [NBUF])" "NBUF \<notin> set l"
  shows "bget_cached bs dev bno (b_next (bs ! x)) =
    Some (find (\<lambda>i. b_dev (bs ! i) = dev \<and> b_blockno (bs ! i) = bno) l)"
  using assms
proof (induction l arbitrary: x)
  case Nil
  then show ?case by (simp add: nxt_def bget_cached.simps)
next
  case (Cons y l)
  then have "b_next (bs ! x) = y" by (simp add: nxt_def)
  with Cons Cons.IH [of y] show ?case by (subst bget_cached.simps) auto
qed

lemma bget_recycle_ring:
  assumes "linked (nxt bs) (prv bs) (NBUF # l @ [x])" "NBUF \<notin> set l"
  shows "bget_recycle bs (b_prev (bs ! x)) = Some (find (\<lambda>i. b_refcnt (bs ! i) = 0) (rev l))"
  using assms
proof (induction l arbitrary: x rule: rev_induct)
  case Nil
  then show ?case by (simp add: prv_def bget_recycle.simps)
next
  case (snoc y l)
  then have "prv bs x = y" "linked (nxt bs) (prv bs) (NBUF # l @ [y])"
    using linked_snoc [of "nxt bs" "prv bs" "NBUF # l" y x] by simp_all
  moreover from this(1) have "b_prev (bs ! x) = y" by (simp add: prv_def)
  ultimately have "b_prev (bs ! x) = y" "linked (nxt bs) (prv bs) (NBUF # l @ [y])" by blast+
  with snoc snoc.IH [of y] show ?case by (subst bget_recycle.simps) auto
qed

text \<open>The part of a buffer that is not a list pointer.\<close>

definition pay :: "buf \<Rightarrow> buf" where
  "pay b = b\<lparr>b_prev := 0, b_next := 0\<rparr>"

lemma pay_simps [simp]:
  "pay (b\<lparr>b_prev := v\<rparr>) = pay b" "pay (b\<lparr>b_next := v\<rparr>) = pay b"
  by (simp_all add: pay_def)

lemma pay_eqD:
  assumes "pay b = pay c"
  shows "b_valid b = b_valid c" "b_dev b = b_dev c" "b_blockno b = b_blockno c" "b_lock b = b_lock c"
    "b_refcnt b = b_refcnt c" "b_data b = b_data c" "b_disk b = b_disk c"
  using arg_cong [OF assms, of b_valid] arg_cong [OF assms, of b_dev] arg_cong [OF assms, of b_blockno]
    arg_cong [OF assms, of b_lock] arg_cong [OF assms, of b_refcnt] arg_cong [OF assms, of b_data]
    arg_cong [OF assms, of b_disk]
  by (simp_all add: pay_def)

lemma upd_buf_simps [simp, frame]:
  "bcache (upd_buf i f s) = (bcache s)[i := f (bcache s ! i)]"
  "disk (upd_buf i f s) = disk s" "dwrites (upd_buf i f s) = dwrites s"
  "procs (upd_buf i f s) = procs s" "myproc (upd_buf i f s) = myproc s"
  by (simp_all add: upd_buf_def myproc_def mycpu_def cpuid_def)

lemma map_pay_update:
  "pay b = pay (bs ! i) \<Longrightarrow> map pay (bs[i := b]) = map pay bs"
  by (metis list_update_id map_update)

lemma upd_buf_pay: "(\<And>b. pay (f b) = pay b) \<Longrightarrow> map pay (bcache (upd_buf i f s)) = map pay (bcache s)"
  by (simp add: map_pay_update)

lemma push_front_pay: "map pay (bcache (push_front i s)) = map pay (bcache s)"
  by (simp add: push_front_def Let_def upd_buf_pay del: upd_buf_simps(1))

lemma unlink_pay: "map pay (bcache (unlink_buf i s)) = map pay (bcache s)"
  by (simp add: unlink_buf_def Let_def upd_buf_pay del: upd_buf_simps(1))

lemma nxt_keep:
  "b_next b = b_next (bs ! i) \<Longrightarrow> nxt (bs[i := b]) = nxt bs"
  "b_prev b = b_prev (bs ! i) \<Longrightarrow> prv (bs[i := b]) = prv bs"
  by (rule ext, metis nxt_def nth_list_update list_update_beyond linorder_not_le)
    (rule ext, metis prv_def nth_list_update list_update_beyond linorder_not_le)

lemma ring_keep:
  "b_next b = b_next (bs ! i) \<Longrightarrow> b_prev b = b_prev (bs ! i) \<Longrightarrow> ring (bs[i := b]) l = ring bs l"
  by (simp add: ring_def nxt_keep)

lemma ring_split:
  assumes "ring bs l" "i < NBUF"
  obtains xs ys where "l = xs @ i # ys" "distinct (NBUF # xs @ i # ys)"
    "linked (nxt bs) (prv bs) (NBUF # xs @ i # ys @ [NBUF])" "remove1 i l = xs @ ys"
proof -
  have r: "linked (nxt bs) (prv bs) (NBUF # l @ [NBUF])" "distinct l" "set l = {i. i < NBUF}"
    using assms(1) by (simp_all add: ring_def)
  have "i \<in> set l" using assms(2) r(3) by simp
  then obtain xs ys where l: "l = xs @ i # ys" by (metis in_set_conv_decomp)
  have "distinct (NBUF # l)" using r(2,3) by simp
  then show thesis using that [of xs ys] r(1) unfolding l by (simp add: remove1_append)
qed

lemma nxt_upd:
  "nxt (bs[i := (bs ! i)\<lparr>b_prev := v\<rparr>]) = nxt bs"
  "i < length bs \<Longrightarrow> prv (bs[i := (bs ! i)\<lparr>b_prev := v\<rparr>]) = (prv bs)(i := v)"
  "i < length bs \<Longrightarrow> nxt (bs[i := (bs ! i)\<lparr>b_next := v\<rparr>]) = (nxt bs)(i := v)"
  "prv (bs[i := (bs ! i)\<lparr>b_next := v\<rparr>]) = prv bs"
  using nxt_update [of i bs] by (simp_all add: nxt_keep)

lemma ring_unlink:
  assumes "ring (bcache s) l" "i < NBUF"
  shows "linked (nxt (bcache (unlink_buf i s))) (prv (bcache (unlink_buf i s))) (NBUF # remove1 i l @ [NBUF])"
proof -
  let ?bs = "bcache s"
  obtain xs ys where l: "l = xs @ i # ys" and d: "distinct (NBUF # xs @ i # ys)"
    and lk: "linked (nxt ?bs) (prv ?bs) (NBUF # xs @ i # ys @ [NBUF])" and r: "remove1 i l = xs @ ys"
    using ring_split [OF assms] by blast
  let ?n = "nxt ?bs i" and ?p = "prv ?bs i"
  have ip: "linked (nxt ?bs) (prv ?bs) (i # ys @ [NBUF])" "linked (nxt ?bs) (prv ?bs) ((NBUF # xs) @ [i])"
    using lk linked_append [of "nxt ?bs" "prv ?bs" "NBUF # xs" i "ys @ [NBUF]"] by simp_all
  have n: "?n \<in> set (ys @ [NBUF])" using ip(1) by (cases ys) simp_all
  obtain A q where A: "NBUF # xs = A @ [q]" by (metis append_butlast_last_id list.distinct(1))
  have "?p = q" using ip(2) linked_snoc [of "nxt ?bs" "prv ?bs" A q i] unfolding A by simp
  then have p: "?p \<in> set (NBUF # xs)" unfolding A by simp
  have len: "length ?bs = Suc NBUF" and sub: "set (xs @ ys) \<subseteq> {i. i < NBUF}" using assms(1) l unfolding ring_def by auto
  have ni: "?n \<noteq> i" "?n < length ?bs" and pi: "?p \<noteq> i" "?p < length ?bs"
    using n p d sub unfolding len by auto
  define b1 where "b1 = ?bs[?n := (?bs ! ?n)\<lparr>b_prev := ?p\<rparr>]"
  have "b1 ! i = ?bs ! i" using ni by (simp add: b1_def)
  then have "bcache (unlink_buf i s) = b1[?p := (b1 ! ?p)\<lparr>b_next := ?n\<rparr>]"
    by (simp add: unlink_buf_def Let_def nxt_def prv_def b1_def)
  moreover have "nxt b1 = nxt ?bs" "prv b1 = (prv ?bs)(?n := ?p)" "length b1 = length ?bs"
    using ni by (simp_all add: b1_def nxt_upd)
  ultimately have "nxt (bcache (unlink_buf i s)) = (nxt ?bs)(?p := ?n)" "prv (bcache (unlink_buf i s)) = (prv ?bs)(?n := ?p)"
    using pi by (simp_all add: nxt_upd)
  then show ?thesis using linked_remove [OF lk d] r by simp
qed

lemma ring_push:
  assumes "linked (nxt (bcache s)) (prv (bcache s)) (NBUF # l @ [NBUF])" "length (bcache s) = Suc NBUF"
    and "distinct (NBUF # l)" "i \<notin> set l" "i < NBUF" "set l \<subseteq> {i. i < NBUF}"
  shows "linked (nxt (bcache (push_front i s))) (prv (bcache (push_front i s))) (NBUF # i # l @ [NBUF])"
proof -
  let ?bs = "bcache s" and ?n = "nxt (bcache s) NBUF"
  have "?n \<in> set (l @ [NBUF])" using assms(1) by (cases l) simp_all
  then have n: "?n \<noteq> i" "?n < length ?bs" using assms(2-) by auto
  define b1 where "b1 = ?bs[i := (?bs ! i)\<lparr>b_next := ?n\<rparr>]"
  define b2 where "b2 = b1[i := (b1 ! i)\<lparr>b_prev := NBUF\<rparr>]"
  define b3 where "b3 = b2[?n := (b2 ! ?n)\<lparr>b_prev := i\<rparr>]"
  have len: "length b1 = Suc NBUF" "length b2 = Suc NBUF" "length b3 = Suc NBUF"
    using assms(2) by (simp_all add: b1_def b2_def b3_def)
  have "b_next (b2 ! NBUF) = ?n" using assms(5) by (simp add: b1_def b2_def nxt_def)
  then have "bcache (push_front i s) = b3[NBUF := (b3 ! NBUF)\<lparr>b_next := i\<rparr>]"
    by (simp add: push_front_def Let_def b1_def [symmetric] b2_def [symmetric] b3_def [symmetric] nxt_def [symmetric]
        del: list_update_overwrite)
  moreover have "nxt b1 = (nxt ?bs)(i := ?n)" "prv b1 = prv ?bs"
    using assms(2,5) unfolding b1_def by (simp_all only: nxt_upd)
  moreover have "nxt b2 = nxt b1" "prv b2 = (prv b1)(i := NBUF)"
    using len assms(5) unfolding b2_def by (simp_all only: nxt_upd)
  moreover have "nxt b3 = nxt b2" "prv b3 = (prv b2)(?n := i)"
    using len n assms(2) unfolding b3_def by (simp_all only: nxt_upd)
  ultimately have "nxt (bcache (push_front i s)) = (nxt ?bs)(i := ?n, NBUF := i)"
    "prv (bcache (push_front i s)) = (prv ?bs)(i := NBUF, ?n := i)"
    using len by (simp_all add: nxt_upd)
  then show ?thesis using linked_insert [OF assms(1,3), of i] assms(4,5) by simp
qed

lemma length_unlink [simp]: "length (bcache (unlink_buf i s)) = length (bcache s)"
  by (simp add: unlink_buf_def Let_def)

lemma length_push [simp]: "length (bcache (push_front i s)) = length (bcache s)"
  by (simp add: push_front_def Let_def)

lemma ring_move:
  assumes "ring (bcache s) l" "i < NBUF"
  shows "ring (bcache (push_front i (unlink_buf i s))) (i # remove1 i l)"
proof -
  have l: "distinct l" "set l = {i. i < NBUF}" "length (bcache s) = Suc NBUF" using assms(1) unfolding ring_def by blast+
  then have r: "set (remove1 i l) = {i. i < NBUF} - {i}" by (simp only: set_remove1_eq)
  have "linked (nxt (bcache (push_front i (unlink_buf i s)))) (prv (bcache (push_front i (unlink_buf i s))))
      (NBUF # i # remove1 i l @ [NBUF])"
    by (rule ring_push [OF ring_unlink [OF assms]]) (use l r assms(2) in \<open>auto simp del: set_remove1_eq\<close>)
  then show ?thesis using l r assms(2) unfolding ring_def by auto
qed

subsection \<open>The abstract reading\<close>

definition is_buf :: "'a kbio_scheme \<Rightarrow> u32 \<Rightarrow> u32 \<Rightarrow> nat \<Rightarrow> bool" where
  "is_buf s dev b i \<longleftrightarrow> i < NBUF \<and> b_dev (bcache s ! i) = dev \<and> b_blockno (bcache s ! i) = b"

text \<open>The buffer that holds block \<open>b\<close>, if there is one.\<close>

definition bidx :: "'a kbio_scheme \<Rightarrow> u32 \<Rightarrow> u32 \<Rightarrow> nat option" where
  "bidx s dev b = (if \<exists>i. is_buf s dev b i then Some (LEAST i. is_buf s dev b i) else None)"

definition bview :: "'a kbio_scheme \<Rightarrow> u32 \<Rightarrow> u32 \<Rightarrow> u8 list" where
  "bview s dev b = (case bidx s dev b of
     Some i \<Rightarrow> if b_valid (bcache s ! i) then b_data (bcache s ! i) else disk s b | None \<Rightarrow> disk s b)"

definition pins :: "'a kbio_scheme \<Rightarrow> u32 \<Rightarrow> u32 \<Rightarrow> nat" where
  "pins s dev b = (case bidx s dev b of Some i \<Rightarrow> unat (b_refcnt (bcache s ! i)) | None \<Rightarrow> 0)"

definition held :: "'a kbio_scheme \<Rightarrow> u32 \<Rightarrow> u32 \<Rightarrow> bool" where
  "held s dev b = (case bidx s dev b of Some i \<Rightarrow> sl_locked (b_lock (bcache s ! i)) | None \<Rightarrow> False)"

text \<open>The buffers that cannot be recycled.\<close>

definition busy :: "'a kbio_scheme \<Rightarrow> nat set" where
  "busy s = {i. i < NBUF \<and> b_refcnt (bcache s ! i) \<noteq> 0}"

text \<open>
  The invariant of the cache for device \<open>dev\<close>: the list is a ring, a block has one buffer, an unpinned
  buffer is not locked and, when valid, has the contents of the disk.
\<close>

definition bufs_ok :: "u32 \<Rightarrow> 'a kbio_scheme \<Rightarrow> bool" where
  "bufs_ok dev s \<longleftrightarrow>
     (\<forall>b i j. is_buf s dev b i \<longrightarrow> is_buf s dev b j \<longrightarrow> i = j) \<and>
     (\<forall>i < NBUF. b_refcnt (bcache s ! i) = 0 \<longrightarrow> \<not> sl_locked (b_lock (bcache s ! i)) \<and>
        (b_dev (bcache s ! i) = dev \<and> b_valid (bcache s ! i) \<longrightarrow>
           b_data (bcache s ! i) = disk s (b_blockno (bcache s ! i))))"

definition bio_inv :: "u32 \<Rightarrow> 'a kbio_scheme \<Rightarrow> bool" where
  "bio_inv dev s \<longleftrightarrow> (\<exists>l. ring (bcache s) l) \<and> bufs_ok dev s"

lemma bio_inv_length: "bio_inv dev s \<Longrightarrow> length (bcache s) = Suc NBUF"
  by (auto simp: bio_inv_def ring_def)

lemma bidx_SomeI: "bufs_ok dev s \<Longrightarrow> is_buf s dev b i \<Longrightarrow> bidx s dev b = Some i"
  unfolding bidx_def bufs_ok_def by (metis LeastI)

lemma bidx_SomeD: "bidx s dev b = Some i \<Longrightarrow> is_buf s dev b i"
  unfolding bidx_def by (metis LeastI option.distinct(1) option.inject)

lemma bidx_iff: "bufs_ok dev s \<Longrightarrow> bidx s dev b = Some i \<longleftrightarrow> is_buf s dev b i"
  using bidx_SomeI bidx_SomeD by blast

lemma bidx_None: "bidx s dev b = None \<longleftrightarrow> (\<forall>i. \<not> is_buf s dev b i)"
  by (simp add: bidx_def)

text \<open>Only the payload of the buffers and the disk matter.\<close>

lemma pay_nth:
  assumes "map pay (bcache s') = map pay (bcache s)" "length (bcache s) = Suc NBUF" "i < NBUF"
  shows "pay (bcache s' ! i) = pay (bcache s ! i)"
proof -
  have "length (bcache s') = Suc NBUF" using assms(1,2) by (metis length_map)
  then show ?thesis using assms nth_map [of i "bcache s'" pay] nth_map [of i "bcache s" pay] by simp
qed

lemma pay_abs:
  assumes "map pay (bcache s') = map pay (bcache s)" "length (bcache s) = Suc NBUF" "disk s' = disk s"
  shows "is_buf s' = is_buf s" "bidx s' = bidx s" "bview s' = bview s" "pins s' = pins s" "held s' = held s"
    "busy s' = busy s" "bufs_ok dev s' = bufs_ok dev s"
proof -
  note P = pay_eqD [OF pay_nth [OF assms(1,2)]]
  show ib: "is_buf s' = is_buf s" using P by (auto simp: is_buf_def fun_eq_iff)
  show ix: "bidx s' = bidx s" by (intro ext) (simp add: bidx_def ib)
  have i: "i < NBUF" if "bidx s dev b = Some i" for dev b i using bidx_SomeD [OF that] by (simp add: is_buf_def)
  show "bview s' = bview s" "pins s' = pins s" "held s' = held s"
    using P i by (auto simp: bview_def pins_def held_def ix fun_eq_iff assms(3) split: option.split)
  show "busy s' = busy s" using P by (auto simp: busy_def)
  show "bufs_ok dev s' = bufs_ok dev s" using P by (simp add: bufs_ok_def ib assms(3) cong: all_cong conj_cong imp_cong)
qed

text \<open>An update of the buffer of block \<open>b\<close> that keeps its identity and place changes the reading of \<open>b\<close> only.\<close>

lemma upd_buf_abs:
  assumes inv: "bio_inv dev s" and ix: "bidx s dev b = Some i"
    and f: "b_dev (f (bcache s ! i)) = dev" "b_blockno (f (bcache s ! i)) = b"
      "b_prev (f (bcache s ! i)) = b_prev (bcache s ! i)" "b_next (f (bcache s ! i)) = b_next (bcache s ! i)"
  shows "bidx (upd_buf i f s) dev = bidx s dev"
    and "bview (upd_buf i f s) dev = (bview s dev)(b :=
           if b_valid (f (bcache s ! i)) then b_data (f (bcache s ! i)) else disk s b)"
    and "pins (upd_buf i f s) dev = (pins s dev)(b := unat (b_refcnt (f (bcache s ! i))))"
    and "held (upd_buf i f s) dev = (held s dev)(b := sl_locked (b_lock (f (bcache s ! i))))"
    and "busy (upd_buf i f s) = (if b_refcnt (f (bcache s ! i)) = 0 then busy s - {i} else insert i (busy s))"
    and "(b_refcnt (f (bcache s ! i)) = 0 \<Longrightarrow> \<not> sl_locked (b_lock (f (bcache s ! i))) \<and>
            (b_valid (f (bcache s ! i)) \<longrightarrow> b_data (f (bcache s ! i)) = disk s b)) \<Longrightarrow>
         bio_inv dev (upd_buf i f s)"
proof -
  note len = bio_inv_length [OF inv]
  have bo: "bufs_ok dev s" and ri: "\<exists>l. ring (bcache s) l" using inv by (simp_all add: bio_inv_def)
  have i: "i < NBUF" "b_dev (bcache s ! i) = dev" "b_blockno (bcache s ! i) = b"
    using bidx_SomeD [OF ix] by (simp_all add: is_buf_def)
  have n: "bcache (upd_buf i f s) ! j = (if j = i then f (bcache s ! i) else bcache s ! j)" for j
    using i len by (simp add: nth_list_update)
  have ib: "is_buf (upd_buf i f s) dev = is_buf s dev"
    using i f by (intro ext) (auto simp: is_buf_def n simp del: upd_buf_simps)
  show ix': "bidx (upd_buf i f s) dev = bidx s dev" by (intro ext) (simp add: bidx_def ib)
  have other: "j \<noteq> i" if "bidx s dev c = Some j" "c \<noteq> b" for c j
    using i(3) that bidx_SomeD [of s dev c j] by (auto simp: is_buf_def)
  show "bview (upd_buf i f s) dev = (bview s dev)(b :=
      if b_valid (f (bcache s ! i)) then b_data (f (bcache s ! i)) else disk s b)"
    "pins (upd_buf i f s) dev = (pins s dev)(b := unat (b_refcnt (f (bcache s ! i))))"
    "held (upd_buf i f s) dev = (held s dev)(b := sl_locked (b_lock (f (bcache s ! i))))"
    using ix other
    by (auto simp: bview_def pins_def held_def ix' n fun_eq_iff simp del: upd_buf_simps(1) split: option.split)
  show "busy (upd_buf i f s) = (if b_refcnt (f (bcache s ! i)) = 0 then busy s - {i} else insert i (busy s))"
    using i(1) by (auto simp: busy_def n simp del: upd_buf_simps split: if_splits)
  assume c: "b_refcnt (f (bcache s ! i)) = 0 \<Longrightarrow> \<not> sl_locked (b_lock (f (bcache s ! i))) \<and>
    (b_valid (f (bcache s ! i)) \<longrightarrow> b_data (f (bcache s ! i)) = disk s b)"
  have "bufs_ok dev (upd_buf i f s)"
    using bo c f i unfolding bufs_ok_def ib by (simp add: n del: upd_buf_simps(1))
  moreover have "\<exists>l. ring (bcache (upd_buf i f s)) l" using ri f(3,4) by (simp add: ring_keep)
  ultimately show "bio_inv dev (upd_buf i f s)" by (simp add: bio_inv_def)
qed

lemma bidx_vals:
  "bidx s dev b = Some i \<Longrightarrow> unat (b_refcnt (bcache s ! i)) = pins s dev b"
  "bidx s dev b = Some i \<Longrightarrow> sl_locked (b_lock (bcache s ! i)) = held s dev b"
  "bidx s dev b = Some i \<Longrightarrow> b_valid (bcache s ! i) \<Longrightarrow> b_data (bcache s ! i) = bview s dev b"
  "bidx s dev b = Some i \<Longrightarrow> i < NBUF" "bidx s dev b = Some i \<Longrightarrow> b_dev (bcache s ! i) = dev"
  "bidx s dev b = Some i \<Longrightarrow> b_blockno (bcache s ! i) = b"
  using bidx_SomeD [of s dev b i] by (simp_all add: pins_def held_def bview_def is_buf_def)

lemma bidx_busy: "bidx s dev b = Some i \<Longrightarrow> i \<in> busy s \<longleftrightarrow> pins s dev b \<noteq> 0"
  using bidx_vals(1,4) [of s dev b i] unat_eq_zero [of "b_refcnt (bcache s ! i)"] by (simp add: busy_def)

lemma holdingsleep_upd [simp]: "holdingsleep (upd_buf i f s) lk = holdingsleep s lk"
  by (simp add: holdingsleep_def split: option.split)

lemma upd_buf_keep:
  assumes "bio_inv dev s" "bidx s dev b = Some i"
    and "b_dev (f (bcache s ! i)) = dev" "b_blockno (f (bcache s ! i)) = b"
      "b_prev (f (bcache s ! i)) = b_prev (bcache s ! i)" "b_next (f (bcache s ! i)) = b_next (bcache s ! i)"
  shows "b_refcnt (f (bcache s ! i)) = b_refcnt (bcache s ! i) \<Longrightarrow> pins (upd_buf i f s) dev = pins s dev"
    "b_refcnt (f (bcache s ! i)) = b_refcnt (bcache s ! i) \<Longrightarrow> busy (upd_buf i f s) = busy s"
    "b_lock (f (bcache s ! i)) = b_lock (bcache s ! i) \<Longrightarrow> held (upd_buf i f s) dev = held s dev"
    "b_data (f (bcache s ! i)) = b_data (bcache s ! i) \<Longrightarrow> b_valid (f (bcache s ! i)) = b_valid (bcache s ! i) \<Longrightarrow>
      bview (upd_buf i f s) dev = bview s dev"
proof -
  note A = upd_buf_abs(2-5) [of dev s b i f, OF assms] and V = bidx_vals [OF assms(2)]
  show "pins (upd_buf i f s) dev = pins s dev" if "b_refcnt (f (bcache s ! i)) = b_refcnt (bcache s ! i)"
    unfolding A(2) that V(1) by simp
  show "busy (upd_buf i f s) = busy s" if "b_refcnt (f (bcache s ! i)) = b_refcnt (bcache s ! i)"
    unfolding A(4) that using bidx_busy [OF assms(2)] V(1) unat_eq_zero [of "b_refcnt (bcache s ! i)"] by auto
  show "held (upd_buf i f s) dev = held s dev" if "b_lock (f (bcache s ! i)) = b_lock (bcache s ! i)"
    unfolding A(3) that V(2) by simp
  show "bview (upd_buf i f s) dev = bview s dev"
    if "b_data (f (bcache s ! i)) = b_data (bcache s ! i)" "b_valid (f (bcache s ! i)) = b_valid (bcache s ! i)"
    unfolding A(1) that using assms(2) by (auto simp: bview_def fun_upd_idem)
qed

text \<open>Recycling an unpinned buffer for a block that has none.\<close>

lemma recycle_abs:
  assumes inv: "bio_inv dev s" and no: "bidx s dev b = None" and i: "i < NBUF" "b_refcnt (bcache s ! i) = 0"
  defines "s1 \<equiv> upd_buf i (\<lambda>u. u\<lparr>b_dev := dev, b_blockno := b, b_valid := False, b_refcnt := 1\<rparr>) s"
  shows "bio_inv dev s1" "bidx s1 dev b = Some i" "bview s1 dev = bview s dev" "pins s1 dev = (pins s dev)(b := 1)"
    "held s1 dev = held s dev" "busy s1 = insert i (busy s)" "\<not> held s dev b"
    "c \<noteq> b \<Longrightarrow> bidx s dev c = Some k \<Longrightarrow> pins s dev c \<noteq> 0 \<Longrightarrow> bidx s1 dev c = Some k"
proof -
  note len = bio_inv_length [OF inv]
  have bo: "bufs_ok dev s" and ri: "\<exists>l. ring (bcache s) l" using inv by (simp_all add: bio_inv_def)
  have n: "bcache s1 ! j = (if j = i then (bcache s ! i)\<lparr>b_dev := dev, b_blockno := b, b_valid := False, b_refcnt := 1\<rparr>
      else bcache s ! j)" for j using i len by (simp add: s1_def nth_list_update)
  have unl: "\<not> sl_locked (b_lock (bcache s ! i))"
    and cl: "b_dev (bcache s ! i) = dev \<Longrightarrow> b_valid (bcache s ! i) \<Longrightarrow> b_data (bcache s ! i) = disk s (b_blockno (bcache s ! i))"
    using bo i by (auto simp: bufs_ok_def)
  have ib: "is_buf s1 dev c j \<longleftrightarrow> (if j = i then c = b else is_buf s dev c j)" for c j
    using i by (auto simp: is_buf_def n)
  have nb: "\<not> is_buf s dev b j" for j using no by (simp add: bidx_None)
  have ds: "disk s1 = disk s" by (simp add: s1_def)
  have bo1: "bufs_ok dev s1" unfolding bufs_ok_def
  proof (intro conjI allI impI)
    fix c j k
    assume "is_buf s1 dev c j" "is_buf s1 dev c k"
    then show "j = k" using nb bo unfolding ib bufs_ok_def by (metis (full_types))
  qed (use bo in \<open>auto simp: bufs_ok_def n ds split: if_splits\<close>)
  have ix: "bidx s1 dev c = (if c = b then Some i else if bidx s dev c = Some i then None else bidx s dev c)" for c
  proof (cases "bidx s1 dev c")
    case None
    then have nj: "\<not> (if j = i then c = b else is_buf s dev c j)" for j using ib [of c j] by (simp add: bidx_None)
    have "c \<noteq> b" using nj [of i] by simp
    moreover have "j = i" if "bidx s dev c = Some j" for j using bidx_SomeD [OF that] nj [of j] by (simp split: if_splits)
    ultimately show ?thesis using None by (cases "bidx s dev c") auto
  next
    case (Some j)
    then have "if j = i then c = b else is_buf s dev c j" using ib bidx_SomeD by blast
    then consider "j = i" "c = b" | "j \<noteq> i" "bidx s dev c = Some j" "c \<noteq> b"
      using bidx_iff [OF bo, of c j] nb [of j] by (cases "j = i") auto
    then show ?thesis using Some by cases simp_all
  qed
  show "bidx s1 dev b = Some i" by (simp add: ix)
  show "c \<noteq> b \<Longrightarrow> bidx s dev c = Some k \<Longrightarrow> pins s dev c \<noteq> 0 \<Longrightarrow> bidx s1 dev c = Some k"
    using i(2) by (auto simp: ix pins_def)
  have at: "is_buf s dev c i" if "bidx s dev c = Some i" for c by (rule bidx_SomeD [OF that])
  have v: "bview s1 dev c = bview s dev c" for c
    using no cl at by (auto simp: bview_def ix ds n is_buf_def split: option.split)
  have p: "pins s1 dev c = ((pins s dev)(b := 1)) c" for c
    using i at by (auto simp: pins_def ix n split: option.split)
  have h: "held s1 dev c = held s dev c" for c
    using unl no at by (auto simp: held_def ix n split: option.split)
  show "bview s1 dev = bview s dev" "pins s1 dev = (pins s dev)(b := 1)" "held s1 dev = held s dev"
    using v p h by (simp_all add: fun_eq_iff)
  show "busy s1 = insert i (busy s)" using i by (auto simp: busy_def n)
  show "\<not> held s dev b" using no by (simp add: held_def)
  show "bio_inv dev s1" using ri bo1 by (simp add: bio_inv_def s1_def ring_keep)
qed

subsection \<open>The operations in terms of the abstract reading\<close>

text \<open>Everything but the cache, the disk and the run states of the processes, which \<^verbatim>\<open>wakeup\<close> changes.\<close>

definition bio_frame :: "'a kbio_scheme \<Rightarrow> 'a kbio_scheme" where
  "bio_frame s = s\<lparr>procs := map (\<lambda>p. p\<lparr>state := UNUSED\<rparr>) (procs s), bcache := [], disk := (\<lambda>_. []), dwrites := []\<rparr>"

text \<open>A process of the table runs on this CPU.\<close>

definition running :: "'a kproc_scheme \<Rightarrow> nat \<Rightarrow> bool" where
  "running s p \<longleftrightarrow> myproc s = Some p \<and> p < length (procs s)"

lemma bio_frame_simps [simp]:
  "bio_frame (upd_buf i f s) = bio_frame s" "bio_frame (disk_rw i w s) = bio_frame s"
  "bio_frame (push_front i s) = bio_frame s" "bio_frame (unlink_buf i s) = bio_frame s"
  by (simp_all add: bio_frame_def upd_buf_def disk_rw_def push_front_def unlink_buf_def Let_def)

lemma wakeup_states: "map (\<lambda>p. p\<lparr>state := UNUSED\<rparr>) (procs (wakeup ch s)) = map (\<lambda>p. p\<lparr>state := UNUSED\<rparr>) (procs s)"
  by (rule nth_equalityI) (auto simp: wakeup_def nth_enumerate_eq)

lemma wakeup_bio [simp]:
  "bcache (wakeup ch s) = bcache s" "disk (wakeup ch s) = disk s" "dwrites (wakeup ch s) = dwrites s"
  "myproc (wakeup ch s) = myproc s" "length (procs (wakeup ch s)) = length (procs s)"
  by (simp_all add: wakeup_def myproc_def mycpu_def cpuid_def)

lemma bio_frame_wakeup [simp]: "bio_frame (wakeup ch s) = bio_frame s"
proof -
  have "bio_frame (wakeup ch s) = s\<lparr>procs := map (\<lambda>p. p\<lparr>state := UNUSED\<rparr>) (procs (wakeup ch s)),
      bcache := [], disk := (\<lambda>_. []), dwrites := []\<rparr>" by (simp add: bio_frame_def wakeup_def)
  then show ?thesis by (simp add: wakeup_states bio_frame_def)
qed

lemma bio_frame_proc:
  assumes "bio_frame s' = bio_frame s"
  shows "myproc s' = myproc s" "length (procs s') = length (procs s)" "kbio.more s' = kbio.more s"
    "mem s' = mem s" "running s' p = running s p"
    "i < length (procs s) \<Longrightarrow> pid (procs s' ! i) = pid (procs s ! i)"
proof -
  have "myproc (bio_frame t) = myproc t" "procs (bio_frame t) = map (\<lambda>p. p\<lparr>state := UNUSED\<rparr>) (procs t)"
    "kbio.more (bio_frame t) = kbio.more t" "mem (bio_frame t) = mem t" for t :: "'a kbio_scheme"
    by (simp_all add: bio_frame_def myproc_def mycpu_def cpuid_def)
  then have m: "myproc s' = myproc s" "kbio.more s' = kbio.more s" "mem s' = mem s"
    and p: "map (\<lambda>p. p\<lparr>state := UNUSED\<rparr>) (procs s') = map (\<lambda>p. p\<lparr>state := UNUSED\<rparr>) (procs s)" using assms by metis+
  from p have l: "length (procs s') = length (procs s)" by (metis length_map)
  have "pid ((map (\<lambda>p. p\<lparr>state := UNUSED\<rparr>) (procs s')) ! i) = pid ((map (\<lambda>p. p\<lparr>state := UNUSED\<rparr>) (procs s)) ! i)"
    by (simp only: p)
  then show "i < length (procs s) \<Longrightarrow> pid (procs s' ! i) = pid (procs s ! i)" using l by simp
  show "running s' p = running s p" using m l by (simp add: running_def)
  show "myproc s' = myproc s" "length (procs s') = length (procs s)" "kbio.more s' = kbio.more s" "mem s' = mem s"
    using m l by simp_all
qed

lemma holdingsleep_frame:
  "bio_frame s' = bio_frame s \<Longrightarrow> running s p \<Longrightarrow> holdingsleep s' lk = holdingsleep s lk"
  using bio_frame_proc [of s' s] by (simp add: holdingsleep_def running_def)

text \<open>
  One step of an operation on the buffer \<open>i\<close> of block \<open>b\<close>: the new reading of the cache, with
  nothing changed but this buffer.
\<close>

definition bio_step ::
  "u32 \<Rightarrow> nat \<Rightarrow> 'a kbio_scheme \<Rightarrow> 'a kbio_scheme \<Rightarrow> (u32 \<Rightarrow> u8 list) \<Rightarrow> (u32 \<Rightarrow> nat) \<Rightarrow> (u32 \<Rightarrow> bool) \<Rightarrow> bool" where
  "bio_step dev i s s' v p h \<longleftrightarrow>
     bio_inv dev s' \<and> bview s' dev = v \<and> pins s' dev = p \<and> held s' dev = h \<and> bio_frame s' = bio_frame s \<and>
     (\<forall>j < NBUF. j \<noteq> i \<longrightarrow> pay (bcache s' ! j) = pay (bcache s ! j))"

text \<open>Referenced blocks other than \<open>b\<close> keep their buffers.\<close>

definition keeps_pinned :: "u32 \<Rightarrow> u32 \<Rightarrow> 'a kbio_scheme \<Rightarrow> 'a kbio_scheme \<Rightarrow> bool" where
  "keeps_pinned dev b s s' \<longleftrightarrow>
     (\<forall>c k. c \<noteq> b \<longrightarrow> bidx s dev c = Some k \<longrightarrow> pins s dev c \<noteq> 0 \<longrightarrow> bidx s' dev c = Some k)"

lemma keeps_pinned_same: "bidx s' dev = bidx s dev \<Longrightarrow> keeps_pinned dev b s s'"
  by (simp add: keeps_pinned_def)

lemma keeps_pinned_step: "keeps_pinned dev b s s1 \<Longrightarrow> bidx s2 dev = bidx s1 dev \<Longrightarrow> keeps_pinned dev b s s2"
  by (simp add: keeps_pinned_def)

lemma lock_buf_abs:
  assumes inv: "bio_inv dev s" and run: "running s p" and ix: "bidx s dev b = Some i" and nh: "\<not> held s dev b"
    and pn: "pins s dev b \<noteq> 0"
  shows "\<exists>s'. lock_buf i s = Some (i, s') \<and> bidx s' dev = bidx s dev \<and>
    bio_step dev i s s' (bview s dev) (pins s dev) ((held s dev)(b := True)) \<and>
    busy s' = busy s \<and> disk s' = disk s \<and> dwrites s' = dwrites s \<and> holdingsleep s' (b_lock (bcache s' ! i)) \<and>
    b_valid (bcache s' ! i) = b_valid (bcache s ! i)"
proof -
  note len = bio_inv_length [OF inv]
  have i: "is_buf s dev b i" by (rule bidx_SomeD [OF ix])
  then have lt: "i < length (bcache s)" using len by (simp add: is_buf_def)
  have nl: "\<not> sl_locked (b_lock (bcache s ! i))" using nh ix by (simp add: held_def)
  let ?lk = "(b_lock (bcache s ! i))\<lparr>sl_locked := True, sl_pid := pid (procs s ! p)\<rparr>"
  let ?f = "\<lambda>u. u\<lparr>b_lock := ?lk\<rparr>"
  have acq: "lock_buf i s = Some (i, upd_buf i ?f s)"
    using acquire_free [OF nl, of s p] run by (simp add: lock_buf_def running_def)
  have r: "b_refcnt (bcache s ! i) \<noteq> 0" using pn ix by (auto simp: pins_def)
  note A = upd_buf_abs [OF inv ix, of ?f]
  have "busy (upd_buf i ?f s) = busy s" using A(5) r i by (auto simp: is_buf_def busy_def)
  moreover have "bview (upd_buf i ?f s) dev = bview s dev" "pins (upd_buf i ?f s) dev = pins s dev"
    using A(2,3) i ix by (auto simp: is_buf_def bview_def pins_def fun_eq_iff)
  moreover have "bio_inv dev (upd_buf i ?f s)" using A(6) r i by (auto simp: is_buf_def)
  ultimately show ?thesis using acq A(1,4) i run lt
    by (auto simp: bio_step_def is_buf_def holdingsleep_def running_def)
qed

text \<open>The ring is searched completely, so a cached block is found and an unpinned buffer too.\<close>

lemma bget_search:
  assumes inv: "bio_inv dev s"
  shows "bget_cached (bcache s) dev b (b_next (bcache s ! NBUF)) = Some (bidx s dev b)"
    and "busy s \<noteq> {i. i < NBUF} \<Longrightarrow> \<exists>i. bget_recycle (bcache s) (b_prev (bcache s ! NBUF)) = Some (Some i) \<and>
      i < NBUF \<and> b_refcnt (bcache s ! i) = 0"
proof -
  obtain l where r: "ring (bcache s) l" and bo: "bufs_ok dev s" using inv by (auto simp: bio_inv_def)
  then have l: "set l = {i. i < NBUF}" "linked (nxt (bcache s)) (prv (bcache s)) (NBUF # l @ [NBUF])"
    by (simp_all add: ring_def)
  have N: "NBUF \<notin> set l" using l(1) by simp
  let ?P = "\<lambda>i. b_dev (bcache s ! i) = dev \<and> b_blockno (bcache s ! i) = b"
  have "find ?P l = bidx s dev b"
  proof (cases "find ?P l")
    case None
    then have "\<not> (\<exists>i. i \<in> set l \<and> ?P i)" by (simp add: find_None_iff)
    then have "bidx s dev b = None" using l(1) by (auto simp: bidx_None is_buf_def)
    then show ?thesis using None by simp
  next
    case (Some i)
    then have "?P i" "i \<in> set l" by (auto simp: find_Some_iff)
    then show ?thesis using Some l(1) bidx_SomeI [OF bo, of b i] by (simp add: is_buf_def)
  qed
  then show "bget_cached (bcache s) dev b (b_next (bcache s ! NBUF)) = Some (bidx s dev b)"
    using bget_cached_ring [OF l(2) N] by simp
  assume "busy s \<noteq> {i. i < NBUF}"
  then obtain j where "j < NBUF" "b_refcnt (bcache s ! j) = 0" by (auto simp: busy_def)
  then have "find (\<lambda>i. b_refcnt (bcache s ! i) = 0) (rev l) \<noteq> None" using l(1) by (auto simp: find_None_iff)
  then obtain i where f: "find (\<lambda>i. b_refcnt (bcache s ! i) = 0) (rev l) = Some i" by blast
  then have "i \<in> set (rev l)" "b_refcnt (bcache s ! i) = 0" by (auto simp: find_Some_iff simp del: set_rev)
  then show "\<exists>i. bget_recycle (bcache s) (b_prev (bcache s ! NBUF)) = Some (Some i) \<and>
      i < NBUF \<and> b_refcnt (bcache s ! i) = 0"
    using bget_recycle_ring [OF l(2) N] f l(1) by auto
qed

lemma bget_abs:
  assumes inv: "bio_inv dev s" and run: "running s p" and nh: "\<not> held s dev b"
    and room: "bidx s dev b \<noteq> None \<or> busy s \<noteq> {i. i < NBUF}" and small: "pins s dev b < 2 ^ 32 - 1"
  shows "\<exists>i s'. bget dev b s = Some (i, s') \<and> bidx s' dev b = Some i \<and>
    bio_step dev i s s' (bview s dev) ((pins s dev)(b := Suc (pins s dev b))) ((held s dev)(b := True)) \<and>
    (i \<in> busy s) = (pins s dev b \<noteq> 0) \<and>
    keeps_pinned dev b s s' \<and>
    busy s' = insert i (busy s) \<and> disk s' = disk s \<and> dwrites s' = dwrites s \<and> holdingsleep s' (b_lock (bcache s' ! i))"
proof -
  have "\<exists>i s1. bget dev b s = lock_buf i s1 \<and> bidx s1 dev b = Some i \<and>
    bio_step dev i s s1 (bview s dev) ((pins s dev)(b := Suc (pins s dev b))) (held s dev) \<and>
    (i \<in> busy s) = (pins s dev b \<noteq> 0) \<and>
    keeps_pinned dev b s s1 \<and>
    busy s1 = insert i (busy s) \<and> disk s1 = disk s \<and> dwrites s1 = dwrites s"
  proof (cases "bidx s dev b")
    case None
    with room bget_search(2) [OF inv] obtain i where
      i: "bget_recycle (bcache s) (b_prev (bcache s ! NBUF)) = Some (Some i)" "i < NBUF" "b_refcnt (bcache s ! i) = 0" by auto
    let ?s1 = "upd_buf i (\<lambda>u. u\<lparr>b_dev := dev, b_blockno := b, b_valid := False, b_refcnt := 1\<rparr>) s"
    have "bget dev b s = lock_buf i ?s1" using None i(1) bget_search(1) [OF inv] by (simp add: bget_def)
    moreover have "pins s dev b = 0" using None by (simp add: pins_def)
    moreover have "i \<notin> busy s" using i by (simp add: busy_def)
    moreover note R = recycle_abs [OF inv None i(2,3)]
    have "bio_step dev i s ?s1 (bview s dev) ((pins s dev)(b := Suc (pins s dev b))) (held s dev)"
      using R(1-6) \<open>pins s dev b = 0\<close> by (simp add: bio_step_def)
    moreover have "disk ?s1 = disk s" "dwrites ?s1 = dwrites s" by simp_all
    moreover have "keeps_pinned dev b s ?s1"
      using R(8) by (simp add: keeps_pinned_def)
    ultimately show ?thesis using R(2,6) by (intro exI [of _ i] exI [of _ ?s1]) simp
  next
    case (Some i)
    let ?f = "\<lambda>u. u\<lparr>b_refcnt := b_refcnt u + 1\<rparr>"
    have i: "i < NBUF" "b_dev (bcache s ! i) = dev" "b_blockno (bcache s ! i) = b"
      using bidx_SomeD [OF Some] by (simp_all add: is_buf_def)
    have p: "unat (b_refcnt (bcache s ! i) + 1) = Suc (pins s dev b)"
      using small Some by (simp add: pins_def unat_add_small)
    then have nz: "b_refcnt (bcache s ! i) + 1 \<noteq> 0" by (metis Zero_not_Suc unat_0)
    have g: "bget dev b s = lock_buf i (upd_buf i ?f s)" using Some bget_search(1) [OF inv] by (simp add: bget_def)
    note A = upd_buf_abs [OF inv Some, of ?f]
    have "bview (upd_buf i ?f s) dev = bview s dev" "held (upd_buf i ?f s) dev = held s dev"
      using A(2,4) i Some by (auto simp: bview_def held_def fun_eq_iff)
    moreover have "bio_inv dev (upd_buf i ?f s)" using A(6) nz i by simp
    ultimately have st: "bio_step dev i s (upd_buf i ?f s) (bview s dev) ((pins s dev)(b := Suc (pins s dev b))) (held s dev)"
      using A(3) i p by (simp add: bio_step_def)
    have B: "bidx (upd_buf i ?f s) dev = bidx s dev" "busy (upd_buf i ?f s) = insert i (busy s)" using A(1,5) i nz by simp_all
    show ?thesis using g st Some bidx_busy [OF Some] B keeps_pinned_same [OF B(1)]
      by (intro exI [of _ i] exI [of _ "upd_buf i ?f s"]) simp
  qed
  then obtain i s1 where g: "bget dev b s = lock_buf i s1" "bidx s1 dev b = Some i"
    and st: "bio_step dev i s s1 (bview s dev) ((pins s dev)(b := Suc (pins s dev b))) (held s dev)"
    and e: "(i \<in> busy s) = (pins s dev b \<noteq> 0)"
      "keeps_pinned dev b s s1"
    and o: "busy s1 = insert i (busy s)" "disk s1 = disk s" "dwrites s1 = dwrites s"
    by (elim exE conjE) (rule that)
  have "bio_inv dev s1" "running s1 p" "\<not> held s1 dev b" "pins s1 dev b \<noteq> 0"
    using st run nh bio_frame_proc(5) [of s1 s] by (auto simp: bio_step_def)
  from lock_buf_abs [OF this(1,2) g(2) this(3,4)] obtain s2 where l: "lock_buf i s1 = Some (i, s2)" "bidx s2 dev = bidx s1 dev"
    "bio_step dev i s1 s2 (bview s1 dev) (pins s1 dev) ((held s1 dev)(b := True))"
    "busy s2 = busy s1" "disk s2 = disk s1" "dwrites s2 = dwrites s1" "holdingsleep s2 (b_lock (bcache s2 ! i))" by blast
  have st2: "bio_step dev i s s2 (bview s dev) ((pins s dev)(b := Suc (pins s dev b))) ((held s dev)(b := True))"
    using st l(3) by (simp add: bio_step_def)
  have "keeps_pinned dev b s s2"
    using e(2) l(2) by (rule keeps_pinned_step)
  moreover have "bget dev b s = Some (i, s2)" "bidx s2 dev b = Some i" using g l(1,2) by simp_all
  moreover have "busy s2 = insert i (busy s)" "disk s2 = disk s" "dwrites s2 = dwrites s" using o l(4-6) by simp_all
  ultimately show ?thesis using st2 e(1) l(7) by (intro exI [of _ i] exI [of _ s2]) simp
qed

lemma bread_abs:
  assumes "bio_inv dev s" "running s p" "\<not> held s dev b" "bidx s dev b \<noteq> None \<or> busy s \<noteq> {i. i < NBUF}"
    and "pins s dev b < 2 ^ 32 - 1"
  shows "\<exists>i s'. bread dev b s = Some (i, s') \<and> bidx s' dev b = Some i \<and> b_data (bcache s' ! i) = bview s dev b \<and>
    b_valid (bcache s' ! i) \<and>
    bio_step dev i s s' (bview s dev) ((pins s dev)(b := Suc (pins s dev b))) ((held s dev)(b := True)) \<and>
    (i \<in> busy s) = (pins s dev b \<noteq> 0) \<and>
    keeps_pinned dev b s s' \<and>
    busy s' = insert i (busy s) \<and> disk s' = disk s \<and> dwrites s' = dwrites s \<and> holdingsleep s' (b_lock (bcache s' ! i))"
proof -
  obtain i s1 where g: "bget dev b s = Some (i, s1)" "bidx s1 dev b = Some i"
    and st: "bio_step dev i s s1 (bview s dev) ((pins s dev)(b := Suc (pins s dev b))) ((held s dev)(b := True))"
    and e: "(i \<in> busy s) = (pins s dev b \<noteq> 0)"
      "keeps_pinned dev b s s1"
    and o: "busy s1 = insert i (busy s)" "disk s1 = disk s" "dwrites s1 = dwrites s" "holdingsleep s1 (b_lock (bcache s1 ! i))"
    using bget_abs [OF assms] by (elim exE conjE) (rule that)
  have inv1: "bio_inv dev s1" and v1: "bview s1 dev b = bview s dev b" using st by (simp_all add: bio_step_def)
  have i: "i < NBUF" "b_dev (bcache s1 ! i) = dev" "b_blockno (bcache s1 ! i) = b"
    using bidx_SomeD [OF g(2)] by (simp_all add: is_buf_def)
  note len = bio_inv_length [OF inv1]
  show ?thesis
  proof (cases "b_valid (bcache s1 ! i)")
    case True
    then have "b_data (bcache s1 ! i) = bview s dev b" using v1 g(2) by (simp add: bview_def)
    then show ?thesis using True g st o e by (simp add: bread_def)
  next
    case False
    then have v: "bview s dev b = disk s1 b" using v1 g(2) by (simp add: bview_def)
    let ?f = "\<lambda>u. u\<lparr>b_data := disk s1 b, b_valid := True\<rparr>"
    have eq: "upd_buf i (\<lambda>u. u\<lparr>b_valid := True\<rparr>) (disk_rw i False s1) = upd_buf i ?f s1"
      using i len by (simp add: disk_rw_def upd_buf_def)
    note A = upd_buf_abs [OF inv1 g(2), of ?f]
    have nz: "b_refcnt (bcache s1 ! i) \<noteq> 0" using st g(2) by (auto simp: bio_step_def pins_def fun_eq_iff split: if_splits)
    have "bio_inv dev (upd_buf i ?f s1)" using A(6) nz i by simp
    moreover have "bview (upd_buf i ?f s1) dev = bview s dev"
      using A(2) i v st by (auto simp: bio_step_def fun_upd_idem)
    moreover note upd_buf_keep(1-3) [OF inv1 g(2), of ?f]
    moreover have "keeps_pinned dev b s (upd_buf i ?f s1)" using e(2) A(1) i by (simp add: keeps_pinned_step)
    ultimately show ?thesis using False g A(1) st o v i len e(1)
      by (intro exI [of _ i] exI [of _ "upd_buf i ?f s1"]) (auto simp: bread_def eq bio_step_def)
  qed
qed

lemma bwrite_abs:
  assumes inv: "bio_inv dev s" and ix: "bidx s dev b = Some i" and h: "holdingsleep s (b_lock (bcache s ! i))"
    and v: "b_valid (bcache s ! i)"
  shows "\<exists>s'. bwrite i s = Some s' \<and> bio_step dev i s s' (bview s dev) (pins s dev) (held s dev) \<and> bidx s' = bidx s \<and>
    bcache s' = bcache s \<and> busy s' = busy s \<and> disk s' = (disk s)(b := bview s dev b) \<and>
    dwrites s' = dwrites s @ [(b, bview s dev b)]"
proof -
  have i: "i < NBUF" "b_dev (bcache s ! i) = dev" "b_blockno (bcache s ! i) = b"
    using bidx_SomeD [OF ix] by (simp_all add: is_buf_def)
  have d: "b_data (bcache s ! i) = bview s dev b" using v ix by (simp add: bview_def)
  let ?s = "disk_rw i True s"
  have c: "bcache ?s = bcache s" "disk ?s = (disk s)(b := bview s dev b)" "dwrites ?s = dwrites s @ [(b, bview s dev b)]"
    using i d by (simp_all add: disk_rw_def)
  then have ib: "is_buf ?s = is_buf s" by (simp add: is_buf_def fun_eq_iff)
  then have ix': "bidx ?s = bidx s" by (intro ext) (simp add: bidx_def)
  have "bview ?s dev = bview s dev"
    using d v ix by (auto simp: bview_def ix' c fun_eq_iff split: option.split)
  moreover have "pins ?s dev = pins s dev" "held ?s dev = held s dev" "busy ?s = busy s"
    by (intro ext; simp add: pins_def held_def ix' c split: option.split)+ (simp add: busy_def c)
  moreover have "bufs_ok dev ?s"
  proof -
    have bo: "bufs_ok dev s" using inv by (simp add: bio_inv_def)
    have "b_data (bcache s ! j) = (disk ?s) (b_blockno (bcache s ! j))"
      if "j < NBUF" "b_refcnt (bcache s ! j) = 0" "b_dev (bcache s ! j) = dev" "b_valid (bcache s ! j)" for j
    proof (cases "b_blockno (bcache s ! j) = b")
      case True
      then have "is_buf s dev b j" using that by (simp add: is_buf_def)
      then have "j = i" using bidx_SomeI [OF bo] ix by fastforce
      then show ?thesis using d True c by simp
    next
      case False
      then show ?thesis using that bo c by (simp add: bufs_ok_def)
    qed
    then show ?thesis using bo by (simp add: bufs_ok_def ib c)
  qed
  ultimately show ?thesis using h inv c ix' by (simp add: bwrite_def bio_step_def bio_inv_def)
qed

lemma wakeup_abs:
  "bidx (wakeup ch s) = bidx s" "bview (wakeup ch s) = bview s" "pins (wakeup ch s) = pins s"
  "held (wakeup ch s) = held s" "busy (wakeup ch s) = busy s" "bio_inv dev (wakeup ch s) = bio_inv dev s"
proof -
  have ib: "is_buf (wakeup ch s) = is_buf s" by (simp add: is_buf_def fun_eq_iff)
  show ix: "bidx (wakeup ch s) = bidx s" by (intro ext) (simp add: bidx_def ib)
  show "bview (wakeup ch s) = bview s" "pins (wakeup ch s) = pins s" "held (wakeup ch s) = held s"
    by (intro ext; simp add: bview_def pins_def held_def ix split: option.split)+
  show "busy (wakeup ch s) = busy s" "bio_inv dev (wakeup ch s) = bio_inv dev s"
    by (simp_all add: busy_def bio_inv_def bufs_ok_def ib)
qed

lemma brelse_abs:
  assumes inv: "bio_inv dev s" and ix: "bidx s dev b = Some i" and h: "holdingsleep s (b_lock (bcache s ! i))"
    and p: "pins s dev b \<noteq> 0" and cl: "pins s dev b = 1 \<longrightarrow> bview s dev b = disk s b"
  shows "\<exists>s'. brelse i s = Some s' \<and> bidx s' dev = bidx s dev \<and>
    bio_step dev i s s' (bview s dev) ((pins s dev)(b := pins s dev b - 1)) ((held s dev)(b := False)) \<and>
    busy s' = (if pins s dev b = 1 then busy s - {i} else busy s) \<and> disk s' = disk s \<and> dwrites s' = dwrites s"
proof -
  note V = bidx_vals [OF ix] and len = bio_inv_length [OF inv]
  let ?r = "b_refcnt (bcache s ! i) - 1"
  let ?f = "\<lambda>u. u\<lparr>b_lock := releasesleep (b_lock (bcache s ! i)), b_refcnt := ?r\<rparr>"
  define s1 where "s1 = wakeup (ChBufLock i) (upd_buf i (\<lambda>u. u\<lparr>b_lock := releasesleep (b_lock u)\<rparr>) s)"
  define s2 where "s2 = upd_buf i (\<lambda>u. u\<lparr>b_refcnt := b_refcnt u - 1\<rparr>) s1"
  have eq: "s2 = wakeup (ChBufLock i) (upd_buf i ?f s)"
    using V(4) len by (simp add: s1_def s2_def wakeup_def upd_buf_def myproc_def mycpu_def cpuid_def)
  have r: "unat ?r = pins s dev b - 1" using p V(1) by (simp add: unat_sub_small)
  then have rz: "?r = 0 \<longleftrightarrow> pins s dev b = 1" using p unat_eq_zero [of ?r] by auto
  note A = upd_buf_abs [OF inv ix, of ?f]
  have i2: "bio_inv dev s2" using A(6) V(4-6) rz cl V(3) unfolding eq wakeup_abs by (simp add: releasesleep_def)
  have v2: "bview s2 dev = bview s dev" using upd_buf_keep(4) [OF inv ix, of ?f] V(5,6) unfolding eq wakeup_abs by simp
  have b2: "bidx s2 dev = bidx s dev" "pins s2 dev = (pins s dev)(b := pins s dev b - 1)"
    "held s2 dev = (held s dev)(b := False)" "busy s2 = (if pins s dev b = 1 then busy s - {i} else busy s)"
    using A(1,3,4,5) V(5,6) r rz bidx_busy [OF ix] p unfolding eq wakeup_abs by (auto simp: releasesleep_def)
  have o2: "disk s2 = disk s" "dwrites s2 = dwrites s" "bio_frame s2 = bio_frame s" by (simp_all add: eq)
  have pay2: "pay (bcache s2 ! j) = pay (bcache s ! j)" if "j \<noteq> i" for j using that by (simp add: eq)
  let ?s3 = "push_front i (unlink_buf i s2)"
  have len2: "length (bcache s2) = Suc NBUF" by (rule bio_inv_length [OF i2])
  have d3: "disk ?s3 = disk s2" "dwrites ?s3 = dwrites s2" by (simp_all add: push_front_def unlink_buf_def Let_def)
  have p3: "map pay (bcache ?s3) = map pay (bcache s2)" by (simp add: push_front_pay unlink_pay)
  note P = pay_abs [OF p3 len2 d3(1)]
  have i3: "bio_inv dev ?s3" using i2 P(7) ring_move [of s2 _ i] V(4) by (auto simp: bio_inv_def)
  have pay3: "pay (bcache ?s3 ! j) = pay (bcache s ! j)" if "j \<noteq> i" "j < NBUF" for j
    using pay_nth [OF p3 len2 that(2)] pay2 [OF that(1)] by simp
  have "brelse i s = Some (if b_refcnt (bcache s2 ! i) = 0 then ?s3 else s2)"
    using h by (simp add: brelse_def s1_def s2_def Let_def)
  then show ?thesis using i2 v2 b2 o2 pay2 P i3 d3 pay3 by (simp add: bio_step_def)
qed

lemma bpin_abs:
  assumes "bio_inv dev s" "bidx s dev b = Some i" "pins s dev b \<noteq> 0" "pins s dev b < 2 ^ 32 - 1"
  shows "bidx (bpin i s) dev = bidx s dev"
    "bio_step dev i s (bpin i s) (bview s dev) ((pins s dev)(b := Suc (pins s dev b))) (held s dev)"
    "busy (bpin i s) = busy s" "disk (bpin i s) = disk s" "dwrites (bpin i s) = dwrites s"
proof -
  let ?f = "\<lambda>u. u\<lparr>b_refcnt := b_refcnt u + 1\<rparr>"
  note V = bidx_vals [OF assms(2)] and A = upd_buf_abs [OF assms(1,2), of ?f] and K = upd_buf_keep [OF assms(1,2), of ?f]
  have p: "unat (b_refcnt (bcache s ! i) + 1) = Suc (pins s dev b)" using assms(4) V(1) by (simp add: unat_add_small)
  then have nz: "b_refcnt (bcache s ! i) + 1 \<noteq> 0" by (metis Zero_not_Suc unat_0)
  show "bidx (bpin i s) dev = bidx s dev" "busy (bpin i s) = busy s" "disk (bpin i s) = disk s" "dwrites (bpin i s) = dwrites s"
    using A(1,5) V nz bidx_busy [OF assms(2)] assms(3) by (auto simp: bpin_def)
  show "bio_step dev i s (bpin i s) (bview s dev) ((pins s dev)(b := Suc (pins s dev b))) (held s dev)"
    using A(3,6) K(3,4) V nz p by (simp add: bpin_def bio_step_def)
qed

lemma bunpin_abs:
  assumes "bio_inv dev s" "bidx s dev b = Some i" "1 < pins s dev b"
  shows "bidx (bunpin i s) dev = bidx s dev"
    "bio_step dev i s (bunpin i s) (bview s dev) ((pins s dev)(b := pins s dev b - 1)) (held s dev)"
    "busy (bunpin i s) = busy s" "disk (bunpin i s) = disk s" "dwrites (bunpin i s) = dwrites s"
proof -
  let ?f = "\<lambda>u. u\<lparr>b_refcnt := b_refcnt u - 1\<rparr>"
  note V = bidx_vals [OF assms(2)] and A = upd_buf_abs [OF assms(1,2), of ?f] and K = upd_buf_keep [OF assms(1,2), of ?f]
  have p: "unat (b_refcnt (bcache s ! i) - 1) = pins s dev b - 1" using assms(3) V(1) by (simp add: unat_sub_small)
  then have nz: "b_refcnt (bcache s ! i) - 1 \<noteq> 0" using assms(3) by auto
  show "bidx (bunpin i s) dev = bidx s dev" "busy (bunpin i s) = busy s" "disk (bunpin i s) = disk s" "dwrites (bunpin i s) = dwrites s"
    using A(1,5) V nz bidx_busy [OF assms(2)] assms(3) by (auto simp: bunpin_def)
  show "bio_step dev i s (bunpin i s) (bview s dev) ((pins s dev)(b := pins s dev b - 1)) (held s dev)"
    using A(3,6) K(3,4) V nz p by (simp add: bunpin_def bio_step_def)
qed

lemma set_data_abs:
  assumes "bio_inv dev s" "bidx s dev b = Some i" "pins s dev b \<noteq> 0" "b_valid (bcache s ! i)"
  shows "bidx (set_data i d s) dev = bidx s dev"
    "bio_step dev i s (set_data i d s) ((bview s dev)(b := d)) (pins s dev) (held s dev)"
    "busy (set_data i d s) = busy s" "disk (set_data i d s) = disk s" "dwrites (set_data i d s) = dwrites s"
    "b_valid (bcache (set_data i d s) ! i)" "b_lock (bcache (set_data i d s) ! i) = b_lock (bcache s ! i)"
proof -
  let ?f = "\<lambda>u. u\<lparr>b_data := d\<rparr>"
  note V = bidx_vals [OF assms(2)] and A = upd_buf_abs [OF assms(1,2), of ?f] and K = upd_buf_keep [OF assms(1,2), of ?f]
  have nz: "b_refcnt (bcache s ! i) \<noteq> 0" using V(1) assms(3) by auto
  show "bidx (set_data i d s) dev = bidx s dev" "busy (set_data i d s) = busy s" "disk (set_data i d s) = disk s"
    "dwrites (set_data i d s) = dwrites s" using A(1) K(2) V by (simp_all add: set_data_def)
  show "bio_step dev i s (set_data i d s) ((bview s dev)(b := d)) (pins s dev) (held s dev)"
    using A(2,6) K(1,3) V nz assms(4) by (simp add: set_data_def bio_step_def)
  show "b_valid (bcache (set_data i d s) ! i)" "b_lock (bcache (set_data i d s) ! i) = b_lock (bcache s ! i)"
    using assms(4) V(4) bio_inv_length [OF assms(1)] by (simp_all add: set_data_def)
qed

lemma unpinned_clean:
  assumes "bio_inv dev s" "pins s dev b = 0"
  shows "bview s dev b = disk s b"
proof (cases "bidx s dev b")
  case (Some i)
  note V = bidx_vals [OF Some]
  have "b_refcnt (bcache s ! i) = 0" using V(1) assms(2) by (simp add: unat_eq_zero)
  then show ?thesis using assms(1) V(4-6) Some by (auto simp: bio_inv_def bufs_ok_def bview_def)
qed (simp add: bview_def)

subsection \<open>The initial cache\<close>

lemma binit_loop_linked:
  assumes "linked (nxt (bcache s)) (prv (bcache s)) (NBUF # l @ [NBUF])" "length (bcache s) = Suc NBUF"
    and "distinct (NBUF # is @ l)" "set (is @ l) \<subseteq> {i. i < NBUF}"
  shows "linked (nxt (bcache (binit_loop is s))) (prv (bcache (binit_loop is s))) (NBUF # rev is @ l @ [NBUF])"
  using assms
proof (induction "is" arbitrary: s l)
  case (Cons i "is")
  let ?s = "upd_buf i (\<lambda>b. b\<lparr>b_lock := initsleeplock (b_lock b)\<rparr>) s"
  have "linked (nxt (bcache ?s)) (prv (bcache ?s)) (NBUF # l @ [NBUF])" using Cons.prems(1) by (simp add: nxt_keep)
  then have "linked (nxt (bcache (push_front i ?s))) (prv (bcache (push_front i ?s))) (NBUF # (i # l) @ [NBUF])"
    using Cons.prems(2-) ring_push [of ?s l i] by auto
  then show ?case using Cons.prems(2-) Cons.IH [of "push_front i ?s" "i # l"] by auto
qed simp

definition fresh_buf :: "buf \<Rightarrow> bool" where
  "fresh_buf b \<longleftrightarrow> b_dev b = 0 \<and> b_refcnt b = 0 \<and> \<not> sl_locked (b_lock b)"

lemma fresh_push: "list_all fresh_buf (bcache (push_front i s)) = list_all fresh_buf (bcache s)"
proof -
  have "list_all fresh_buf bs = list_all fresh_buf (map pay bs)" for bs
    by (induction bs) (simp_all add: fresh_buf_def pay_def)
  then show ?thesis by (metis push_front_pay)
qed

lemma binit_loop_fresh:
  assumes "list_all fresh_buf (bcache s)" "set is \<subseteq> {i. i < length (bcache s)}"
  shows "list_all fresh_buf (bcache (binit_loop is s)) \<and> disk (binit_loop is s) = disk s \<and>
    length (bcache (binit_loop is s)) = length (bcache s) \<and> bio_frame (binit_loop is s) = bio_frame s"
  using assms
proof (induction "is" arbitrary: s)
  case (Cons i "is")
  let ?s = "upd_buf i (\<lambda>b. b\<lparr>b_lock := initsleeplock (b_lock b)\<rparr>) s"
  have "list_all fresh_buf (bcache ?s)"
    using Cons.prems by (auto simp: list_all_length nth_list_update fresh_buf_def initsleeplock_def)
  moreover have "disk (push_front i ?s) = disk s" by (simp add: push_front_def Let_def)
  ultimately show ?case using Cons.IH [of "push_front i ?s"] Cons.prems(2) by (simp add: fresh_push)
qed simp

lemma binit_inv:
  assumes "list_all fresh_buf (bcache s)" "length (bcache s) = Suc NBUF" "dev \<noteq> 0"
  shows "bio_inv dev (binit s)" "busy (binit s) = {}" "bio_frame (binit s) = bio_frame s" "\<And>b. bidx (binit s) dev b = None"
    "disk (binit s) = disk s"
proof -
  define s0 where "s0 = upd_buf NBUF (\<lambda>b. b\<lparr>b_prev := NBUF, b_next := NBUF\<rparr>) s"
  have eq: "binit s = binit_loop [0 ..< NBUF] s0" by (simp only: binit_def s0_def)
  have n: "bcache s0 ! i = (if i = NBUF then (bcache s ! i)\<lparr>b_prev := NBUF, b_next := NBUF\<rparr> else bcache s ! i)" for i
    using assms(2) by (simp add: s0_def nth_list_update)
  have len: "length (bcache s0) = Suc NBUF" using assms(2) by (simp add: s0_def)
  have f0: "list_all fresh_buf (bcache s0)"
    using assms(1,2) unfolding list_all_length len by (simp add: n fresh_buf_def)
  have "linked (nxt (bcache s0)) (prv (bcache s0)) (NBUF # [] @ [NBUF])" by (simp add: nxt_def prv_def n)
  then have "linked (nxt (bcache (binit s))) (prv (bcache (binit s))) (NBUF # rev [0 ..< NBUF] @ [] @ [NBUF])"
    unfolding eq by (rule binit_loop_linked [OF _ len]) (auto simp del: upt_rec_numeral upt.simps)
  moreover note F = binit_loop_fresh [OF f0, of "[0 ..< NBUF]", folded eq]
  have sub: "set [0 ..< NBUF] \<subseteq> {i. i < length (bcache s0)}" unfolding len by (auto simp del: upt_rec_numeral upt.simps)
  note F = F [OF sub]
  ultimately have "ring (bcache (binit s)) (rev [0 ..< NBUF])" using len unfolding ring_def
    by (auto simp del: upt_rec_numeral upt.simps)
  moreover have fr: "fresh_buf (bcache (binit s) ! i)" if "i < NBUF" for i
    using F len that by (simp add: list_all_length)
  then have nb: "\<not> is_buf (binit s) dev b i" for b i using assms(3) by (auto simp: is_buf_def fresh_buf_def)
  moreover have "bufs_ok dev (binit s)" using fr nb assms(3) by (auto simp: bufs_ok_def fresh_buf_def)
  ultimately show "bio_inv dev (binit s)" by (auto simp: bio_inv_def)
  show "busy (binit s) = {}" using fr by (auto simp: busy_def fresh_buf_def)
  show "bio_frame (binit s) = bio_frame s" "disk (binit s) = disk s" using F by (simp_all add: s0_def)
  show "bidx (binit s) dev b = None" for b using nb by (simp add: bidx_None)
qed

subsection \<open>Properties\<close>

text \<open>
  C19. \<^verbatim>\<open>bread\<close> returns the block. When the cache has room (the block is cached or some buffer is not
  referenced) and nobody has the block locked, \<^verbatim>\<open>bread\<close> does not panic; it returns a valid buffer, locked
  by the caller, with the current contents of the block, changes the contents of no block, and
  keeps the invariant of the cache (the list is a ring of all buffers, a block has at most one buffer).
\<close>

theorem bread_contents:
  assumes "bio_inv dev s" "running s p" "\<not> held s dev b" "bidx s dev b \<noteq> None \<or> busy s \<noteq> {i. i < NBUF}"
    and "pins s dev b < 2 ^ 32 - 1"
  shows "\<exists>i s'. bread dev b s = Some (i, s') \<and> is_buf s' dev b i \<and> b_data (bcache s' ! i) = bview s dev b \<and>
    b_valid (bcache s' ! i) \<and> holdingsleep s' (b_lock (bcache s' ! i)) \<and>
    bview s' dev = bview s dev \<and> disk s' = disk s \<and> bio_inv dev s'"
proof -
  obtain i s' where "bread dev b s = Some (i, s')" "bidx s' dev b = Some i" "b_data (bcache s' ! i) = bview s dev b"
    "b_valid (bcache s' ! i)" "holdingsleep s' (b_lock (bcache s' ! i))" "disk s' = disk s"
    "bio_step dev i s s' (bview s dev) ((pins s dev)(b := Suc (pins s dev b))) ((held s dev)(b := True))"
    using bread_abs [OF assms] by (elim exE conjE) (rule that)
  then show ?thesis using bidx_SomeD [of s' dev b i] by (auto simp: bio_step_def)
qed

text \<open>A CPU that runs process 0, an empty cache after \<^verbatim>\<open>binit\<close> and a disk with one block that is not zero.\<close>

definition zero_buf :: buf where
  "zero_buf = \<lparr>b_valid = False, b_disk = False, b_dev = 0, b_blockno = 0, b_lock = \<lparr>sl_locked = False, sl_pid = 0\<rparr>,
     b_refcnt = 0, b_prev = 0, b_next = 0, b_data = replicate BSIZE 0\<rparr>"

definition boot_bio :: "(u32 \<Rightarrow> u8 list) \<Rightarrow> 'a \<Rightarrow> 'a kbio_scheme" where
  "boot_bio d m = \<lparr>mem = (\<lambda>_. 0), k_end = 0, freelist = 0, nfree = 0, nalloc = 0, procs = [proc_zero\<lparr>state := RUNNING, pid := 1\<rparr>],
     cpus = [cpu_zero\<lparr>cpu_proc := Some 0\<rparr>], hart = 0, initproc = Some 0, nextpid = 2, rand_state = 1, ticks = 0,
     bcache = replicate (Suc NBUF) zero_buf, disk = d, dwrites = [], \<dots> = m\<rparr>"

lemma boot_bio_inv:
  assumes "dev \<noteq> 0"
  shows "bio_inv dev (binit (boot_bio d m))" "busy (binit (boot_bio d m)) = {}" "running (binit (boot_bio d m)) 0"
    "disk (binit (boot_bio d m)) = d" "bidx (binit (boot_bio d m)) dev b = None" "bview (binit (boot_bio d m)) dev b = d b"
    "pins (binit (boot_bio d m)) dev b = 0" "\<not> held (binit (boot_bio d m)) dev b"
proof -
  have "list_all fresh_buf (bcache (boot_bio d m))" "length (bcache (boot_bio d m)) = Suc NBUF"
    by (simp_all add: boot_bio_def list_all_length fresh_buf_def zero_buf_def)
  note B = binit_inv [OF this assms]
  show "bio_inv dev (binit (boot_bio d m))" "busy (binit (boot_bio d m)) = {}" "bidx (binit (boot_bio d m)) dev b = None"
    using B by simp_all
  show "disk (binit (boot_bio d m)) = d" using B(5) by (simp add: boot_bio_def)
  then show "bview (binit (boot_bio d m)) dev b = d b" "pins (binit (boot_bio d m)) dev b = 0" "\<not> held (binit (boot_bio d m)) dev b"
    using B(4) [of b] by (simp_all add: bview_def pins_def held_def)
  have "running (boot_bio d m) 0" by (simp add: boot_bio_def running_def myproc_def mycpu_def cpuid_def)
  then show "running (binit (boot_bio d m)) 0" using bio_frame_proc(5) [OF B(3)] by simp
qed

theorem bread_contents_witness:
  "\<exists>i s'. bread 1 5 (binit (boot_bio (\<lambda>b. if b = 5 then [7, 8] else []) ())) = Some (i, s') \<and> b_data (bcache s' ! i) = [7, 8]"
proof -
  let ?s = "binit (boot_bio (\<lambda>b. if b = 5 then [7, 8] else []) ())"
  have one: "(1 :: u32) \<noteq> 0" by simp
  note B = boot_bio_inv [OF one, where d = "\<lambda>b. if b = 5 then [7, 8] else []" and m = "()"]
  have room: "bidx ?s 1 5 \<noteq> None \<or> busy ?s \<noteq> {i. i < NBUF}"
    unfolding B(2) by (metis (mono_tags, lifting) empty_Collect_eq zero_less_numeral)
  have small: "pins ?s 1 5 < 2 ^ 32 - 1" unfolding B(7) by simp
  have view: "bview ?s 1 5 = [7, 8]" unfolding B(6) by simp
  show ?thesis using bread_contents [OF B(1,3) B(8) room small] unfolding view by blast
qed

end
