(* ===== verification/Log.thy ===== *)
theory Log
  imports Bio
begin

section \<open>The log\<close>

text \<open>
  \<^verbatim>\<open>kernel/log.c\<close>: transactions over the buffer cache. \<^verbatim>\<open>log_write\<close> records and pins modified blocks,
  and the last \<^verbatim>\<open>end_op\<close> commits: blocks to the log, header, blocks to their homes, empty header. The main result is
  about crashes: whatever part of the disk writes of a commit has reached the disk, recovery
  at the next start finds either none or all of the transaction.
\<close>

subsection \<open>State\<close>

text \<open>Reading and writing a 32-bit field of a block.\<close>

definition get32 :: "u8 list \<Rightarrow> nat \<Rightarrow> u32" where
  "get32 bs off = le_word (take 4 (drop off bs))"

definition put_bytes :: "u8 list \<Rightarrow> nat \<Rightarrow> u8 list \<Rightarrow> u8 list" where
  "put_bytes bs off xs = take off bs @ xs @ drop (off + length xs) bs"

definition put32 :: "u8 list \<Rightarrow> nat \<Rightarrow> u32 \<Rightarrow> u8 list" where
  "put32 bs off v = put_bytes bs off (le_bytes 4 v)"

record logheader =
  lh_n :: cint
  lh_block :: "cint list"

record klog = kbio +
  log_start :: cint
  outstanding :: cint
  committing :: bool
  log_dev :: cint
  lh :: logheader

text \<open>The loops over the logged blocks run for \<^verbatim>\<open>tail = 0, ..., lh.n - 1\<close>.\<close>

definition log_tails :: "'a klog_scheme \<Rightarrow> nat list" where
  "log_tails s = [0 ..< nat (sint (lh_n (lh s)))]"

subsection \<open>Recovery and commit\<close>

text \<open>One round of the loop in \<^verbatim>\<open>install_trans\<close>. The message printed during recovery is left out.\<close>

definition install_one :: "bool \<Rightarrow> nat \<Rightarrow> 'a klog_scheme \<Rightarrow> 'a klog_scheme option" where
  "install_one recovering tail s = do {
     (lbuf, s) \<leftarrow> bread (log_dev s) (log_start s + of_nat tail + 1) s;
     (dbuf, s) \<leftarrow> bread (log_dev s) (lh_block (lh s) ! tail) s;
     let s = set_data dbuf (b_data (bcache s ! lbuf)) s;
     s \<leftarrow> bwrite dbuf s;
     let s = (if \<not> recovering then bunpin dbuf s else s);
     s \<leftarrow> brelse lbuf s;
     brelse dbuf s }"

fun install_loop :: "bool \<Rightarrow> nat list \<Rightarrow> 'a klog_scheme \<Rightarrow> 'a klog_scheme option" where
  "install_loop recovering [] s = Some s"
| "install_loop recovering (t # ts) s = do { s \<leftarrow> install_one recovering t s; install_loop recovering ts s }"

definition install_trans :: "bool \<Rightarrow> 'a klog_scheme \<Rightarrow> 'a klog_scheme option" where
  "install_trans recovering s = install_loop recovering (log_tails s) s"

text \<open>
  A header on disk with more entries than the array \<^verbatim>\<open>log.lh.block\<close> has would make \<^verbatim>\<open>read_head\<close> write
  past the array; what happens then is outside the model.
\<close>

definition read_head :: "'a klog_scheme \<Rightarrow> 'a klog_scheme option" where
  "read_head s = do {
     (i, s) \<leftarrow> bread (log_dev s) (log_start s) s;
     let d = b_data (bcache s ! i);
     let n = get32 d 0;
     if int LOGBLOCKS < sint n then panic ''array index''
     else brelse i (s\<lparr>lh := \<lparr>lh_n = n,
       lh_block = map (\<lambda>k. get32 d (4 + 4 * k)) [0 ..< nat (sint n)] @ drop (nat (sint n)) (lh_block (lh s))\<rparr>\<rparr>) }"

fun put_blocks :: "u8 list \<Rightarrow> nat \<Rightarrow> cint list \<Rightarrow> u8 list" where
  "put_blocks d k [] = d"
| "put_blocks d k (b # bs) = put_blocks (put32 d (4 + 4 * k) b) (Suc k) bs"

definition write_head :: "'a klog_scheme \<Rightarrow> 'a klog_scheme option" where
  "write_head s = do {
     (i, s) \<leftarrow> bread (log_dev s) (log_start s) s;
     let s = set_data i (put_blocks (put32 (b_data (bcache s ! i)) 0 (lh_n (lh s))) 0
                            (take (nat (sint (lh_n (lh s)))) (lh_block (lh s)))) s;
     s \<leftarrow> bwrite i s;
     brelse i s }"

definition recover_from_log :: "'a klog_scheme \<Rightarrow> 'a klog_scheme option" where
  "recover_from_log s = do {
     s \<leftarrow> read_head s;
     s \<leftarrow> install_trans True s;
     write_head (s\<lparr>lh := (lh s)\<lparr>lh_n := 0\<rparr>\<rparr>) }"

text \<open>\<^verbatim>\<open>sizeof(struct logheader)\<close> is 124, below the block size, so the test at the start of \<^verbatim>\<open>initlog\<close> never fails.\<close>

definition initlog :: "cint \<Rightarrow> u32 \<Rightarrow> 'a klog_scheme \<Rightarrow> 'a klog_scheme option" where
  "initlog dev logstart s =
     (if BSIZE \<le> 4 + 4 * LOGBLOCKS then panic ''initlog: too big logheader''
      else recover_from_log (s\<lparr>log_start := logstart, log_dev := dev\<rparr>))"

definition write_log_one :: "nat \<Rightarrow> 'a klog_scheme \<Rightarrow> 'a klog_scheme option" where
  "write_log_one tail s = do {
     (to, s) \<leftarrow> bread (log_dev s) (log_start s + of_nat tail + 1) s;
     (from, s) \<leftarrow> bread (log_dev s) (lh_block (lh s) ! tail) s;
     let s = set_data to (b_data (bcache s ! from)) s;
     s \<leftarrow> bwrite to s;
     s \<leftarrow> brelse from s;
     brelse to s }"

fun write_log_loop :: "nat list \<Rightarrow> 'a klog_scheme \<Rightarrow> 'a klog_scheme option" where
  "write_log_loop [] s = Some s"
| "write_log_loop (t # ts) s = do { s \<leftarrow> write_log_one t s; write_log_loop ts s }"

definition write_log :: "'a klog_scheme \<Rightarrow> 'a klog_scheme option" where
  "write_log s = write_log_loop (log_tails s) s"

definition commit :: "'a klog_scheme \<Rightarrow> 'a klog_scheme option" where
  "commit s =
     (if 0 <s lh_n (lh s) then do {
        s \<leftarrow> write_log s;
        s \<leftarrow> write_head s;
        s \<leftarrow> install_trans False s;
        write_head (s\<lparr>lh := (lh s)\<lparr>lh_n := 0\<rparr>\<rparr>) }
      else Some s)"

subsection \<open>Transactions\<close>

text \<open>The loop of \<^verbatim>\<open>begin_op\<close>: \<^const>\<open>None\<close> when the caller has to sleep on the log.\<close>

definition begin_op :: "'a klog_scheme \<Rightarrow> 'a klog_scheme option" where
  "begin_op s =
     (if committing s then None
      else if of_nat LOGBLOCKS <s lh_n (lh s) + (outstanding s + 1) * of_nat MAXOPBLOCKS then None
      else Some (s\<lparr>outstanding := outstanding s + 1\<rparr>))"

definition end_op :: "'a klog_scheme \<Rightarrow> 'a klog_scheme option" where
  "end_op s =
     (let s = s\<lparr>outstanding := outstanding s - 1\<rparr> in
      if committing s then panic ''log.committing''
      else if outstanding s = 0 then do {
        s \<leftarrow> commit (s\<lparr>committing := True\<rparr>);
        Some (wakeup ChLog (s\<lparr>committing := False\<rparr>)) }
      else Some (wakeup ChLog s))"

text \<open>The loop of \<^verbatim>\<open>log_write\<close>: the position of the block in the header, or the number of entries.\<close>

fun log_find :: "cint list \<Rightarrow> cint \<Rightarrow> nat \<Rightarrow> nat" where
  "log_find [] b i = i"
| "log_find (x # xs) b i = (if x = b then i else log_find xs b (Suc i))"

definition log_write :: "nat \<Rightarrow> 'a klog_scheme \<Rightarrow> 'a klog_scheme option" where
  "log_write b s =
     (let n = lh_n (lh s); bno = b_blockno (bcache s ! b) in
      if of_nat LOGBLOCKS \<le>s n then panic ''too big a transaction''
      else if outstanding s <s 1 then panic ''log_write outside of trans''
      else
        let i = log_find (take (nat (sint n)) (lh_block (lh s))) bno 0;
            s = s\<lparr>lh := (lh s)\<lparr>lh_block := (lh_block (lh s))[i := bno]\<rparr>\<rparr> in
        if i = nat (sint n) then
          let s = bpin b s in Some (s\<lparr>lh := (lh s)\<lparr>lh_n := n + 1\<rparr>\<rparr>)
        else Some s)"

subsection \<open>Using one or two blocks\<close>

text \<open>No block of the device is locked, and a process runs. The second part is the room for \<open>n\<close> more buffers.\<close>

definition quiet :: "u32 \<Rightarrow> nat \<Rightarrow> 'a kbio_scheme \<Rightarrow> bool" where
  "quiet dev p s \<longleftrightarrow> bio_inv dev s \<and> running s p \<and> (\<forall>b. \<not> held s dev b)"

definition room :: "nat \<Rightarrow> 'a kbio_scheme \<Rightarrow> bool" where
  "room n s \<longleftrightarrow> card (busy s) + n \<le> NBUF"

lemma busy_finite [simp]: "finite (busy s)"
  by (simp add: busy_def)

lemma room_busy: "room (Suc n) s \<Longrightarrow> busy s \<noteq> {i. i < NBUF}"
proof
  assume "room (Suc n) s" "busy s = {i. i < NBUF}"
  then have "card {i. i < NBUF} + Suc n \<le> NBUF" unfolding room_def by metis
  then show False unfolding card_Collect_less_nat by linarith
qed

lemma room_insert: "room (Suc n) s \<Longrightarrow> busy s' = insert i (busy s) \<Longrightarrow> room n s'"
  using card_insert_le_m1 [of "Suc (card (busy s))" "busy s" i] by (simp add: room_def)

text \<open>What an operation that brings the cache back to rest has done.\<close>

definition rest_step ::
  "u32 \<Rightarrow> nat \<Rightarrow> 'a kbio_scheme \<Rightarrow> 'a kbio_scheme \<Rightarrow> (u32 \<Rightarrow> u8 list) \<Rightarrow> (u32 \<Rightarrow> nat) \<Rightarrow> bool" where
  "rest_step dev p s s' v q \<longleftrightarrow> quiet dev p s' \<and> bview s' dev = v \<and> pins s' dev = q \<and> bio_frame s' = bio_frame s"

lemma get_block:
  assumes "quiet dev p s" "room (Suc n) s" "pins s dev b < 2 ^ 32 - 1"
  obtains i s' where "bread dev b s = Some (i, s')" "bidx s' dev b = Some i" "b_data (bcache s' ! i) = bview s dev b"
    "b_valid (bcache s' ! i)" "bio_inv dev s'" "bview s' dev = bview s dev" "pins s' dev = (pins s dev)(b := Suc (pins s dev b))"
    "held s' dev = (\<lambda>c. c = b)" "bio_frame s' = bio_frame s" "busy s' = insert i (busy s)" "(i \<in> busy s) = (pins s dev b \<noteq> 0)"
    "disk s' = disk s" "dwrites s' = dwrites s" "holdingsleep s' (b_lock (bcache s' ! i))" "running s' p" "room n s'"
proof -
  have q: "bio_inv dev s" "running s p" "\<not> held s dev b" and nh: "held s dev = (\<lambda>c. False)"
    using assms(1) by (auto simp: quiet_def)
  have r: "bidx s dev b \<noteq> None \<or> busy s \<noteq> {i. i < NBUF}" using room_busy [OF assms(2)] by simp
  from bread_abs [OF q r assms(3)] obtain i s' where
    B: "bread dev b s = Some (i, s')" "bidx s' dev b = Some i" "b_data (bcache s' ! i) = bview s dev b" "b_valid (bcache s' ! i)"
    "bio_step dev i s s' (bview s dev) ((pins s dev)(b := Suc (pins s dev b))) ((held s dev)(b := True))"
    "(i \<in> busy s) = (pins s dev b \<noteq> 0)" "busy s' = insert i (busy s)" "disk s' = disk s" "dwrites s' = dwrites s"
    "holdingsleep s' (b_lock (bcache s' ! i))" by (elim exE conjE) (rule that)
  then have S: "bio_inv dev s'" "bview s' dev = bview s dev" "pins s' dev = (pins s dev)(b := Suc (pins s dev b))"
    "held s' dev = (\<lambda>c. c = b)" "bio_frame s' = bio_frame s" using nh by (simp_all add: bio_step_def fun_eq_iff)
  show thesis
    by (rule that [OF B(1-4) S B(7,6,8,9,10)])
      (use q(2) bio_frame_proc(5) [OF S(5)] room_insert [OF assms(2) B(7)] in simp_all)
qed

text \<open>Modifying a block and writing it to the disk, as in \<^verbatim>\<open>write_head\<close>.\<close>

lemma write_block:
  assumes "quiet dev p s" "room 1 s" "pins s dev b < 2 ^ 32 - 1"
  shows "\<exists>i s1 s2 s3. bread dev b s = Some (i, s1) \<and> b_data (bcache s1 ! i) = bview s dev b \<and> bio_frame s1 = bio_frame s \<and>
    bwrite i (set_data i d s1) = Some s2 \<and> brelse i s2 = Some s3 \<and>
    rest_step dev p s s3 ((bview s dev)(b := d)) (pins s dev) \<and> busy s3 = busy s \<and>
    disk s3 = (disk s)(b := d) \<and> dwrites s3 = dwrites s @ [(b, d)]"
proof -
  have room: "room (Suc 0) s" using assms(2) by simp
  obtain i s1 where g: "bread dev b s = Some (i, s1)" "bidx s1 dev b = Some i" "b_data (bcache s1 ! i) = bview s dev b"
    "b_valid (bcache s1 ! i)" "bio_inv dev s1" "bview s1 dev = bview s dev" "pins s1 dev = (pins s dev)(b := Suc (pins s dev b))"
    "held s1 dev = (\<lambda>c. c = b)" "bio_frame s1 = bio_frame s" "busy s1 = insert i (busy s)" "(i \<in> busy s) = (pins s dev b \<noteq> 0)"
    "disk s1 = disk s" "dwrites s1 = dwrites s" "holdingsleep s1 (b_lock (bcache s1 ! i))" "running s1 p"
    using get_block [OF assms(1) room assms(3)] by metis
  have p1: "pins s1 dev b \<noteq> 0" using g(7) by simp
  define t where "t = set_data i d s1"
  note D = set_data_abs [OF g(5,2) p1 g(4), of d, folded t_def]
  have t: "bio_inv dev t" "bview t dev = (bview s dev)(b := d)" "pins t dev = pins s1 dev" "held t dev = held s1 dev"
    "bio_frame t = bio_frame s" "bidx t dev b = Some i" using D(1,2) g by (simp_all add: bio_step_def)
  have ht: "holdingsleep t (b_lock (bcache t ! i))" using g(14) D(7) by (simp add: t_def set_data_def)
  obtain s2 where w: "bwrite i t = Some s2" "bio_step dev i t s2 (bview t dev) (pins t dev) (held t dev)" "bidx s2 = bidx t"
    "bcache s2 = bcache t" "busy s2 = busy t" "disk s2 = (disk t)(b := bview t dev b)" "dwrites s2 = dwrites t @ [(b, bview t dev b)]"
    using bwrite_abs [OF t(1,6) ht D(6)] by (elim exE conjE) (rule that)
  have s2: "bio_inv dev s2" "bidx s2 dev b = Some i" "pins s2 dev = pins s1 dev" "bview s2 dev = (bview s dev)(b := d)"
    "held s2 dev = held s1 dev" "bio_frame s2 = bio_frame s" "running t p"
    using w t g(9,15) bio_frame_proc(5) [of t s1] by (simp_all add: bio_step_def)
  have h2: "holdingsleep s2 (b_lock (bcache s2 ! i))" using ht holdingsleep_frame [of s2 t p] s2 t(5) w(4) by simp
  obtain s3 where r: "brelse i s2 = Some s3"
    "bio_step dev i s2 s3 (bview s2 dev) ((pins s2 dev)(b := pins s2 dev b - 1)) ((held s2 dev)(b := False))"
    "busy s3 = (if pins s2 dev b = 1 then busy s2 - {i} else busy s2)" "disk s3 = disk s2" "dwrites s3 = dwrites s2"
    using brelse_abs [OF s2(1,2) h2] s2(3,4) w(6) t(2) p1 by (auto simp: that)
  have f3: "pins s3 dev = pins s dev" "held s3 dev = (\<lambda>c. False)" "bio_frame s3 = bio_frame s"
    "bio_inv dev s3" "bview s3 dev = (bview s dev)(b := d)"
    using r(2) s2 g(7,8) by (auto simp: bio_step_def fun_eq_iff)
  have "running s3 p" using bio_frame_proc(5) [of s3 s1] f3(3) g(9,15) by simp
  then have rs: "rest_step dev p s s3 ((bview s dev)(b := d)) (pins s dev)"
    using f3 by (simp add: rest_step_def quiet_def)
  have "busy s3 = busy s" using r(3) s2(3) g(7,10,11) w(5) D(3) by auto
  moreover have "disk s3 = (disk s)(b := d)" "dwrites s3 = dwrites s @ [(b, d)]" using r(4,5) w(6,7) t(2) D(4,5) g(12,13) by simp_all
  ultimately show ?thesis using g(1,3,9) w(1) r(1) rs unfolding t_def by blast
qed

lemma get_two:
  assumes "quiet dev p s" "room 2 s" "pins s dev a < 2 ^ 32 - 1" "pins s dev b < 2 ^ 32 - 1" "a \<noteq> b"
  obtains i j s1 s2 where "bread dev a s = Some (i, s1)" "bread dev b s1 = Some (j, s2)"
    "bidx s2 dev a = Some i" "bidx s2 dev b = Some j" "bio_frame s1 = bio_frame s"
    "b_data (bcache s2 ! i) = bview s dev a" "b_data (bcache s2 ! j) = bview s dev b" "b_valid (bcache s2 ! i)" "b_valid (bcache s2 ! j)"
    "bio_inv dev s2" "bview s2 dev = bview s dev" "pins s2 dev = (pins s dev)(a := Suc (pins s dev a), b := Suc (pins s dev b))"
    "held s2 dev = (\<lambda>c. c = a \<or> c = b)" "bio_frame s2 = bio_frame s" "busy s2 = insert j (insert i (busy s))"
    "(i \<in> busy s) = (pins s dev a \<noteq> 0)" "(j \<in> busy s) = (pins s dev b \<noteq> 0)" "i \<noteq> j"
    "disk s2 = disk s" "dwrites s2 = dwrites s" "holdingsleep s2 (b_lock (bcache s2 ! i))" "holdingsleep s2 (b_lock (bcache s2 ! j))"
    "running s2 p"
proof -
  have r2: "room (Suc 1) s" using assms(2) by (simp add: numeral_2_eq_2)
  obtain i s1 where g: "bread dev a s = Some (i, s1)" "bidx s1 dev a = Some i" "b_data (bcache s1 ! i) = bview s dev a"
    "b_valid (bcache s1 ! i)" "bio_inv dev s1" "bview s1 dev = bview s dev" "pins s1 dev = (pins s dev)(a := Suc (pins s dev a))"
    "held s1 dev = (\<lambda>c. c = a)" "bio_frame s1 = bio_frame s" "busy s1 = insert i (busy s)" "(i \<in> busy s) = (pins s dev a \<noteq> 0)"
    "disk s1 = disk s" "dwrites s1 = dwrites s" "holdingsleep s1 (b_lock (bcache s1 ! i))" "running s1 p" "room 1 s1"
    by (rule get_block [OF assms(1) r2 assms(3)])
  have q: "\<not> held s1 dev b" "bidx s1 dev b \<noteq> None \<or> busy s1 \<noteq> {i. i < NBUF}" "pins s1 dev b < 2 ^ 32 - 1"
    using g(7,8,16) assms(4,5) room_busy [of 0 s1] by simp_all
  from bread_abs [OF g(5,15) q] obtain j s2 where
    B: "bread dev b s1 = Some (j, s2)" "bidx s2 dev b = Some j" "b_data (bcache s2 ! j) = bview s1 dev b" "b_valid (bcache s2 ! j)"
    "bio_step dev j s1 s2 (bview s1 dev) ((pins s1 dev)(b := Suc (pins s1 dev b))) ((held s1 dev)(b := True))"
    "(j \<in> busy s1) = (pins s1 dev b \<noteq> 0)" "keeps_pinned dev b s1 s2" "busy s2 = insert j (busy s1)" "disk s2 = disk s1"
    "dwrites s2 = dwrites s1" "holdingsleep s2 (b_lock (bcache s2 ! j))" by (elim exE conjE) (rule that)
  have ia: "bidx s2 dev a = Some i" using B(7) g(2,7) assms(5) by (simp add: keeps_pinned_def)
  have ij: "i \<noteq> j" using bidx_vals(6) [OF ia] bidx_vals(6) [OF B(2)] assms(5) by auto
  have S: "bio_inv dev s2" "bview s2 dev = bview s dev" "pins s2 dev = (pins s dev)(a := Suc (pins s dev a), b := Suc (pins s dev b))"
    "held s2 dev = (\<lambda>c. c = a \<or> c = b)" "bio_frame s2 = bio_frame s" "pay (bcache s2 ! i) = pay (bcache s1 ! i)"
    using B(5) g(6-9) assms(5) ij bidx_vals(4) [OF ia] by (auto simp: bio_step_def fun_eq_iff)
  note P = pay_eqD [OF S(6)]
  have run2: "running s2 p" using bio_frame_proc(5) [of s2 s1] S(5) g(9,15) by simp
  have h2: "holdingsleep s2 (b_lock (bcache s2 ! i))"
    using g(14) P(4) holdingsleep_frame [of s2 s1 p] S(5) g(9,15) by simp
  have jb: "(j \<in> busy s) = (pins s dev b \<noteq> 0)" using B(6) g(7,10) assms(5) ij by auto
  show thesis
    by (rule that [OF g(1) B(1) ia B(2) g(9) _ _ _ B(4) S(1-5) _ g(11) jb ij _ _ h2 B(11) run2])
      (use P g(3,4,6,10,12,13) B(3,8-10) in simp_all)
qed

lemma rel_two:
  assumes "bio_inv dev t" "bidx t dev x = Some i" "bidx t dev y = Some j" "x \<noteq> y" "running t p"
    and "holdingsleep t (b_lock (bcache t ! i))" "holdingsleep t (b_lock (bcache t ! j))"
    and "pins t dev x \<noteq> 0" "pins t dev y \<noteq> 0" "pins t dev x = 1 \<longrightarrow> bview t dev x = disk t x"
      "pins t dev y = 1 \<longrightarrow> bview t dev y = disk t y" "held t dev = (\<lambda>c. c = x \<or> c = y)"
  obtains t1 t2 where "brelse i t = Some t1" "brelse j t1 = Some t2"
    "rest_step dev p t t2 (bview t dev) ((pins t dev)(x := pins t dev x - 1, y := pins t dev y - 1))"
    "busy t2 = busy t - (if pins t dev x = 1 then {i} else {}) - (if pins t dev y = 1 then {j} else {})"
    "disk t2 = disk t" "dwrites t2 = dwrites t"
proof -
  have ij: "i \<noteq> j" using bidx_vals(6) [OF assms(2)] bidx_vals(6) [OF assms(3)] assms(4) by auto
  from brelse_abs [OF assms(1,2,6,8,10)] obtain t1 where
    r: "brelse i t = Some t1" "bidx t1 dev = bidx t dev"
    "bio_step dev i t t1 (bview t dev) ((pins t dev)(x := pins t dev x - 1)) ((held t dev)(x := False))"
    "busy t1 = (if pins t dev x = 1 then busy t - {i} else busy t)" "disk t1 = disk t" "dwrites t1 = dwrites t"
    by (elim exE conjE) (rule that)
  have s: "bio_inv dev t1" "bidx t1 dev y = Some j" "pins t1 dev y = pins t dev y" "bview t1 dev = bview t dev"
    "bio_frame t1 = bio_frame t" "pay (bcache t1 ! j) = pay (bcache t ! j)"
    using r(2,3) assms(3,4) ij bidx_vals(4) [OF assms(3)] by (simp_all add: bio_step_def)
  have h: "holdingsleep t1 (b_lock (bcache t1 ! j))"
    using assms(7) pay_eqD(4) [OF s(6)] holdingsleep_frame [OF s(5) assms(5)] by simp
  have "pins t1 dev y \<noteq> 0" "pins t1 dev y = 1 \<longrightarrow> bview t1 dev y = disk t1 y" using s(3,4) r(5) assms(9,11) by simp_all
  from brelse_abs [OF s(1,2) h this] obtain t2 where
    q: "brelse j t1 = Some t2" "bidx t2 dev = bidx t1 dev"
    "bio_step dev j t1 t2 (bview t1 dev) ((pins t1 dev)(y := pins t1 dev y - 1)) ((held t1 dev)(y := False))"
    "busy t2 = (if pins t1 dev y = 1 then busy t1 - {j} else busy t1)" "disk t2 = disk t1" "dwrites t2 = dwrites t1"
    by (elim exE conjE) (rule that)
  have "\<forall>b. \<not> held t2 dev b" using q(3) r(3) assms(12) by (auto simp: bio_step_def)
  moreover have "bio_inv dev t2" "bview t2 dev = bview t dev" "bio_frame t2 = bio_frame t"
    "pins t2 dev = (pins t dev)(x := pins t dev x - 1, y := pins t dev y - 1)"
    using q(3) r(3) s(3-5) by (simp_all add: bio_step_def)
  moreover from this(3) have "running t2 p" using bio_frame_proc(5) [of t2 t] assms(5) by simp
  ultimately have "rest_step dev p t t2 (bview t dev) ((pins t dev)(x := pins t dev x - 1, y := pins t dev y - 1))"
    by (simp only: rest_step_def quiet_def simp_thms)
  then show thesis using that [of t1 t2] r q s(3) by auto
qed

text \<open>One round of \<^verbatim>\<open>write_log\<close> or \<^verbatim>\<open>install_trans\<close>: block \<open>a\<close> becomes a copy of block \<open>b\<close>, on the disk too.\<close>

lemma klog_frame:
  assumes "bio_frame s' = bio_frame s"
  shows "log_start s' = log_start s" "log_dev s' = log_dev s" "lh s' = lh s" "outstanding s' = outstanding s"
    "committing s' = committing s"
proof -
  have "log_start (bio_frame t) = log_start t \<and> log_dev (bio_frame t) = log_dev t \<and> lh (bio_frame t) = lh t \<and>
      outstanding (bio_frame t) = outstanding t \<and> committing (bio_frame t) = committing t" for t :: "'a klog_scheme"
    by (simp add: bio_frame_def)
  then show "log_start s' = log_start s" "log_dev s' = log_dev s" "lh s' = lh s" "outstanding s' = outstanding s"
    "committing s' = committing s" using assms by metis+
qed

lemma write_log_one_abs:
  assumes q: "quiet (log_dev s) p s" and room: "room 2 s"
    and a: "a = log_start s + of_nat k + 1" and b: "b = lh_block (lh s) ! k" and ne: "a \<noteq> b"
    and small: "pins s (log_dev s) a < 2 ^ 32 - 1" "pins s (log_dev s) b < 2 ^ 32 - 1"
  shows "\<exists>s'. write_log_one k s = Some s' \<and>
    rest_step (log_dev s) p s s' ((bview s (log_dev s))(a := bview s (log_dev s) b)) (pins s (log_dev s)) \<and>
    busy s' = busy s \<and> disk s' = (disk s)(a := bview s (log_dev s) b) \<and>
    dwrites s' = dwrites s @ [(a, bview s (log_dev s) b)]"
proof -
  let ?dev = "log_dev s"
  obtain i j s1 s2 where g: "bread ?dev a s = Some (i, s1)" "bread ?dev b s1 = Some (j, s2)"
    "bidx s2 ?dev a = Some i" "bidx s2 ?dev b = Some j" "bio_frame s1 = bio_frame s"
    "b_data (bcache s2 ! i) = bview s ?dev a" "b_data (bcache s2 ! j) = bview s ?dev b" "b_valid (bcache s2 ! i)" "b_valid (bcache s2 ! j)"
    "bio_inv ?dev s2" "bview s2 ?dev = bview s ?dev" "pins s2 ?dev = (pins s ?dev)(a := Suc (pins s ?dev a), b := Suc (pins s ?dev b))"
    "held s2 ?dev = (\<lambda>c. c = a \<or> c = b)" "bio_frame s2 = bio_frame s" "busy s2 = insert j (insert i (busy s))"
    "(i \<in> busy s) = (pins s ?dev a \<noteq> 0)" "(j \<in> busy s) = (pins s ?dev b \<noteq> 0)" "i \<noteq> j"
    "disk s2 = disk s" "dwrites s2 = dwrites s" "holdingsleep s2 (b_lock (bcache s2 ! i))" "holdingsleep s2 (b_lock (bcache s2 ! j))"
    "running s2 p" by (rule get_two [OF q room small ne])
  define d where "d = bview s ?dev b"
  define t where "t = set_data i d s2"
  have pn: "pins s2 ?dev a \<noteq> 0" using g(12) ne by simp
  note D = set_data_abs [OF g(10,3) pn g(8), of d, folded t_def]
  have t: "bio_inv ?dev t" "bview t ?dev = (bview s ?dev)(a := d)" "pins t ?dev = pins s2 ?dev" "held t ?dev = held s2 ?dev"
    "bio_frame t = bio_frame s" "bidx t ?dev a = Some i" "bidx t ?dev b = Some j" "pay (bcache t ! j) = pay (bcache s2 ! j)"
    using D(1,2) g(3,4,11,14,18) bidx_vals(4) [OF g(4)] by (simp_all add: bio_step_def)
  have run: "running t p" using bio_frame_proc(5) [of t s2] t(5) g(14,23) by simp
  have ht: "holdingsleep t (b_lock (bcache t ! i))" "holdingsleep t (b_lock (bcache t ! j))"
    using g(21,22) D(7) pay_eqD(4) [OF t(8)] holdingsleep_frame [of t s2 p] t(5) g(14,23) by simp_all
  obtain u where w: "bwrite i t = Some u" "bio_step ?dev i t u (bview t ?dev) (pins t ?dev) (held t ?dev)" "bidx u = bidx t"
    "bcache u = bcache t" "busy u = busy t" "disk u = (disk t)(a := bview t ?dev a)" "dwrites u = dwrites t @ [(a, bview t ?dev a)]"
    using bwrite_abs [OF t(1,6) ht(1) D(6)] by (elim exE conjE) (rule that)
  have u: "bio_inv ?dev u" "bidx u ?dev b = Some j" "bidx u ?dev a = Some i" "b \<noteq> a" "running u p"
    "holdingsleep u (b_lock (bcache u ! j))" "holdingsleep u (b_lock (bcache u ! i))"
    "pins u ?dev b \<noteq> 0" "pins u ?dev a \<noteq> 0" "held u ?dev = (\<lambda>c. c = b \<or> c = a)"
    using w(2-4) t(3,4,6,7) ne run bio_frame_proc(5) [of u t] holdingsleep_frame [of u t p] ht g(12,13)
    by (auto simp: bio_step_def)
  have cl: "pins u ?dev b = 1 \<longrightarrow> bview u ?dev b = disk u b" "pins u ?dev a = 1 \<longrightarrow> bview u ?dev a = disk u a"
    using w(2,6) t(2,3) D(4) g(12,19) ne unpinned_clean [of ?dev s b] q by (auto simp: bio_step_def quiet_def)
  obtain t1 t2 where r: "brelse j u = Some t1" "brelse i t1 = Some t2"
    "rest_step ?dev p u t2 (bview u ?dev) ((pins u ?dev)(b := pins u ?dev b - 1, a := pins u ?dev a - 1))"
    "busy t2 = busy u - (if pins u ?dev b = 1 then {j} else {}) - (if pins u ?dev a = 1 then {i} else {})"
    "disk t2 = disk u" "dwrites t2 = dwrites u"
    by (rule rel_two [OF u(1-9) cl u(10)])
  have fr: "log_dev s1 = ?dev" "lh s1 = lh s" using klog_frame [OF g(5)] by simp_all
  have "write_log_one k s = Some t2"
    unfolding write_log_one_def using g(1,2,7) fr w(1) r(1,2) by (simp add: a b d_def t_def)
  moreover have "bview u ?dev = (bview s ?dev)(a := d)" "pins u ?dev = pins s2 ?dev" "bio_frame u = bio_frame s"
    using w(2) t by (simp_all add: bio_step_def)
  moreover have "(pins u ?dev)(b := pins u ?dev b - 1, a := pins u ?dev a - 1) = pins s ?dev"
    using calculation(3) g(12) ne by (auto simp: fun_eq_iff)
  moreover have "busy t2 = busy s" using r(4) calculation(3) g(12,15-18) w(5) D(3) ne by auto
  ultimately show ?thesis using r(3,5,6) w(6,7) t(2) D(4,5) g(19,20) by (simp add: rest_step_def d_def)
qed

lemma install_one_abs:
  assumes q: "quiet (log_dev s) p s" and room: "room 2 s"
    and a: "a = log_start s + of_nat k + 1" and b: "b = lh_block (lh s) ! k" and ne: "a \<noteq> b"
    and small: "pins s (log_dev s) a < 2 ^ 32 - 1" "pins s (log_dev s) b < 2 ^ 32 - 1"
    and pinned: "rc \<or> pins s (log_dev s) b \<noteq> 0"
  shows "\<exists>s'. install_one rc k s = Some s' \<and>
    rest_step (log_dev s) p s s' ((bview s (log_dev s))(b := bview s (log_dev s) a))
      (if rc then pins s (log_dev s) else (pins s (log_dev s))(b := pins s (log_dev s) b - 1)) \<and>
    busy s' \<subseteq> busy s \<and> disk s' = (disk s)(b := bview s (log_dev s) a) \<and>
    dwrites s' = dwrites s @ [(b, bview s (log_dev s) a)]"
proof -
  let ?dev = "log_dev s"
  obtain i j s1 s2 where g: "bread ?dev a s = Some (i, s1)" "bread ?dev b s1 = Some (j, s2)"
    "bidx s2 ?dev a = Some i" "bidx s2 ?dev b = Some j" "bio_frame s1 = bio_frame s"
    "b_data (bcache s2 ! i) = bview s ?dev a" "b_data (bcache s2 ! j) = bview s ?dev b" "b_valid (bcache s2 ! i)" "b_valid (bcache s2 ! j)"
    "bio_inv ?dev s2" "bview s2 ?dev = bview s ?dev" "pins s2 ?dev = (pins s ?dev)(a := Suc (pins s ?dev a), b := Suc (pins s ?dev b))"
    "held s2 ?dev = (\<lambda>c. c = a \<or> c = b)" "bio_frame s2 = bio_frame s" "busy s2 = insert j (insert i (busy s))"
    "(i \<in> busy s) = (pins s ?dev a \<noteq> 0)" "(j \<in> busy s) = (pins s ?dev b \<noteq> 0)" "i \<noteq> j"
    "disk s2 = disk s" "dwrites s2 = dwrites s" "holdingsleep s2 (b_lock (bcache s2 ! i))" "holdingsleep s2 (b_lock (bcache s2 ! j))"
    "running s2 p" by (rule get_two [OF q room small ne])
  define d where "d = bview s ?dev a"
  define t where "t = set_data j d s2"
  have pn: "pins s2 ?dev b \<noteq> 0" using g(12) by simp
  note D = set_data_abs [OF g(10,4) pn g(9), of d, folded t_def]
  have t: "bio_inv ?dev t" "bview t ?dev = (bview s ?dev)(b := d)" "pins t ?dev = pins s2 ?dev" "held t ?dev = held s2 ?dev"
    "bio_frame t = bio_frame s" "bidx t ?dev b = Some j" "bidx t ?dev a = Some i" "pay (bcache t ! i) = pay (bcache s2 ! i)"
    using D(1,2) g(3,4,11,14,18) bidx_vals(4) [OF g(3)] by (simp_all add: bio_step_def)
  have run: "running t p" using bio_frame_proc(5) [of t s2] t(5) g(14,23) by simp
  have ht: "holdingsleep t (b_lock (bcache t ! j))" "holdingsleep t (b_lock (bcache t ! i))"
    using g(21,22) D(7) pay_eqD(4) [OF t(8)] holdingsleep_frame [of t s2 p] t(5) g(14,23) by simp_all
  obtain u where w: "bwrite j t = Some u" "bio_step ?dev j t u (bview t ?dev) (pins t ?dev) (held t ?dev)" "bidx u = bidx t"
    "bcache u = bcache t" "busy u = busy t" "disk u = (disk t)(b := bview t ?dev b)" "dwrites u = dwrites t @ [(b, bview t ?dev b)]"
    using bwrite_abs [OF t(1,6) ht(1) D(6)] by (elim exE conjE) (rule that)
  have u: "bio_inv ?dev u" "bidx u ?dev b = Some j" "bidx u ?dev a = Some i" "bio_frame u = bio_frame s"
    "bview u ?dev = (bview s ?dev)(b := d)" "pins u ?dev = pins s2 ?dev" "held u ?dev = (\<lambda>c. c = a \<or> c = b)"
    "disk u = (disk s)(b := d)" "dwrites u = dwrites s @ [(b, d)]"
    using w t D(4,5) g(13,19,20) by (simp_all add: bio_step_def)
  define v where "v = (if rc then u else bunpin j u)"
  have p1: "\<not> rc \<Longrightarrow> 1 < pins u ?dev b" using u(6) g(12) pinned by simp
  have v: "bio_inv ?dev v" "bidx v ?dev a = Some i" "bidx v ?dev b = Some j" "bio_frame v = bio_frame s"
    "bview v ?dev = (bview s ?dev)(b := d)" "held v ?dev = (\<lambda>c. c = a \<or> c = b)"
    "pins v ?dev = (if rc then pins u ?dev else (pins u ?dev)(b := pins u ?dev b - 1))"
    "busy v = busy u" "disk v = (disk s)(b := d)" "dwrites v = dwrites s @ [(b, d)]"
  proof -
    have "bio_inv ?dev v \<and> bidx v ?dev = bidx u ?dev \<and> bio_frame v = bio_frame u \<and> bview v ?dev = bview u ?dev \<and>
      held v ?dev = held u ?dev \<and> pins v ?dev = (if rc then pins u ?dev else (pins u ?dev)(b := pins u ?dev b - 1)) \<and>
      busy v = busy u \<and> disk v = disk u \<and> dwrites v = dwrites u"
    proof (cases rc)
      case True
      then show ?thesis using u(1) by (simp add: v_def)
    next
      case False
      from bunpin_abs [OF u(1,2) p1 [OF False]] show ?thesis using False by (simp add: v_def bio_step_def)
    qed
    then show "bio_inv ?dev v" "bidx v ?dev a = Some i" "bidx v ?dev b = Some j" "bio_frame v = bio_frame s"
      "bview v ?dev = (bview s ?dev)(b := d)" "held v ?dev = (\<lambda>c. c = a \<or> c = b)"
      "pins v ?dev = (if rc then pins u ?dev else (pins u ?dev)(b := pins u ?dev b - 1))"
      "busy v = busy u" "disk v = (disk s)(b := d)" "dwrites v = dwrites s @ [(b, d)]" using u(2-9) by simp_all
  qed
  have jl: "j < length (bcache t)" using bidx_vals(4) [OF t(6)] bio_inv_length [OF t(1)] by simp
  have lk: "b_lock (bcache v ! x) = b_lock (bcache t ! x)" for x
    using jl by (cases "x = j") (simp_all add: v_def bunpin_def w(4))
  have runv: "running v p" using bio_frame_proc(5) [of v t] v(4) t(5) run by simp
  have hv: "holdingsleep v (b_lock (bcache v ! i))" "holdingsleep v (b_lock (bcache v ! j))"
    using ht lk holdingsleep_frame [of v t p] v(4) t(5) run by simp_all
  have pv: "pins v ?dev a \<noteq> 0" "pins v ?dev b \<noteq> 0" using v(7) u(6) g(12) ne pinned by auto
  have cl: "pins v ?dev a = 1 \<longrightarrow> bview v ?dev a = disk v a" "pins v ?dev b = 1 \<longrightarrow> bview v ?dev b = disk v b"
    using v(5,7,9) u(6) g(12) ne unpinned_clean [of ?dev s a] q by (auto simp: quiet_def)
  obtain t1 t2 where r: "brelse i v = Some t1" "brelse j t1 = Some t2"
    "rest_step ?dev p v t2 (bview v ?dev) ((pins v ?dev)(a := pins v ?dev a - 1, b := pins v ?dev b - 1))"
    "busy t2 = busy v - (if pins v ?dev a = 1 then {i} else {}) - (if pins v ?dev b = 1 then {j} else {})"
    "disk t2 = disk v" "dwrites t2 = dwrites v"
    by (rule rel_two [OF v(1-3) ne runv hv pv cl v(6)])
  have fr: "log_dev s1 = ?dev" "lh s1 = lh s" using klog_frame [OF g(5)] by simp_all
  have "install_one rc k s = Some t2"
    unfolding install_one_def using g(1,2,6) fr w(1) r(1,2) by (auto simp: a b d_def t_def v_def)
  moreover have "(pins v ?dev)(a := pins v ?dev a - 1, b := pins v ?dev b - 1) =
      (if rc then pins s ?dev else (pins s ?dev)(b := pins s ?dev b - 1))"
    using v(7) u(6) g(12) ne by (auto simp: fun_eq_iff)
  moreover have "busy t2 \<subseteq> busy s"
  proof
    fix x
    assume "x \<in> busy t2"
    then have x: "x \<in> insert j (insert i (busy s))" "pins v ?dev a = 1 \<longrightarrow> x \<noteq> i" "pins v ?dev b = 1 \<longrightarrow> x \<noteq> j"
      unfolding r(4) v(8) w(5) D(3) g(15) by (simp_all split: if_splits)
    have "pins s ?dev a = 0 \<longrightarrow> pins v ?dev a = 1" "pins s ?dev b = 0 \<longrightarrow> pins v ?dev b = 1"
      using v(7) u(6) g(12) ne pinned by auto
    then show "x \<in> busy s" using x g(16,17) by blast
  qed
  ultimately show ?thesis using r(3,5,6) v(4,5,9,10) by (simp add: rest_step_def d_def)
qed

subsection \<open>The loops\<close>

text \<open>The effect of a sequence of block writes.\<close>

definition apply_writes :: "(u32 \<times> u8 list) list \<Rightarrow> (u32 \<Rightarrow> u8 list) \<Rightarrow> u32 \<Rightarrow> u8 list" where
  "apply_writes ws d = foldl (\<lambda>d (b, x). d(b := x)) d ws"

lemma apply_writes_simps [simp]:
  "apply_writes [] d = d" "apply_writes ((b, x) # ws) d = apply_writes ws (d(b := x))"
  "apply_writes (ws @ vs) d = apply_writes vs (apply_writes ws d)"
  by (simp_all add: apply_writes_def)

lemma apply_writes_other: "b \<notin> fst ` set ws \<Longrightarrow> apply_writes ws d b = d b"
  by (induction ws arbitrary: d) auto

lemma apply_writes_const:
  assumes "(b, x) \<in> set ws" "\<forall>y. (b, y) \<in> set ws \<longrightarrow> y = x"
  shows "apply_writes ws d b = x"
  using assms
proof (induction ws arbitrary: d)
  case (Cons w ws)
  obtain c y where w: "w = (c, y)" by (cases w)
  have u: "\<forall>y. (b, y) \<in> set ws \<longrightarrow> y = x" using Cons.prems(2) by simp
  show ?case
  proof (cases "(b, x) \<in> set ws")
    case True
    from Cons.IH [OF True u] show ?thesis by (simp add: w)
  next
    case False
    then have "b \<notin> fst ` set ws" using u by force
    moreover have "c = b" "y = x" using False Cons.prems(1) w by simp_all
    ultimately show ?thesis using w apply_writes_other [of b ws] by simp
  qed
qed simp

lemma apply_writes_self:
  "apply_writes (map (\<lambda>k. (f k, v (f k))) ks) d x = (if x \<in> f ` set ks then v x else d x)"
  by (induction ks arbitrary: d) auto

text \<open>The blocks of the log: the header at \<open>st\<close>, followed by \<^const>\<open>LOGBLOCKS\<close> blocks.\<close>

definition in_log :: "u32 \<Rightarrow> u32 \<Rightarrow> bool" where
  "in_log st b \<longleftrightarrow> unat (b - st) \<le> LOGBLOCKS"

definition log_blk :: "u32 \<Rightarrow> nat \<Rightarrow> u32" where
  "log_blk st k = st + of_nat k + 1"

lemma log_blk_in_log: "k < LOGBLOCKS \<Longrightarrow> in_log st (log_blk st k)"
  by (simp add: in_log_def log_blk_def unat_word_ariths unat_of_nat_small)

lemma log_blk_inj: "j < LOGBLOCKS \<Longrightarrow> k < LOGBLOCKS \<Longrightarrow> log_blk st j = log_blk st k \<longleftrightarrow> j = k"
  by (simp add: log_blk_def of_nat_inj_small)

lemma head_in_log: "in_log st st" "k < LOGBLOCKS \<Longrightarrow> log_blk st k \<noteq> st"
proof -
  assume "k < LOGBLOCKS"
  then have "unat (of_nat k + 1 :: u32) = Suc k" by (simp add: unat_word_ariths unat_of_nat_small)
  then have "(of_nat k + 1 :: u32) \<noteq> 0" by (metis Zero_not_Suc unat_0)
  then show "log_blk st k \<noteq> st" by (simp add: log_blk_def add.assoc)
qed (simp add: in_log_def)

text \<open>
  The cache at rest with the in-memory header \<open>bs\<close>: the logged blocks are outside the log, and the
  reference counts are far from overflow.
\<close>

definition log_ok :: "u32 \<Rightarrow> nat \<Rightarrow> u32 \<Rightarrow> u32 list \<Rightarrow> 'a klog_scheme \<Rightarrow> bool" where
  "log_ok dev p st bs s \<longleftrightarrow> quiet dev p s \<and> room 2 s \<and> log_dev s = dev \<and> log_start s = st \<and>
     lh_n (lh s) = of_nat (length bs) \<and> take (length bs) (lh_block (lh s)) = bs \<and> length bs \<le> LOGBLOCKS \<and>
     (\<forall>b \<in> set bs. \<not> in_log st b) \<and> (\<forall>b. pins s dev b < 2 ^ 32 - 1)"

lemma log_ok_step:
  assumes "log_ok dev p st bs s" "rest_step dev p s s' v q" "busy s' \<subseteq> busy s" "\<forall>b. q b \<le> pins s dev b"
  shows "log_ok dev p st bs s'"
proof -
  have "card (busy s') \<le> card (busy s)" using assms(3) by (simp add: card_mono)
  moreover have "pins s' dev b < 2 ^ 32 - 1" for b using assms unfolding log_ok_def rest_step_def by (metis le_less_trans)
  moreover have "bio_frame s' = bio_frame s" "quiet dev p s'" using assms(2) by (simp_all add: rest_step_def)
  ultimately show ?thesis using assms(1) klog_frame [of s' s] unfolding log_ok_def room_def by simp
qed

lemma log_ok_nth:
  assumes "log_ok dev p st bs s" "k < length bs"
  shows "lh_block (lh s) ! k = bs ! k" "k' < length bs \<Longrightarrow> log_blk st k \<noteq> bs ! k'"
proof -
  have "take (length bs) (lh_block (lh s)) = bs" using assms(1) by (simp add: log_ok_def)
  then show "lh_block (lh s) ! k = bs ! k" using assms(2) by (metis nth_take)
  assume "k' < length bs"
  then have "\<not> in_log st (bs ! k')" "k < LOGBLOCKS" using assms by (auto simp: log_ok_def)
  then show "log_blk st k \<noteq> bs ! k'" using log_blk_in_log [of k st] by auto
qed

lemma write_log_loop_abs:
  assumes "log_ok dev p st bs s" "\<forall>k \<in> set ks. k < length bs"
  shows "\<exists>s'. write_log_loop ks s = Some s' \<and>
    rest_step dev p s s' (apply_writes (map (\<lambda>k. (log_blk st k, bview s dev (bs ! k))) ks) (bview s dev)) (pins s dev) \<and>
    busy s' = busy s \<and> disk s' = apply_writes (map (\<lambda>k. (log_blk st k, bview s dev (bs ! k))) ks) (disk s) \<and>
    dwrites s' = dwrites s @ map (\<lambda>k. (log_blk st k, bview s dev (bs ! k))) ks"
  using assms
proof (induction ks arbitrary: s)
  case Nil
  then show ?case by (simp add: rest_step_def log_ok_def)
next
  case (Cons k ks)
  note L = Cons.prems(1)
  have k: "k < length bs" using Cons.prems(2) by simp
  have q: "quiet (log_dev s) p s" "room 2 s" "log_blk st k = log_start s + of_nat k + 1" "bs ! k = lh_block (lh s) ! k"
    "log_blk st k \<noteq> bs ! k" "pins s (log_dev s) (log_blk st k) < 2 ^ 32 - 1" "pins s (log_dev s) (bs ! k) < 2 ^ 32 - 1"
    and dev: "log_dev s = dev"
    using L log_ok_nth [OF L k] k by (simp_all add: log_ok_def log_blk_def)
  obtain s1 where w: "write_log_one k s = Some s1"
    "rest_step dev p s s1 ((bview s dev)(log_blk st k := bview s dev (bs ! k))) (pins s dev)" "busy s1 = busy s"
    "disk s1 = (disk s)(log_blk st k := bview s dev (bs ! k))" "dwrites s1 = dwrites s @ [(log_blk st k, bview s dev (bs ! k))]"
    using write_log_one_abs [OF q] unfolding dev by (elim exE conjE) (rule that)
  have L1: "log_ok dev p st bs s1" using log_ok_step [OF L w(2)] w(3) by simp
  have v1: "bview s1 dev = (bview s dev)(log_blk st k := bview s dev (bs ! k))" "pins s1 dev = pins s dev"
    "bio_frame s1 = bio_frame s" using w(2) by (simp_all add: rest_step_def)
  have same: "map (\<lambda>k. (log_blk st k, bview s1 dev (bs ! k))) ks = map (\<lambda>k. (log_blk st k, bview s dev (bs ! k))) ks"
  proof (rule map_cong [OF refl])
    fix x
    assume "x \<in> set ks"
    then have "bs ! x \<noteq> log_blk st k" using Cons.prems(2) log_ok_nth(2) [OF L k, of x] by auto
    then show "(log_blk st x, bview s1 dev (bs ! x)) = (log_blk st x, bview s dev (bs ! x))" by (simp add: v1)
  qed
  from Cons.IH [OF L1] Cons.prems(2) obtain s2 where "write_log_loop ks s1 = Some s2"
    "rest_step dev p s1 s2 (apply_writes (map (\<lambda>k. (log_blk st k, bview s dev (bs ! k))) ks) (bview s1 dev)) (pins s1 dev)"
    "busy s2 = busy s1" "disk s2 = apply_writes (map (\<lambda>k. (log_blk st k, bview s dev (bs ! k))) ks) (disk s1)"
    "dwrites s2 = dwrites s1 @ map (\<lambda>k. (log_blk st k, bview s dev (bs ! k))) ks" unfolding same by auto
  then show ?case using w v1 by (simp add: rest_step_def)
qed

lemma install_loop_abs:
  assumes "log_ok dev p st bs s" "\<forall>k \<in> set ks. k < length bs" "distinct ks" "distinct bs"
    and "rc \<or> (\<forall>k \<in> set ks. pins s dev (bs ! k) \<noteq> 0)"
  shows "\<exists>s'. install_loop rc ks s = Some s' \<and>
    rest_step dev p s s' (apply_writes (map (\<lambda>k. (bs ! k, bview s dev (log_blk st k))) ks) (bview s dev))
      (\<lambda>b. if \<not> rc \<and> b \<in> (!) bs ` set ks then pins s dev b - 1 else pins s dev b) \<and>
    busy s' \<subseteq> busy s \<and> disk s' = apply_writes (map (\<lambda>k. (bs ! k, bview s dev (log_blk st k))) ks) (disk s) \<and>
    dwrites s' = dwrites s @ map (\<lambda>k. (bs ! k, bview s dev (log_blk st k))) ks"
  using assms
proof (induction ks arbitrary: s)
  case Nil
  then show ?case by (simp add: rest_step_def log_ok_def)
next
  case (Cons k ks)
  note L = Cons.prems(1)
  have k: "k < length bs" using Cons.prems(2) by simp
  have q: "quiet (log_dev s) p s" "room 2 s" "log_blk st k = log_start s + of_nat k + 1" "bs ! k = lh_block (lh s) ! k"
    "log_blk st k \<noteq> bs ! k" "pins s (log_dev s) (log_blk st k) < 2 ^ 32 - 1" "pins s (log_dev s) (bs ! k) < 2 ^ 32 - 1"
    and dev: "log_dev s = dev"
    using L log_ok_nth [OF L k] k by (simp_all add: log_ok_def log_blk_def)
  have pk: "rc \<or> pins s (log_dev s) (bs ! k) \<noteq> 0" using Cons.prems(5) dev by auto
  let ?q1 = "if rc then pins s dev else (pins s dev)(bs ! k := pins s dev (bs ! k) - 1)"
  obtain s1 where w: "install_one rc k s = Some s1"
    "rest_step dev p s s1 ((bview s dev)(bs ! k := bview s dev (log_blk st k))) ?q1" "busy s1 \<subseteq> busy s"
    "disk s1 = (disk s)(bs ! k := bview s dev (log_blk st k))" "dwrites s1 = dwrites s @ [(bs ! k, bview s dev (log_blk st k))]"
    using install_one_abs [OF q pk] unfolding dev by (elim exE conjE) (rule that)
  have L1: "log_ok dev p st bs s1" by (rule log_ok_step [OF L w(2,3)]) simp
  have v1: "bview s1 dev = (bview s dev)(bs ! k := bview s dev (log_blk st k))" "pins s1 dev = ?q1"
    "bio_frame s1 = bio_frame s" using w(2) by (simp_all add: rest_step_def)
  have ne: "bs ! x \<noteq> bs ! k" "log_blk st x \<noteq> bs ! k" if "x \<in> set ks" for x
  proof -
    have "x < length bs" "x \<noteq> k" using that Cons.prems(2,3) by auto
    then show "bs ! x \<noteq> bs ! k" "log_blk st x \<noteq> bs ! k"
      using k Cons.prems(4) log_ok_nth(2) [OF L, of x k] by (simp_all add: nth_eq_iff_index_eq)
  qed
  have same: "map (\<lambda>k. (bs ! k, bview s1 dev (log_blk st k))) ks = map (\<lambda>k. (bs ! k, bview s dev (log_blk st k))) ks"
    using ne(2) by (simp add: v1)
  have p1: "rc \<or> (\<forall>x \<in> set ks. pins s1 dev (bs ! x) \<noteq> 0)" using Cons.prems(5) ne(1) by (auto simp: v1)
  have d1: "\<forall>k \<in> set ks. k < length bs" "distinct ks" using Cons.prems(2,3) by simp_all
  from Cons.IH [OF L1 d1 Cons.prems(4) p1] obtain s2 where r: "install_loop rc ks s1 = Some s2"
    "rest_step dev p s1 s2 (apply_writes (map (\<lambda>k. (bs ! k, bview s dev (log_blk st k))) ks) (bview s1 dev))
      (\<lambda>b. if \<not> rc \<and> b \<in> (!) bs ` set ks then pins s1 dev b - 1 else pins s1 dev b)"
    "busy s2 \<subseteq> busy s1" "disk s2 = apply_writes (map (\<lambda>k. (bs ! k, bview s dev (log_blk st k))) ks) (disk s1)"
    "dwrites s2 = dwrites s1 @ map (\<lambda>k. (bs ! k, bview s dev (log_blk st k))) ks" unfolding same by (elim exE conjE) (rule that)
  have "(\<lambda>b. if \<not> rc \<and> b \<in> (!) bs ` set ks then pins s1 dev b - 1 else pins s1 dev b) =
      (\<lambda>b. if \<not> rc \<and> b \<in> (!) bs ` set (k # ks) then pins s dev b - 1 else pins s dev b)"
  proof (rule ext)
    fix b
    have "bs ! k \<notin> (!) bs ` set ks" using ne(1) by (metis imageE)
    then show "(if \<not> rc \<and> b \<in> (!) bs ` set ks then pins s1 dev b - 1 else pins s1 dev b) =
        (if \<not> rc \<and> b \<in> (!) bs ` set (k # ks) then pins s dev b - 1 else pins s dev b)"
      by (cases "b = bs ! k") (simp_all add: v1)
  qed
  moreover have "busy s2 \<subseteq> busy s" using r(3) w(3) by blast
  ultimately show ?case using w(1,4,5) r(1,2,4,5) v1(1,3) by (simp add: rest_step_def)
qed

text \<open>The header block for the block numbers \<open>bs\<close>.\<close>

definition head_data :: "u8 list \<Rightarrow> u32 list \<Rightarrow> u8 list" where
  "head_data d bs = put_blocks (put32 d 0 (of_nat (length bs))) 0 bs"

lemma length_put_bytes [simp]: "off + length xs \<le> length bs \<Longrightarrow> length (put_bytes bs off xs) = length bs"
  by (simp add: put_bytes_def)

lemma get_put_same: "off + 4 \<le> length d \<Longrightarrow> get32 (put32 d off v) off = v"
  by (simp add: get32_def put32_def put_bytes_def le_word_le_bytes take_bit_word_eq_self)

lemma get_put_other:
  assumes "off + 4 \<le> length d" "off' + 4 \<le> off \<or> off + 4 \<le> off'"
  shows "get32 (put32 d off v) off' = get32 d off'"
proof -
  have "take 4 (drop off' (put32 d off v)) = take 4 (drop off' d)"
    using assms(2)
  proof
    assume "off' + 4 \<le> off"
    then have "4 \<le> off - off'" "off' \<le> off" by simp_all
    then show ?thesis using assms(1) by (simp add: put32_def put_bytes_def drop_take min_def)
  next
    assume "off + 4 \<le> off'"
    then show ?thesis using assms(1) by (simp add: put32_def put_bytes_def)
  qed
  then show ?thesis by (simp add: get32_def)
qed

lemma put_blocks_length: "4 + 4 * (k + length bs) \<le> length d \<Longrightarrow> length (put_blocks d k bs) = length d"
  by (induction bs arbitrary: d k) (auto simp: put32_def)

lemma put_blocks_before:
  "4 + 4 * (k + length bs) \<le> length d \<Longrightarrow> off + 4 \<le> 4 + 4 * k \<Longrightarrow> get32 (put_blocks d k bs) off = get32 d off"
proof (induction bs arbitrary: d k)
  case (Cons b bs)
  let ?d = "put32 d (4 + 4 * k) b"
  have "length ?d = length d" using Cons.prems(1) by (simp add: put32_def)
  then have "get32 (put_blocks ?d (Suc k) bs) off = get32 ?d off" using Cons by simp
  also have "\<dots> = get32 d off" using Cons.prems by (intro get_put_other) simp_all
  finally show ?case by simp
qed simp

lemma put_blocks_get:
  "4 + 4 * (k + length bs) \<le> length d \<Longrightarrow> j < length bs \<Longrightarrow> get32 (put_blocks d k bs) (4 + 4 * (k + j)) = bs ! j"
proof (induction bs arbitrary: d k j)
  case (Cons b bs)
  let ?d = "put32 d (4 + 4 * k) b"
  have len: "length ?d = length d" using Cons.prems(1) by (simp add: put32_def)
  show ?case
  proof (cases j)
    case 0
    have "get32 (put_blocks ?d (Suc k) bs) (4 + 4 * k) = get32 ?d (4 + 4 * k)"
      by (rule put_blocks_before) (use Cons.prems len in simp_all)
    then show ?thesis using 0 Cons.prems(1) get_put_same [of "4 + 4 * k" d b] by simp
  next
    case (Suc i)
    then show ?thesis using Cons.IH [of "Suc k" ?d i] Cons.prems len by simp
  qed
qed simp

lemma head_data_get:
  assumes "length d = BSIZE" "length bs \<le> LOGBLOCKS"
  shows "get32 (head_data d bs) 0 = of_nat (length bs)" "j < length bs \<Longrightarrow> get32 (head_data d bs) (4 + 4 * j) = bs ! j"
    "length (head_data d bs) = BSIZE"
proof -
  have len: "length (put32 d 0 (of_nat (length bs))) = BSIZE" using assms(1) by (simp add: put32_def)
  show "get32 (head_data d bs) 0 = of_nat (length bs)"
    using put_blocks_before [of 0 bs "put32 d 0 (of_nat (length bs))" 0] len assms get_put_same [of 0 d]
    by (simp add: head_data_def)
  show "j < length bs \<Longrightarrow> get32 (head_data d bs) (4 + 4 * j) = bs ! j"
    using put_blocks_get [of 0 bs "put32 d 0 (of_nat (length bs))" j] len assms(2) by (simp add: head_data_def)
  show "length (head_data d bs) = BSIZE"
    using put_blocks_length [of 0 bs "put32 d 0 (of_nat (length bs))"] len assms(2) by (simp add: head_data_def)
qed

subsection \<open>Commit\<close>

lemma sint_log_n: "n \<le> LOGBLOCKS \<Longrightarrow> sint (of_nat n :: cint) = int n"
  by (intro sint_of_nat_small) simp

lemma log_tails_ok: "log_ok dev p st bs s \<Longrightarrow> log_tails s = [0 ..< length bs]"
  by (simp add: log_tails_def log_ok_def sint_log_n)

lemma write_head_abs:
  assumes "log_ok dev p st bs s"
  shows "\<exists>s'. write_head s = Some s' \<and>
    rest_step dev p s s' ((bview s dev)(st := head_data (bview s dev st) bs)) (pins s dev) \<and> busy s' = busy s \<and>
    disk s' = (disk s)(st := head_data (bview s dev st) bs) \<and> dwrites s' = dwrites s @ [(st, head_data (bview s dev st) bs)]"
proof -
  let ?d = "head_data (bview s dev st) bs"
  have q: "quiet dev p s" "room 1 s" "pins s dev st < 2 ^ 32 - 1" "log_dev s = dev" "log_start s = st"
    and h: "lh_n (lh s) = of_nat (length bs)" "take (length bs) (lh_block (lh s)) = bs" "length bs \<le> LOGBLOCKS"
    using assms by (simp_all add: log_ok_def room_def)
  obtain i s1 s2 s3 where w: "bread dev st s = Some (i, s1)" "b_data (bcache s1 ! i) = bview s dev st" "bio_frame s1 = bio_frame s"
    "bwrite i (set_data i ?d s1) = Some s2" "brelse i s2 = Some s3"
    "rest_step dev p s s3 ((bview s dev)(st := ?d)) (pins s dev)" "busy s3 = busy s"
    "disk s3 = (disk s)(st := ?d)" "dwrites s3 = dwrites s @ [(st, ?d)]"
    using write_block [OF q(1-3), of ?d] by (elim exE conjE) (rule that)
  have "lh s1 = lh s" by (rule klog_frame(3) [OF w(3)])
  then have "write_head s = Some s3"
    using w(1,2,4,5) q(4,5) h by (simp add: write_head_def head_data_def sint_log_n)
  then show ?thesis using w(6-9) by blast
qed

text \<open>The reading of the cache depends on the buffers, the disk and the running process only.\<close>

lemma cache_cong:
  assumes "bio_inv dev s" "bcache s' = bcache s" "disk s' = disk s" "procs s' = procs s" "myproc s' = myproc s"
  shows "bview s' = bview s" "pins s' = pins s" "busy s' = busy s"
    "quiet dev p s' = quiet dev p s" "bidx s' = bidx s" "held s' = held s"
    "bio_inv dev s' = bio_inv dev s" "running s' p = running s p" "holdingsleep s' lk = holdingsleep s lk"
proof -
  note P = pay_abs [of s' s, OF _ bio_inv_length [OF assms(1)] assms(3)]
  show "bview s' = bview s" "pins s' = pins s" "busy s' = busy s" "bidx s' = bidx s" "held s' = held s"
    by (rule P; simp add: assms)+
  have "held s' = held s" "bufs_ok dev s' = bufs_ok dev s" by (rule P; simp add: assms)+
  then show "quiet dev p s' = quiet dev p s" "bio_inv dev s' = bio_inv dev s" "running s' p = running s p"
    by (simp_all add: quiet_def bio_inv_def running_def assms)
  show "holdingsleep s' lk = holdingsleep s lk" by (simp add: holdingsleep_def assms split: option.split)
qed

lemma lh_update_same [simp]:
  "myproc (s\<lparr>lh := x\<rparr>) = myproc s" "myproc (s\<lparr>log_start := a, log_dev := d\<rparr>) = myproc s"
  by (simp_all add: myproc_def mycpu_def cpuid_def)

lemma lh_update_abs:
  assumes "bio_inv dev s"
  shows "bview (s\<lparr>lh := x\<rparr>) = bview s" "pins (s\<lparr>lh := x\<rparr>) = pins s" "busy (s\<lparr>lh := x\<rparr>) = busy s"
    "quiet dev p (s\<lparr>lh := x\<rparr>) = quiet dev p s" "bidx (s\<lparr>lh := x\<rparr>) = bidx s" "held (s\<lparr>lh := x\<rparr>) = held s"
    "bio_inv dev (s\<lparr>lh := x\<rparr>) = bio_inv dev s" "running (s\<lparr>lh := x\<rparr>) p = running s p"
    "holdingsleep (s\<lparr>lh := x\<rparr>) lk = holdingsleep s lk"
  by (rule cache_cong [OF assms]; simp)+

text \<open>The writes of a commit, in order.\<close>

definition commit_writes :: "u32 \<Rightarrow> u32 list \<Rightarrow> u8 list \<Rightarrow> (u32 \<Rightarrow> u8 list) \<Rightarrow> (u32 \<times> u8 list) list" where
  "commit_writes st bs hb v =
     map (\<lambda>k. (log_blk st k, v (bs ! k))) [0 ..< length bs] @ [(st, head_data hb bs)] @
     map (\<lambda>k. (bs ! k, v (bs ! k))) [0 ..< length bs] @ [(st, head_data (head_data hb bs) [])]"

lemma log_view:
  assumes "length bs \<le> LOGBLOCKS" "k < length bs"
  shows "apply_writes (map (\<lambda>k. (log_blk st k, f k)) [0 ..< length bs]) v (log_blk st k) = f k"
  by (rule apply_writes_const) (use assms log_blk_inj in auto)

lemma log_view_head:
  assumes "length bs \<le> LOGBLOCKS"
  shows "apply_writes (map (\<lambda>k. (log_blk st k, f k)) [0 ..< length bs]) v st = v st"
proof (rule apply_writes_other)
  have "st \<noteq> log_blk st k" if "k < length bs" for k using assms that head_in_log(2) [of k st] by simp
  then show "st \<notin> fst ` set (map (\<lambda>k. (log_blk st k, f k)) [0 ..< length bs])" by auto
qed

lemma commit_abs:
  assumes L: "log_ok dev p st bs s" and ne: "bs \<noteq> []" "distinct bs" and pn: "\<forall>b \<in> set bs. pins s dev b = 1"
  shows "\<exists>s'. commit s = Some s' \<and> dwrites s' = dwrites s @ commit_writes st bs (bview s dev st) (bview s dev) \<and>
    disk s' = apply_writes (commit_writes st bs (bview s dev st) (bview s dev)) (disk s) \<and>
    log_ok dev p st [] s' \<and> (\<forall>b. pins s' dev b = (if b \<in> set bs then 0 else pins s dev b)) \<and>
    (\<forall>b. \<not> in_log st b \<longrightarrow> bview s' dev b = bview s dev b)"
proof -
  let ?v = "bview s dev" and ?n = "[0 ..< length bs]"
  have len: "length bs \<le> LOGBLOCKS" using L by (simp add: log_ok_def)
  have ks: "\<forall>k \<in> set ?n. k < length bs" by simp
  have wl: "write_log s = write_log_loop ?n s" by (simp add: write_log_def log_tails_ok [OF L])
  obtain s1 where a: "write_log s = Some s1"
    "rest_step dev p s s1 (apply_writes (map (\<lambda>k. (log_blk st k, ?v (bs ! k))) ?n) ?v) (pins s dev)" "busy s1 = busy s"
    "disk s1 = apply_writes (map (\<lambda>k. (log_blk st k, ?v (bs ! k))) ?n) (disk s)"
    "dwrites s1 = dwrites s @ map (\<lambda>k. (log_blk st k, ?v (bs ! k))) ?n"
    using write_log_loop_abs [OF L ks, folded wl] by (elim exE conjE) (rule that)
  have L1: "log_ok dev p st bs s1" by (rule log_ok_step [OF L a(2)]) (simp_all add: a(3))
  let ?h = "head_data (?v st) bs"
  have v1: "bview s1 dev st = ?v st" using a(2) log_view_head [OF len] by (simp add: rest_step_def)
  obtain s2 where b: "write_head s1 = Some s2" "rest_step dev p s1 s2 ((bview s1 dev)(st := ?h)) (pins s1 dev)" "busy s2 = busy s1"
    "disk s2 = (disk s1)(st := ?h)" "dwrites s2 = dwrites s1 @ [(st, ?h)]"
    using write_head_abs [OF L1, unfolded v1] by (elim exE conjE) (rule that)
  have L2: "log_ok dev p st bs s2" by (rule log_ok_step [OF L1 b(2)]) (simp_all add: b(3))
  have v2: "bview s2 dev (log_blk st k) = ?v (bs ! k)" if "k < length bs" for k
    using a(2) b(2) that len log_view [OF len that] head_in_log(2) [of k st] by (simp add: rest_step_def)
  have m: "map (\<lambda>k. (bs ! k, bview s2 dev (log_blk st k))) ?n = map (\<lambda>k. (bs ! k, ?v (bs ! k))) ?n" using v2 by simp
  have p2: "pins s2 dev = pins s dev" using a(2) b(2) by (simp add: rest_step_def)
  have pk: "False \<or> (\<forall>k \<in> set ?n. pins s2 dev (bs ! k) \<noteq> 0)" using pn by (simp add: p2)
  have img: "(!) bs ` set ?n = set bs" by (auto simp: in_set_conv_nth)
  have it: "install_trans False s2 = install_loop False ?n s2" by (simp add: install_trans_def log_tails_ok [OF L2])
  obtain s3 where c: "install_trans False s2 = Some s3"
    "rest_step dev p s2 s3 (apply_writes (map (\<lambda>k. (bs ! k, ?v (bs ! k))) ?n) (bview s2 dev))
      (\<lambda>b. if \<not> False \<and> b \<in> set bs then pins s2 dev b - 1 else pins s2 dev b)" "busy s3 \<subseteq> busy s2"
    "disk s3 = apply_writes (map (\<lambda>k. (bs ! k, ?v (bs ! k))) ?n) (disk s2)"
    "dwrites s3 = dwrites s2 @ map (\<lambda>k. (bs ! k, ?v (bs ! k))) ?n"
    using install_loop_abs [OF L2 ks distinct_upt ne(2) pk, unfolded m img, folded it] by (elim exE conjE) (rule that)
  have L3: "log_ok dev p st bs s3" by (rule log_ok_step [OF L2 c(2,3)]) simp
  let ?s3 = "s3\<lparr>lh := (lh s3)\<lparr>lh_n := 0\<rparr>\<rparr>"
  have i3: "bio_inv dev s3" using c(2) by (simp add: rest_step_def quiet_def)
  note same = lh_update_abs [OF i3]
  have L3': "log_ok dev p st [] ?s3" using L3 by (simp add: log_ok_def room_def same)
  have st: "st \<notin> set bs" using L head_in_log(1) [of st] by (auto simp: log_ok_def)
  have v3: "bview ?s3 dev st = ?h"
  proof -
    have "st \<notin> fst ` set (map (\<lambda>k. (bs ! k, ?v (bs ! k))) ?n)" using st by auto
    from apply_writes_other [OF this] show ?thesis using b(2) c(2) by (simp add: same rest_step_def)
  qed
  obtain s4 where d: "write_head ?s3 = Some s4" "rest_step dev p ?s3 s4 ((bview ?s3 dev)(st := head_data ?h [])) (pins ?s3 dev)"
    "busy s4 = busy ?s3" "disk s4 = (disk ?s3)(st := head_data ?h [])" "dwrites s4 = dwrites ?s3 @ [(st, head_data ?h [])]"
    using write_head_abs [OF L3', unfolded v3] by (elim exE conjE) (rule that)
  have L4: "log_ok dev p st [] s4" by (rule log_ok_step [OF L3' d(2)]) (simp_all add: d(3))
  have "commit s = Some s4"
    using L ne(1) len a(1) b(1) c(1) d(1) by (simp add: commit_def log_ok_def word_sless_alt sint_log_n)
  moreover have "dwrites s4 = dwrites s @ commit_writes st bs (?v st) ?v"
    using a(5) b(5) c(5) d(5) by (simp add: commit_writes_def)
  moreover have "disk s4 = apply_writes (commit_writes st bs (?v st) ?v) (disk s)"
    using a(4) b(4) c(4) d(4) by (simp add: commit_writes_def)
  moreover have "pins s4 dev b = (if b \<in> set bs then 0 else pins s dev b)" for b
    using c(2) d(2) pn by (simp add: rest_step_def same p2)
  moreover have "bview s4 dev x = ?v x" if "\<not> in_log st x" for x
  proof -
    have ns: "x \<noteq> st" using that head_in_log(1) by auto
    have nl: "x \<notin> fst ` set (map (\<lambda>k. (log_blk st k, ?v (bs ! k))) ?n)" using that log_blk_in_log [of _ st] len by auto
    have "bview s2 dev x = ?v x" using a(2) b(2) ns apply_writes_other [OF nl] by (simp add: rest_step_def)
    then have "apply_writes (map (\<lambda>k. (bs ! k, ?v (bs ! k))) ?n) (bview s2 dev) x = ?v x"
      by (simp only: apply_writes_self) simp
    then show ?thesis using c(2) d(2) ns by (simp add: rest_step_def same)
  qed
  ultimately show ?thesis using L4 by blast
qed

subsection \<open>Recovery\<close>

text \<open>The header on the disk lists the blocks \<open>bs\<close>.\<close>

definition head_lists :: "u8 list \<Rightarrow> u32 list \<Rightarrow> bool" where
  "head_lists d bs \<longleftrightarrow> length d = BSIZE \<and> length bs \<le> LOGBLOCKS \<and> get32 d 0 = of_nat (length bs) \<and>
     (\<forall>j < length bs. get32 d (4 + 4 * j) = bs ! j)"

lemma head_lists_data: "length d = BSIZE \<Longrightarrow> length bs \<le> LOGBLOCKS \<Longrightarrow> head_lists (head_data d bs) bs"
  by (simp add: head_lists_def head_data_get)

lemma read_head_abs:
  assumes q: "quiet dev p s" and room: "room 2 s" and dev: "log_dev s = dev" "log_start s = st"
    and pn: "\<forall>b. pins s dev b = 0" and h: "head_lists (disk s st) bs" and home: "\<forall>b \<in> set bs. \<not> in_log st b"
  shows "\<exists>s'. read_head s = Some s' \<and> log_ok dev p st bs s' \<and> disk s' = disk s \<and> bview s' dev = disk s \<and> pins s' dev = pins s dev"
proof -
  have bv: "bview s dev = disk s" using q pn unpinned_clean [of dev s] by (auto simp: quiet_def fun_eq_iff)
  have r2: "room (Suc 1) s" and small: "pins s dev st < 2 ^ 32 - 1" using room pn by (simp add: numeral_2_eq_2, simp)
  obtain i s1 where g: "bread dev st s = Some (i, s1)" "bidx s1 dev st = Some i" "b_data (bcache s1 ! i) = bview s dev st"
    "b_valid (bcache s1 ! i)" "bio_inv dev s1" "bview s1 dev = bview s dev" "pins s1 dev = (pins s dev)(st := Suc (pins s dev st))"
    "held s1 dev = (\<lambda>c. c = st)" "bio_frame s1 = bio_frame s" "busy s1 = insert i (busy s)" "(i \<in> busy s) = (pins s dev st \<noteq> 0)"
    "disk s1 = disk s" "dwrites s1 = dwrites s" "holdingsleep s1 (b_lock (bcache s1 ! i))" "running s1 p" "room 1 s1"
    by (rule get_block [OF q r2 small])
  define x where "x = \<lparr>lh_n = get32 (disk s st) 0,
    lh_block = map (\<lambda>k. get32 (disk s st) (4 + 4 * k)) [0 ..< length bs] @ drop (length bs) (lh_block (lh s1))\<rparr>"
  let ?t = "s1\<lparr>lh := x\<rparr>"
  note T = lh_update_abs [OF g(5), where x = x]
  have n: "sint (get32 (disk s st) 0) = int (length bs)" using h by (simp add: head_lists_def sint_log_n)
  have rh: "read_head s = brelse i ?t"
    using g(1,3) h n by (simp add: read_head_def dev bv x_def head_lists_def)
  have a: "bio_inv dev ?t" "bidx ?t dev st = Some i" "holdingsleep ?t (b_lock (bcache ?t ! i))" "pins ?t dev st \<noteq> 0"
    "pins ?t dev st = 1 \<longrightarrow> bview ?t dev st = disk ?t st"
    using g T bv by simp_all
  from brelse_abs [OF a] obtain s2 where
    b: "brelse i ?t = Some s2" "bio_step dev i ?t s2 (bview ?t dev) ((pins ?t dev)(st := pins ?t dev st - 1)) ((held ?t dev)(st := False))"
    "busy s2 = (if pins ?t dev st = 1 then busy ?t - {i} else busy ?t)" "disk s2 = disk ?t" by (elim exE conjE) (rule that)
  have c: "bio_inv dev s2" "bview s2 dev = disk s" "pins s2 dev = pins s dev" "\<forall>b. \<not> held s2 dev b" "bio_frame s2 = bio_frame ?t"
    using b(2) g(6,7,8) T bv pn by (auto simp: bio_step_def fun_eq_iff)
  have "running s2 p" using bio_frame_proc(5) [OF c(5)] T(8) g(15) by simp
  moreover have "busy s2 = busy s" using b(3) T g(7,10,11) pn by auto
  moreover have "take (length bs) (lh_block x) = bs" using h by (auto simp: x_def head_lists_def intro: nth_equalityI)
  moreover have "lh_n x = of_nat (length bs)" "length bs \<le> LOGBLOCKS" using h by (simp_all add: x_def head_lists_def)
  ultimately have "log_ok dev p st bs s2"
    using c pn room home klog_frame [OF c(5)] klog_frame [OF g(9)] dev by (simp add: log_ok_def quiet_def room_def)
  then show ?thesis using rh b(1,4) c g(12) by auto
qed

lemma recover_abs:
  assumes q: "quiet dev p s" and room: "room 2 s" and dev: "log_dev s = dev" "log_start s = st"
    and pn: "\<forall>b. pins s dev b = 0" and h: "head_lists (disk s st) bs" and home: "\<forall>b \<in> set bs. \<not> in_log st b" and d: "distinct bs"
  shows "\<exists>s'. recover_from_log s = Some s' \<and> head_lists (disk s' st) [] \<and>
    (\<forall>k < length bs. disk s' (bs ! k) = disk s (log_blk st k)) \<and>
    (\<forall>b. b \<notin> set bs \<and> \<not> in_log st b \<longrightarrow> disk s' b = disk s b)"
proof -
  let ?n = "[0 ..< length bs]"
  obtain s1 where a: "read_head s = Some s1" "log_ok dev p st bs s1" "disk s1 = disk s" "bview s1 dev = disk s" "pins s1 dev = pins s dev"
    using read_head_abs [OF assms(1-7)] by blast
  have ks: "\<forall>k \<in> set ?n. k < length bs" and rc: "True \<or> (\<forall>k \<in> set ?n. pins s1 dev (bs ! k) \<noteq> 0)" by simp_all
  have it: "install_trans True s1 = install_loop True ?n s1" by (simp add: install_trans_def log_tails_ok [OF a(2)])
  let ?ws = "map (\<lambda>k. (bs ! k, disk s (log_blk st k))) ?n"
  obtain s2 where b: "install_trans True s1 = Some s2"
    "rest_step dev p s1 s2 (apply_writes ?ws (disk s)) (\<lambda>b. if \<not> True \<and> b \<in> (!) bs ` set ?n then pins s1 dev b - 1 else pins s1 dev b)"
    "busy s2 \<subseteq> busy s1" "disk s2 = apply_writes ?ws (disk s1)"
    using install_loop_abs [OF a(2) ks distinct_upt d rc, unfolded a(4), folded it] by (elim exE conjE) (rule that)
  have L2: "log_ok dev p st bs s2" by (rule log_ok_step [OF a(2) b(2,3)]) simp
  let ?s2 = "s2\<lparr>lh := (lh s2)\<lparr>lh_n := 0\<rparr>\<rparr>"
  have i2: "bio_inv dev s2" using L2 by (simp add: log_ok_def quiet_def)
  note T = lh_update_abs [OF i2]
  have L2': "log_ok dev p st [] ?s2" using L2 by (simp add: log_ok_def room_def T)
  have st: "st \<notin> set bs" using home head_in_log(1) [of st] by auto
  then have "st \<notin> fst ` set ?ws" by auto
  then have v: "bview ?s2 dev st = disk s st" using b(2) apply_writes_other [of st ?ws] by (simp add: rest_step_def T)
  obtain s3 where c: "write_head ?s2 = Some s3" "disk s3 = (disk ?s2)(st := head_data (disk s st) [])"
    using write_head_abs [OF L2', unfolded v] by blast
  have "recover_from_log s = Some s3" using a(1) b(1) c(1) by (simp add: recover_from_log_def)
  moreover have "head_lists (disk s3 st) []" using c(2) h head_lists_data [of "disk s st" "[]"] by (simp add: head_lists_def)
  moreover have "disk s3 (bs ! k) = disk s (log_blk st k)" if "k < length bs" for k
  proof -
    have "apply_writes ?ws (disk s) (bs ! k) = disk s (log_blk st k)"
      by (rule apply_writes_const) (use that d in \<open>auto simp: nth_eq_iff_index_eq\<close>)
    moreover have "bs ! k \<noteq> st" using st that by auto
    ultimately show ?thesis using b(4) c(2) a(3) by simp
  qed
  moreover have "disk s3 x = disk s x" if "x \<notin> set bs" "\<not> in_log st x" for x
  proof -
    have "x \<notin> fst ` set ?ws" using that(1) by auto
    moreover have "x \<noteq> st" using that(2) head_in_log(1) by auto
    ultimately show ?thesis using b(4) c(2) a(3) apply_writes_other [of x ?ws] by simp
  qed
  ultimately show ?thesis by blast
qed

subsection \<open>Crashes\<close>

text \<open>A machine that has just started: the cache is empty.\<close>

definition fresh_cache :: "u32 \<Rightarrow> nat \<Rightarrow> 'a kbio_scheme \<Rightarrow> bool" where
  "fresh_cache dev p s \<longleftrightarrow> quiet dev p s \<and> busy s = {} \<and> (\<forall>b. pins s dev b = 0)"

lemma initlog_abs:
  assumes f: "fresh_cache dev p t" and h: "head_lists (disk t st) bs" "\<forall>b \<in> set bs. \<not> in_log st b" "distinct bs"
  shows "\<exists>t'. initlog dev st t = Some t' \<and>
    (\<forall>k < length bs. disk t' (bs ! k) = disk t (log_blk st k)) \<and>
    (\<forall>b. b \<notin> set bs \<and> \<not> in_log st b \<longrightarrow> disk t' b = disk t b)"
proof -
  let ?t = "t\<lparr>log_start := st, log_dev := dev\<rparr>"
  have i: "bio_inv dev t" using f by (simp add: fresh_cache_def quiet_def)
  have C: "quiet dev p ?t = quiet dev p t" "pins ?t = pins t" "busy ?t = busy t" by (rule cache_cong [OF i]; simp)+
  have "quiet dev p ?t" "room 2 ?t" "log_dev ?t = dev" "log_start ?t = st" "\<forall>b. pins ?t dev b = 0" "head_lists (disk ?t st) bs"
    using f h(1) C by (simp_all add: fresh_cache_def room_def)
  from recover_abs [OF this h(2,3)] show ?thesis by (auto simp: initlog_def)
qed

lemma crash_before:
  assumes "length bs \<le> LOGBLOCKS" "k \<le> length bs"
  shows "in_log st b \<longrightarrow> b = st \<Longrightarrow> apply_writes (take k (commit_writes st bs h v)) d b = d b"
proof (rule apply_writes_other)
  assume b: "in_log st b \<longrightarrow> b = st"
  have "take k (commit_writes st bs h v) = map (\<lambda>k. (log_blk st k, v (bs ! k))) [0 ..< k]"
    using assms(2) by (simp add: commit_writes_def take_map)
  moreover have "b \<noteq> log_blk st j" if "j < k" for j
    using that assms b log_blk_in_log [of j st] head_in_log(2) [of j st] by auto
  ultimately show "b \<notin> fst ` set (take k (commit_writes st bs h v))" by fastforce
qed

text \<open>The disk after the header was written and some of the blocks were installed.\<close>

lemma crash_during:
  fixes d :: "u32 \<Rightarrow> u8 list"
  assumes "length bs \<le> LOGBLOCKS" "\<forall>b \<in> set bs. \<not> in_log st b" "length bs < k" "k \<le> 2 * length bs + 1"
    and c_def: "c = apply_writes (take k (commit_writes st bs h v)) d"
  shows "c st = head_data h bs" "j < length bs \<Longrightarrow> c (log_blk st j) = v (bs ! j)"
    "b \<notin> set bs \<Longrightarrow> \<not> in_log st b \<Longrightarrow> c b = d b"
proof -
  let ?A = "map (\<lambda>k. (log_blk st k, v (bs ! k))) [0 ..< length bs]"
  define I where "I = map (\<lambda>k. (bs ! k, v (bs ! k))) [0 ..< k - length bs - 1]"
  have "take k (commit_writes st bs h v) = ?A @ [(st, head_data h bs)] @ I"
    using assms(3,4) by (simp add: commit_writes_def I_def take_map take_Cons' min_def)
  then have c: "c = apply_writes I ((apply_writes ?A d)(st := head_data h bs))" by (simp add: c_def)
  have I: "x \<notin> fst ` set I" if "x \<notin> set bs" for x using that assms(4) by (auto simp: I_def)
  have nb: "st \<notin> set bs" "j < length bs \<Longrightarrow> log_blk st j \<notin> set bs"
    using assms(1,2) head_in_log(1) [of st] log_blk_in_log [of j st] by auto
  show "c st = head_data h bs" using apply_writes_other [OF I [OF nb(1)]] by (simp add: c)
  show "c (log_blk st j) = v (bs ! j)" if "j < length bs"
    using apply_writes_other [OF I [OF nb(2) [OF that]]] log_view [OF assms(1) that] that assms(1) head_in_log(2) [of j st]
    by (simp add: c)
  show "c b = d b" if "b \<notin> set bs" "\<not> in_log st b"
  proof -
    have "b \<noteq> st" using that(2) head_in_log(1) by auto
    moreover have "b \<noteq> log_blk st j" if "j < length bs" for j using \<open>\<not> in_log st b\<close> that assms(1) log_blk_in_log [of j st] by auto
    then have "b \<notin> fst ` set ?A" by fastforce
    ultimately show ?thesis using apply_writes_other [OF I [OF that(1)]] apply_writes_other [of b ?A] by (simp add: c)
  qed
qed

lemma crash_after:
  assumes "length bs \<le> LOGBLOCKS" "\<forall>b \<in> set bs. \<not> in_log st b" "2 * length bs + 1 < k"
    and c_def: "c = apply_writes (take k (commit_writes st bs h v)) d"
  shows "c st = head_data (head_data h bs) []"
    "\<not> in_log st b \<Longrightarrow> c b = (if b \<in> set bs then v b else d b)"
proof -
  let ?A = "map (\<lambda>k. (log_blk st k, v (bs ! k))) [0 ..< length bs]"
  let ?I = "map (\<lambda>k. (bs ! k, v (bs ! k))) [0 ..< length bs]"
  have "take k (commit_writes st bs h v) = commit_writes st bs h v" using assms(3) by (simp add: commit_writes_def)
  then have c: "c = (apply_writes ?I ((apply_writes ?A d)(st := head_data h bs)))(st := head_data (head_data h bs) [])"
    by (simp add: c_def commit_writes_def)
  show "c st = head_data (head_data h bs) []" by (simp add: c)
  assume b: "\<not> in_log st b"
  have "b \<noteq> st" using b head_in_log(1) by auto
  moreover have "b \<noteq> log_blk st j" if "j < length bs" for j using b that assms(1) log_blk_in_log [of j st] by auto
  then have "b \<notin> fst ` set ?A" by fastforce
  moreover have "apply_writes ?I f b = (if b \<in> set bs then v b else f b)" for f
    using apply_writes_self [of "\<lambda>k. bs ! k" v "[0 ..< length bs]" f b] by (auto simp: in_set_conv_nth)
  ultimately show "c b = (if b \<in> set bs then v b else d b)" using apply_writes_other [of b ?A] by (simp add: c)
qed

text \<open>The transaction in memory: the blocks \<open>bs\<close> are logged and pinned and nothing else is, and the header
  on the disk is empty.\<close>

definition transaction :: "u32 \<Rightarrow> nat \<Rightarrow> u32 \<Rightarrow> u32 list \<Rightarrow> 'a klog_scheme \<Rightarrow> bool" where
  "transaction dev p st bs s \<longleftrightarrow> log_ok dev p st bs s \<and> distinct bs \<and>
     (\<forall>b. pins s dev b = (if b \<in> set bs then 1 else 0)) \<and> head_lists (disk s st) []"

lemma transaction_view:
  assumes "transaction dev p st bs s" "b \<notin> set bs"
  shows "bview s dev b = disk s b"
  using assms unpinned_clean [of dev s b] by (simp add: transaction_def log_ok_def quiet_def)

lemma crash_cases:
  assumes T: "transaction dev p st bs s" and f: "fresh_cache dev p' t"
    and d: "disk t = apply_writes (take k (commit_writes st bs (bview s dev st) (bview s dev))) (disk s)"
  shows "\<exists>t'. initlog dev st t = Some t' \<and>
    ((\<forall>b. \<not> in_log st b \<longrightarrow> disk t' b = disk s b) \<or> (\<forall>b. \<not> in_log st b \<longrightarrow> disk t' b = bview s dev b))"
proof -
  have len: "length bs \<le> LOGBLOCKS" and home: "\<forall>b \<in> set bs. \<not> in_log st b" and dis: "distinct bs"
    using T by (simp_all add: transaction_def log_ok_def)
  have st: "st \<notin> set bs" using home head_in_log(1) [of st] by auto
  have hd: "head_lists (disk s st) []" "bview s dev st = disk s st"
    using T transaction_view [OF T st] by (simp_all add: transaction_def)
  then have "length (bview s dev st) = BSIZE" by (simp add: head_lists_def)
  then have hb1: "head_lists (head_data (bview s dev st) bs) bs" by (rule head_lists_data [OF _ len])
  then have "length (head_data (bview s dev st) bs) = BSIZE" by (simp add: head_lists_def)
  then have "head_lists (head_data (head_data (bview s dev st) bs) []) []" by (rule head_lists_data) simp
  note hb = hb1 this
  consider "k \<le> length bs" | "length bs < k" "k \<le> 2 * length bs + 1" | "2 * length bs + 1 < k" by linarith
  then show ?thesis
  proof cases
    case 1
    have a: "disk t b = disk s b" if "\<not> in_log st b \<or> b = st" for b unfolding d by (rule crash_before [OF len 1]) (use that in simp)
    obtain t' where "initlog dev st t = Some t'" "\<forall>b. b \<notin> set [] \<and> \<not> in_log st b \<longrightarrow> disk t' b = disk t b"
      using initlog_abs [OF f, of st "[]"] hd a by auto
    then show ?thesis using a by auto
  next
    case 2
    note D = crash_during [OF len home 2 d]
    obtain t' where i: "initlog dev st t = Some t'" "\<forall>k < length bs. disk t' (bs ! k) = disk t (log_blk st k)"
      "\<forall>b. b \<notin> set bs \<and> \<not> in_log st b \<longrightarrow> disk t' b = disk t b"
      using initlog_abs [OF f _ home dis] hb(1) D(1) by auto
    have "disk t' b = bview s dev b" if "\<not> in_log st b" for b
    proof (cases "b \<in> set bs")
      case True
      then show ?thesis using i(2) D(2) by (auto simp: in_set_conv_nth)
    next
      case False
      then show ?thesis using i(3) D(3) that transaction_view [OF T False] by simp
    qed
    then show ?thesis using i(1) by blast
  next
    case 3
    note D = crash_after [OF len home 3 d]
    obtain t' where i: "initlog dev st t = Some t'" "\<forall>b. b \<notin> set [] \<and> \<not> in_log st b \<longrightarrow> disk t' b = disk t b"
      using initlog_abs [OF f, of st "[]"] hb(2) D(1) by auto
    have "disk t' b = bview s dev b" if "\<not> in_log st b" for b
      using i(2) D(2) [OF that] that transaction_view [OF T] by auto
    then show ?thesis using i(1) by blast
  qed
qed

subsection \<open>Logging a block\<close>

definition header_lists :: "logheader \<Rightarrow> u32 list \<Rightarrow> bool" where
  "header_lists h bs \<longleftrightarrow> lh_n h = of_nat (length bs) \<and> take (length bs) (lh_block h) = bs \<and> length (lh_block h) = LOGBLOCKS"

definition log_add :: "u32 \<Rightarrow> u32 list \<Rightarrow> u32 list" where
  "log_add b bs = (if b \<in> set bs then bs else bs @ [b])"

lemma log_find_set: "log_find bs b i = i + length (takeWhile (\<lambda>x. x \<noteq> b) bs)"
  by (induction bs arbitrary: i) auto

lemma log_find_mem:
  "b \<in> set bs \<Longrightarrow> log_find bs b 0 < length bs \<and> bs ! log_find bs b 0 = b" "b \<notin> set bs \<Longrightarrow> log_find bs b 0 = length bs"
proof -
  assume "b \<in> set bs"
  then show "log_find bs b 0 < length bs \<and> bs ! log_find bs b 0 = b"
    by (induction bs) (auto simp: log_find_set)
next
  assume "b \<notin> set bs"
  then show "log_find bs b 0 = length bs" by (induction bs) (auto simp: log_find_set)
qed

lemma log_write_abs:
  assumes inv: "bio_inv dev t" "bidx t dev b = Some i" "pins t dev b \<noteq> 0" "pins t dev b < 2 ^ 32 - 1"
    and run: "running t p" "holdingsleep t (b_lock (bcache t ! i))"
    and h: "header_lists (lh t) bs" "length bs < LOGBLOCKS" "1 \<le> sint (outstanding t)"
  shows "\<exists>t'. log_write i t = Some t' \<and> bio_inv dev t' \<and> bidx t' dev = bidx t dev \<and> bview t' dev = bview t dev \<and>
    held t' dev = held t dev \<and> pins t' dev = (if b \<in> set bs then pins t dev else (pins t dev)(b := Suc (pins t dev b))) \<and>
    busy t' = busy t \<and> disk t' = disk t \<and> dwrites t' = dwrites t \<and> running t' p \<and>
    holdingsleep t' (b_lock (bcache t' ! i)) \<and> log_dev t' = log_dev t \<and> log_start t' = log_start t \<and>
    outstanding t' = outstanding t \<and> header_lists (lh t') (log_add b bs)"
proof -
  let ?L = "lh_block (lh t)"
  have n: "lh_n (lh t) = of_nat (length bs)" "take (length bs) ?L = bs" "length ?L = LOGBLOCKS" using h(1) by (simp_all add: header_lists_def)
  have sn: "sint (lh_n (lh t)) = int (length bs)" using n(1) h(2) by (simp add: sint_log_n)
  have bn: "b_blockno (bcache t ! i) = b" using bidx_vals(6) [OF inv(2)] by simp
  have g: "\<not> of_nat LOGBLOCKS \<le>s lh_n (lh t)" "\<not> outstanding t <s 1"
    using sn h(2,3) by (simp_all add: word_sle_eq word_sless_alt)
  show ?thesis
  proof (cases "b \<in> set bs")
    case True
    let ?k = "log_find bs b 0"
    have k: "?k < length bs" "bs ! ?k = b" using log_find_mem(1) [OF True] by simp_all
    then have "?L ! ?k = b" using n(2) by (metis nth_take)
    then have u: "?L[?k := b] = ?L" using list_update_id [of ?L ?k] by simp
    have "t\<lparr>lh := (lh t)\<lparr>lh_block := ?L\<rparr>\<rparr> = t" by simp
    then have "log_write i t = Some t" using g sn n(2) k(1) u bn by (simp add: log_write_def Let_def)
    then show ?thesis using True assms by (simp add: log_add_def)
  next
    case False
    define t1 where "t1 = t\<lparr>lh := (lh t)\<lparr>lh_block := ?L[length bs := b]\<rparr>\<rparr>"
    define t2 where "t2 = bpin i t1"
    define t' where "t' = t2\<lparr>lh := (lh t2)\<lparr>lh_n := lh_n (lh t) + 1\<rparr>\<rparr>"
    have w: "log_write i t = Some t'"
      using g sn n(2) bn log_find_mem(2) [OF False] by (simp add: log_write_def Let_def t1_def t2_def t'_def)
    note U1 = lh_update_abs [OF inv(1), where x = "(lh t)\<lparr>lh_block := ?L[length bs := b]\<rparr>", folded t1_def]
    have a: "bio_inv dev t1" "bidx t1 dev b = Some i" "pins t1 dev b \<noteq> 0" "pins t1 dev b < 2 ^ 32 - 1" using inv U1 by simp_all
    note B = bpin_abs [OF a, folded t2_def]
    have b2: "bio_inv dev t2" "bio_frame t2 = bio_frame t1" using B(2) by (simp_all add: bio_step_def)
    note U2 = lh_update_abs [OF b2(1), where x = "(lh t2)\<lparr>lh_n := lh_n (lh t) + 1\<rparr>", folded t'_def]
    have lk: "b_lock (bcache t2 ! i) = b_lock (bcache t ! i)"
      using bidx_vals(4) [OF inv(2)] bio_inv_length [OF inv(1)] by (simp add: t2_def t1_def bpin_def upd_buf_def)
    have run1: "running t1 p" using run(1) U1 by simp
    have r2: "running t2 p" "holdingsleep t2 (b_lock (bcache t2 ! i))"
      using bio_frame_proc(5) [OF b2(2)] holdingsleep_frame [OF b2(2) run1] U1 run lk by simp_all
    note K = klog_frame [OF b2(2)]
    have "lh t' = (lh t)\<lparr>lh_block := ?L[length bs := b], lh_n := lh_n (lh t) + 1\<rparr>" by (simp add: t'_def K(3)) (simp add: t1_def)
    then have "header_lists (lh t') (bs @ [b])" using n h(2) by (simp add: header_lists_def take_Suc_conv_app_nth)
    then show ?thesis using w B U1 U2 r2 K False by (simp add: log_add_def bio_step_def t'_def) (simp add: t1_def)
  qed
qed

lemma update_logged:
  assumes T: "transaction dev p st bs s" and h: "header_lists (lh s) bs" "length bs < LOGBLOCKS" "1 \<le> sint (outstanding s)"
    and room: "room 3 s" and b: "\<not> in_log st b"
  shows "\<exists>i s1 s2 s3. bread dev b s = Some (i, s1) \<and> b_data (bcache s1 ! i) = bview s dev b \<and>
    log_write i (set_data i d s1) = Some s2 \<and> brelse i s2 = Some s3 \<and>
    transaction dev p st (log_add b bs) s3 \<and> header_lists (lh s3) (log_add b bs) \<and>
    bview s3 dev = (bview s dev)(b := d) \<and> disk s3 = disk s \<and> dwrites s3 = dwrites s \<and> outstanding s3 = outstanding s"
proof -
  have L: "log_ok dev p st bs s" and q: "quiet dev p s" and pn: "\<And>b. pins s dev b = (if b \<in> set bs then 1 else 0)"
    and ds: "distinct bs" using T by (simp_all add: transaction_def log_ok_def)
  have r1: "room (Suc 0) s" and small: "pins s dev b < 2 ^ 32 - 1" using room by (simp_all add: room_def pn)
  obtain i s1 where g: "bread dev b s = Some (i, s1)" "bidx s1 dev b = Some i" "b_data (bcache s1 ! i) = bview s dev b"
    "b_valid (bcache s1 ! i)" "bio_inv dev s1" "bview s1 dev = bview s dev" "pins s1 dev = (pins s dev)(b := Suc (pins s dev b))"
    "held s1 dev = (\<lambda>c. c = b)" "bio_frame s1 = bio_frame s" "busy s1 = insert i (busy s)" "(i \<in> busy s) = (pins s dev b \<noteq> 0)"
    "disk s1 = disk s" "dwrites s1 = dwrites s" "holdingsleep s1 (b_lock (bcache s1 ! i))" "running s1 p"
    using get_block [OF q r1 small] by metis
  have p1: "pins s1 dev b \<noteq> 0" using g(7) by simp
  define t where "t = set_data i d s1"
  note D = set_data_abs [OF g(5,2) p1 g(4), of d, folded t_def]
  have t: "bio_inv dev t" "bview t dev = (bview s dev)(b := d)" "pins t dev = pins s1 dev" "held t dev = held s1 dev"
    "bio_frame t = bio_frame s" "bidx t dev b = Some i" using D(1,2) g by (simp_all add: bio_step_def)
  note K = klog_frame [OF t(5)]
  have rt: "running t p" "holdingsleep t (b_lock (bcache t ! i))"
    using bio_frame_proc(5) [of t s1] t(5) g(9,14,15) D(7) by (simp_all add: t_def set_data_def)
  have pt: "pins t dev b \<noteq> 0" "pins t dev b < 2 ^ 32 - 1" "header_lists (lh t) bs" "1 \<le> sint (outstanding t)"
    using t(3) g(7) h K by (simp_all add: pn)
  obtain t' where w: "log_write i t = Some t'" "bio_inv dev t'" "bidx t' dev = bidx t dev" "bview t' dev = bview t dev"
    "held t' dev = held t dev" "pins t' dev = (if b \<in> set bs then pins t dev else (pins t dev)(b := Suc (pins t dev b)))"
    "busy t' = busy t" "disk t' = disk t" "dwrites t' = dwrites t" "running t' p"
    "holdingsleep t' (b_lock (bcache t' ! i))" "log_dev t' = log_dev t" "log_start t' = log_start t"
    "outstanding t' = outstanding t" "header_lists (lh t') (log_add b bs)"
    using log_write_abs [OF t(1,6) pt(1,2) rt pt(3) h(2) pt(4)] by (elim exE conjE) (rule that)
  have two: "pins t' dev b = 2" using w(6) t(3) g(7) by (simp add: pn)
  have ix: "bidx t' dev b = Some i" using w(3) t(6) by simp
  obtain s3 where r: "brelse i t' = Some s3"
    "bio_step dev i t' s3 (bview t' dev) ((pins t' dev)(b := pins t' dev b - 1)) ((held t' dev)(b := False))"
    "busy s3 = (if pins t' dev b = 1 then busy t' - {i} else busy t')" "disk s3 = disk t'" "dwrites s3 = dwrites t'"
    using brelse_abs [OF w(2) ix w(11)] two by auto
  have f3: "bio_inv dev s3" "bview s3 dev = (bview s dev)(b := d)" "\<forall>c. \<not> held s3 dev c" "bio_frame s3 = bio_frame t'"
    "pins s3 dev c = (if c \<in> set (log_add b bs) then 1 else 0)" for c
    using r(2) w(4-6) t(2-4) g(7,8) by (auto simp: bio_step_def fun_eq_iff pn log_add_def)
  note K3 = klog_frame [OF f3(4)]
  have bs3: "busy s3 = insert i (busy s)" using r(3) two w(7) D(3) g(10) by simp
  have rm: "room 2 s3" using room bs3 by (simp add: room_def card_insert_if)
  have dk: "disk s3 = disk s" "dwrites s3 = dwrites s" using r(4,5) w(8,9) D(4,5) g(12,13) by simp_all
  have "log_ok dev p st (log_add b bs) s3"
    using L f3 rm bio_frame_proc(5) [OF f3(4), of p] w(10,12,13,15) K K3 b h(2)
    unfolding log_ok_def quiet_def by (auto simp: header_lists_def log_add_def)
  then have "transaction dev p st (log_add b bs) s3" using T f3(5) dk by (simp add: transaction_def log_add_def)
  moreover have "header_lists (lh s3) (log_add b bs)" "outstanding s3 = outstanding s" using w(14,15) K K3 by simp_all
  ultimately show ?thesis using g(1,3) w(1) r(1) f3(2) dk unfolding t_def by blast
qed

text \<open>A machine at the start of an operation, with the log at block 2 of device 1.\<close>

definition boot_log :: "(u32 \<Rightarrow> u8 list) \<Rightarrow> klog" where
  "boot_log d = binit (boot_bio d (klog.fields 2 1 False 1 \<lparr>lh_n = 0, lh_block = replicate LOGBLOCKS 0\<rparr>))"

lemma boot_log_fields:
  "log_start (boot_log d) = 2" "outstanding (boot_log d) = 1" "log_dev (boot_log d) = 1"
  "lh (boot_log d) = \<lparr>lh_n = 0, lh_block = replicate LOGBLOCKS 0\<rparr>" "disk (boot_log d) = d" "fresh_cache 1 0 (boot_log d)"
proof -
  let ?b = "boot_bio d (klog.fields 2 1 False 1 \<lparr>lh_n = 0, lh_block = replicate LOGBLOCKS 0\<rparr>)"
  have one: "(1 :: u32) \<noteq> 0" by simp
  have "list_all fresh_buf (bcache ?b)" "length (bcache ?b) = Suc NBUF"
    by (simp_all add: boot_bio_def list_all_length fresh_buf_def zero_buf_def)
  note K = klog_frame [OF binit_inv(3) [OF this one], folded boot_log_def]
  show "log_start (boot_log d) = 2" "outstanding (boot_log d) = 1" "log_dev (boot_log d) = 1"
    "lh (boot_log d) = \<lparr>lh_n = 0, lh_block = replicate LOGBLOCKS 0\<rparr>"
    unfolding K by (simp_all add: boot_bio_def klog.defs)
  note B = boot_bio_inv [OF one, where d = d and m = "klog.fields 2 1 False 1 \<lparr>lh_n = 0, lh_block = replicate LOGBLOCKS 0\<rparr>", folded boot_log_def]
  show "disk (boot_log d) = d" "fresh_cache 1 0 (boot_log d)" using B by (simp_all add: fresh_cache_def quiet_def)
qed

lemma boot_log_transaction:
  assumes "head_lists (d 2) []"
  shows "transaction 1 0 2 [] (boot_log d)" "header_lists (lh (boot_log d)) []" "room 3 (boot_log d)"
  using assms boot_log_fields [of d] by (simp_all add: transaction_def log_ok_def fresh_cache_def room_def header_lists_def)

text \<open>After one logged update of block 40.\<close>

lemma boot_log_update:
  assumes "head_lists (d 2) []"
  shows "\<exists>s :: klog. transaction 1 0 2 [40] s \<and> bview s 1 = d(40 := x) \<and> disk s = d"
proof -
  let ?s = "boot_log d"
  note B = boot_log_transaction [where d = d, OF assms] and F = boot_log_fields [of d]
  have v: "bview ?s 1 = d" using transaction_view [OF B(1)] F(5) by (auto simp: fun_eq_iff)
  have a: "length ([] :: u32 list) < LOGBLOCKS" "1 \<le> sint (outstanding ?s)" "\<not> in_log 2 (40 :: u32)"
    by (simp_all add: in_log_def F)
  from update_logged [OF B(1,2) a(1,2) B(3) a(3), of x] obtain s :: klog where
    "transaction 1 0 2 (log_add 40 []) s" "bview s 1 = (bview ?s 1)(40 := x)" "disk s = disk ?s" by (elim exE conjE) (rule that)
  then show ?thesis by (auto simp: log_add_def v F)
qed

text \<open>
  C3. A commit is atomic: take any transaction that is in memory, its disk writes in the order
  \<^verbatim>\<open>commit\<close> issues them, and a crash after any number of them. Recovery from the disk as the crash left
  it ends, and all the blocks outside the log are then as before the transaction, or all of them are as
  the transaction wrote them.
\<close>

theorem commit_crash_atomic:
  assumes "transaction dev p st bs s" "bs \<noteq> []"
  shows "\<exists>s' ws. commit s = Some s' \<and> dwrites s' = dwrites s @ ws \<and>
    (\<forall>k t. fresh_cache dev p' t \<and> disk t = apply_writes (take k ws) (disk s) \<longrightarrow>
      (\<exists>t'. initlog dev st t = Some t' \<and>
        ((\<forall>b. \<not> in_log st b \<longrightarrow> disk t' b = disk s b) \<or> (\<forall>b. \<not> in_log st b \<longrightarrow> disk t' b = bview s dev b))))"
proof -
  let ?ws = "commit_writes st bs (bview s dev st) (bview s dev)"
  have "log_ok dev p st bs s" "distinct bs" "\<forall>b \<in> set bs. pins s dev b = 1" using assms(1) by (simp_all add: transaction_def)
  then obtain s' where "commit s = Some s'" "dwrites s' = dwrites s @ ?ws" using commit_abs assms(2) by metis
  then show ?thesis using crash_cases [OF assms(1)] by blast
qed

lemma replicate_4: "replicate 4 x = [x, x, x, x]"
  by (simp add: numeral_eq_Suc)

theorem commit_crash_atomic_witness:
  "\<exists>(s :: klog) s' ws (t :: klog) t'. transaction 1 0 2 [40] s \<and> commit s = Some s' \<and> dwrites s' = dwrites s @ ws \<and>
    disk t = apply_writes (take 1 ws) (disk s) \<and> initlog 1 2 t = Some t' \<and>
    (disk t' 40 = disk s 40 \<or> disk t' 40 = replicate BSIZE 7)"
proof -
  let ?d = "\<lambda>b :: u32. replicate BSIZE (0 :: u8)"
  have "head_lists (?d 2) []" by (simp add: head_lists_def get32_def replicate_4)
  then obtain s :: klog where s: "transaction 1 0 2 [40] s" "bview s 1 = ?d(40 := replicate BSIZE 7)" "disk s = ?d"
    using boot_log_update [where d = ?d] by blast
  obtain s' ws where w: "commit s = Some s'" "dwrites s' = dwrites s @ ws"
    "\<forall>k (t :: klog). fresh_cache 1 0 t \<and> disk t = apply_writes (take k ws) (disk s) \<longrightarrow>
      (\<exists>t'. initlog 1 2 t = Some t' \<and>
        ((\<forall>b. \<not> in_log 2 b \<longrightarrow> disk t' b = disk s b) \<or> (\<forall>b. \<not> in_log 2 b \<longrightarrow> disk t' b = bview s 1 b)))"
    using commit_crash_atomic [OF s(1) list.distinct(2), of 0] by (elim exE conjE) (rule that)
  let ?t = "boot_log (apply_writes (take 1 ws) (disk s))"
  have t: "fresh_cache 1 0 ?t" "disk ?t = apply_writes (take 1 ws) (disk s)" by (rule boot_log_fields)+
  have h: "\<not> in_log 2 (40 :: u32)" by (simp add: in_log_def)
  from w(3) [rule_format, OF conjI [OF t]] obtain t' where "initlog 1 2 ?t = Some t'"
    "(\<forall>b. \<not> in_log 2 b \<longrightarrow> disk t' b = disk s b) \<or> (\<forall>b. \<not> in_log 2 b \<longrightarrow> disk t' b = bview s 1 b)"
    by (elim exE conjE) (rule that)
  then have "initlog 1 2 ?t = Some t'" "disk t' 40 = disk s 40 \<or> disk t' 40 = bview s 1 40" using h by auto
  then show ?thesis using s w(1,2) t(2) by fastforce
qed

end
