(* ===== verification/Fs.thy ===== *)
theory Fs
  imports Log
begin

section \<open>The file system\<close>

text \<open>
  \<^verbatim>\<open>kernel/fs.c\<close>, with the on-disk structures of \<^verbatim>\<open>fs.h\<close>, the in-memory inode of \<^verbatim>\<open>file.h\<close> and
  \<^verbatim>\<open>stat.h\<close>: block allocation, the inode table, the contents of inodes, directories and path names. A
  pointer to an inode is its index in the table; path and file names are the bytes before the NUL.
  The messages that the code prints are left out.
\<close>

subsection \<open>Layout of the disk\<close>

abbreviation ROOTINO :: u32 where "ROOTINO \<equiv> 1"
abbreviation ROOTDEV :: u32 where "ROOTDEV \<equiv> 1"
abbreviation FSMAGIC :: u32 where "FSMAGIC \<equiv> 0x10203040"
abbreviation NDIRECT :: nat where "NDIRECT \<equiv> 12"
abbreviation NINDIRECT :: nat where "NINDIRECT \<equiv> 256"
abbreviation MAXFILE :: nat where "MAXFILE \<equiv> 268"
abbreviation DIRSIZ :: nat where "DIRSIZ \<equiv> 14"
abbreviation BPB :: u32 where "BPB \<equiv> 8192"
abbreviation IPB :: u64 where "IPB \<equiv> 16"

abbreviation T_DIR :: u16 where "T_DIR \<equiv> 1"
abbreviation T_FILE :: u16 where "T_FILE \<equiv> 2"
abbreviation T_DEVICE :: u16 where "T_DEVICE \<equiv> 3"

record superblock =
  sb_magic :: u32
  sb_size :: u32
  sb_nblocks :: u32
  sb_ninodes :: u32
  sb_nlog :: u32
  sb_logstart :: u32
  sb_inodestart :: u32
  sb_bmapstart :: u32

record dinode =
  d_type :: u16
  d_major :: u16
  d_minor :: u16
  d_nlink :: u16
  d_size :: u32
  d_addrs :: "u32 list"

definition get16 :: "u8 list \<Rightarrow> nat \<Rightarrow> u16" where
  "get16 bs off = le_word (take 2 (drop off bs))"

definition sb_of :: "u8 list \<Rightarrow> superblock" where
  "sb_of d = \<lparr>sb_magic = get32 d 0, sb_size = get32 d 4, sb_nblocks = get32 d 8, sb_ninodes = get32 d 12,
     sb_nlog = get32 d 16, sb_logstart = get32 d 20, sb_inodestart = get32 d 24, sb_bmapstart = get32 d 28\<rparr>"

text \<open>The 64 bytes of a \<^verbatim>\<open>struct dinode\<close>.\<close>

definition dinode_bytes :: "dinode \<Rightarrow> u8 list" where
  "dinode_bytes di = le_bytes 2 (d_type di) @ le_bytes 2 (d_major di) @ le_bytes 2 (d_minor di) @
     le_bytes 2 (d_nlink di) @ le_bytes 4 (d_size di) @ concat (map (le_bytes 4) (d_addrs di))"

definition dinode_at :: "u8 list \<Rightarrow> nat \<Rightarrow> dinode" where
  "dinode_at d off = \<lparr>d_type = get16 d off, d_major = get16 d (off + 2), d_minor = get16 d (off + 4),
     d_nlink = get16 d (off + 6), d_size = get32 d (off + 8),
     d_addrs = map (\<lambda>k. get32 d (off + 12 + 4 * k)) [0 ..< Suc NDIRECT]\<rparr>"

definition put_dinode :: "u8 list \<Rightarrow> nat \<Rightarrow> dinode \<Rightarrow> u8 list" where
  "put_dinode d off di = put_bytes d off (dinode_bytes di)"

text \<open>
  \<^verbatim>\<open>IPB\<close> has type \<^verbatim>\<open>unsigned long\<close>, so the inode number is converted to 64 bits: with the sign from an
  \<^verbatim>\<open>int\<close>, with zeros from a \<^verbatim>\<open>uint\<close>.
\<close>

definition IBLOCK :: "u64 \<Rightarrow> superblock \<Rightarrow> u32" where
  "IBLOCK i b = ucast (i div IPB + ucast (sb_inodestart b))"

definition dinode_off :: "u64 \<Rightarrow> nat" where
  "dinode_off i = 64 * unat (i mod IPB)"

definition BBLOCK :: "u32 \<Rightarrow> superblock \<Rightarrow> u32" where
  "BBLOCK b sb = b div BPB + sb_bmapstart sb"

text \<open>The same macro with an \<^verbatim>\<open>int\<close> as its argument, in \<^verbatim>\<open>balloc\<close>: the division is signed.\<close>

definition BBLOCK_int :: "cint \<Rightarrow> superblock \<Rightarrow> u32" where
  "BBLOCK_int b sb = word_of_int (sint b sdiv sint BPB) + sb_bmapstart sb"

subsection \<open>State\<close>

record inode =
  i_dev :: u32
  i_inum :: u32
  i_ref :: cint
  i_lock :: sleeplock
  i_valid :: bool
  i_type :: u16
  i_major :: u16
  i_minor :: u16
  i_nlink :: u16
  i_size :: u32
  i_addrs :: "u32 list"

record kfs = klog +
  sb :: superblock
  itable :: "inode list"

definition upd_inode :: "nat \<Rightarrow> (inode \<Rightarrow> inode) \<Rightarrow> 'a kfs_scheme \<Rightarrow> 'a kfs_scheme" where
  "upd_inode i f s = s\<lparr>itable := (itable s)[i := f (itable s ! i)]\<rparr>"

record stat =
  st_dev :: cint
  st_ino :: u32
  st_type :: u16
  st_nlink :: u16
  st_size :: u64

subsection \<open>Blocks\<close>

definition readsb :: "u32 \<Rightarrow> 'a kfs_scheme \<Rightarrow> 'a kfs_scheme option" where
  "readsb dev s = do {
     (b, s) \<leftarrow> bread dev 1 s;
     brelse b (s\<lparr>sb := sb_of (b_data (bcache s ! b))\<rparr>) }"

definition bzero :: "u32 \<Rightarrow> u32 \<Rightarrow> 'a kfs_scheme \<Rightarrow> 'a kfs_scheme option" where
  "bzero dev bno s = do {
     (b, s) \<leftarrow> bread dev bno s;
     s \<leftarrow> log_write b (set_data b (replicate BSIZE 0) s);
     brelse b s }"

text \<open>Whether bit \<open>bi\<close> of a bitmap block is set, and the block with that bit set or cleared.\<close>

definition bit_set :: "u8 list \<Rightarrow> nat \<Rightarrow> bool" where
  "bit_set d bi \<longleftrightarrow> d ! (bi div 8) AND push_bit (bi mod 8) 1 \<noteq> 0"

definition set_bit_at :: "u8 list \<Rightarrow> nat \<Rightarrow> u8 list" where
  "set_bit_at d bi = d[bi div 8 := d ! (bi div 8) OR push_bit (bi mod 8) 1]"

definition clear_bit_at :: "u8 list \<Rightarrow> nat \<Rightarrow> u8 list" where
  "clear_bit_at d bi = d[bi div 8 := d ! (bi div 8) AND NOT (push_bit (bi mod 8) 1)]"

text \<open>The inner loop of \<^verbatim>\<open>balloc\<close>, over the bits of one bitmap block.\<close>

fun balloc_scan :: "u8 list \<Rightarrow> u32 \<Rightarrow> u32 \<Rightarrow> nat list \<Rightarrow> nat option" where
  "balloc_scan d b n [] = None"
| "balloc_scan d b n (bi # bis) =
     (if \<not> b + of_nat bi < n then None
      else if \<not> bit_set d bi then Some bi
      else balloc_scan d b n bis)"

text \<open>
  The outer loop. The result of a full disk is 0; a size of the file system within \<^verbatim>\<open>BPB\<close> of \<open>2 ^ 32\<close> would make
  the loop variable wrap around, so termination is not part of the definition.
\<close>

partial_function (option) balloc_from :: "u32 \<Rightarrow> u32 \<Rightarrow> 'a kfs_scheme \<Rightarrow> (u32 \<times> 'a kfs_scheme) option" where
  "balloc_from dev b s =
     (if b < sb_size (sb s) then do {
        (i, s) \<leftarrow> bread dev (BBLOCK_int b (sb s)) s;
        (case balloc_scan (b_data (bcache s ! i)) b (sb_size (sb s)) [0 ..< unat BPB] of
           Some bi \<Rightarrow> do {
             s \<leftarrow> log_write i (set_data i (set_bit_at (b_data (bcache s ! i)) bi) s);
             s \<leftarrow> brelse i s;
             s \<leftarrow> bzero dev (b + of_nat bi) s;
             Some (b + of_nat bi, s) }
         | None \<Rightarrow> do { s \<leftarrow> brelse i s; balloc_from dev (b + BPB) s }) }
      else Some (0, s))"

definition balloc :: "u32 \<Rightarrow> 'a kfs_scheme \<Rightarrow> (u32 \<times> 'a kfs_scheme) option" where
  "balloc dev s = balloc_from dev 0 s"

definition bfree :: "u32 \<Rightarrow> u32 \<Rightarrow> 'a kfs_scheme \<Rightarrow> 'a kfs_scheme option" where
  "bfree dev b s = do {
     (i, s) \<leftarrow> bread dev (BBLOCK b (sb s)) s;
     let bi = unat (b mod BPB);
     if \<not> bit_set (b_data (bcache s ! i)) bi then panic ''freeing free block''
     else do {
       s \<leftarrow> log_write i (set_data i (clear_bit_at (b_data (bcache s ! i)) bi) s);
       brelse i s } }"

subsection \<open>The inode table\<close>

definition iinit :: "'a kfs_scheme \<Rightarrow> 'a kfs_scheme" where
  "iinit s = s\<lparr>itable := map (\<lambda>ip. ip\<lparr>i_lock := initsleeplock (i_lock ip)\<rparr>) (itable s)\<rparr>"

text \<open>The loop of \<^verbatim>\<open>iget\<close>: the entry of the inode if it is in the table, and the first empty entry.\<close>

fun iget_scan :: "inode list \<Rightarrow> u32 \<Rightarrow> u32 \<Rightarrow> nat \<Rightarrow> nat option \<Rightarrow> nat option \<times> nat option" where
  "iget_scan [] dev inum i e = (None, e)"
| "iget_scan (ip # ips) dev inum i e =
     (if 0 <s i_ref ip \<and> i_dev ip = dev \<and> i_inum ip = inum then (Some i, e)
      else iget_scan ips dev inum (Suc i) (if e = None \<and> i_ref ip = 0 then Some i else e))"

definition iget :: "u32 \<Rightarrow> u32 \<Rightarrow> 'a kfs_scheme \<Rightarrow> (nat \<times> 'a kfs_scheme) option" where
  "iget dev inum s =
     (case iget_scan (itable s) dev inum 0 None of
        (Some i, _) \<Rightarrow> Some (i, upd_inode i (\<lambda>ip. ip\<lparr>i_ref := i_ref ip + 1\<rparr>) s)
      | (None, None) \<Rightarrow> panic ''iget: no inodes''
      | (None, Some i) \<Rightarrow>
          Some (i, upd_inode i (\<lambda>ip. ip\<lparr>i_dev := dev, i_inum := inum, i_ref := 1, i_valid := False\<rparr>) s))"

definition dinode_zero :: dinode where
  "dinode_zero = \<lparr>d_type = 0, d_major = 0, d_minor = 0, d_nlink = 0, d_size = 0, d_addrs = replicate (Suc NDIRECT) 0\<rparr>"

text \<open>The loop of \<^verbatim>\<open>ialloc\<close> from inode number \<open>inum\<close> on; \<^const>\<open>None\<close> in the result is the null pointer.\<close>

partial_function (option) ialloc_from ::
  "u32 \<Rightarrow> u16 \<Rightarrow> cint \<Rightarrow> 'a kfs_scheme \<Rightarrow> (nat option \<times> 'a kfs_scheme) option" where
  "ialloc_from dev type inum s =
     (if inum < sb_ninodes (sb s) then do {
        (b, s) \<leftarrow> bread dev (IBLOCK (scast inum) (sb s)) s;
        if d_type (dinode_at (b_data (bcache s ! b)) (dinode_off (scast inum))) = 0 then do {
          s \<leftarrow> log_write b (set_data b (put_dinode (b_data (bcache s ! b)) (dinode_off (scast inum))
                 (dinode_zero\<lparr>d_type := type\<rparr>)) s);
          s \<leftarrow> brelse b s;
          (i, s) \<leftarrow> iget dev inum s;
          Some (Some i, s) }
        else do { s \<leftarrow> brelse b s; ialloc_from dev type (inum + 1) s } }
      else Some (None, s))"

definition ialloc :: "u32 \<Rightarrow> u16 \<Rightarrow> 'a kfs_scheme \<Rightarrow> (nat option \<times> 'a kfs_scheme) option" where
  "ialloc dev type s = ialloc_from dev type 1 s"

text \<open>The part of an in-memory inode that is kept on the disk, and the assignments that read it back.\<close>

definition dinode_of :: "inode \<Rightarrow> dinode" where
  "dinode_of ip = \<lparr>d_type = i_type ip, d_major = i_major ip, d_minor = i_minor ip, d_nlink = i_nlink ip,
     d_size = i_size ip, d_addrs = i_addrs ip\<rparr>"

definition load_dinode :: "dinode \<Rightarrow> inode \<Rightarrow> inode" where
  "load_dinode di ip = ip\<lparr>i_type := d_type di, i_major := d_major di, i_minor := d_minor di, i_nlink := d_nlink di,
     i_size := d_size di, i_addrs := d_addrs di\<rparr>"

definition iupdate :: "nat \<Rightarrow> 'a kfs_scheme \<Rightarrow> 'a kfs_scheme option" where
  "iupdate i s =
     (let ip = itable s ! i in do {
        (b, s) \<leftarrow> bread (i_dev ip) (IBLOCK (ucast (i_inum ip)) (sb s)) s;
        s \<leftarrow> log_write b (set_data b (put_dinode (b_data (bcache s ! b)) (dinode_off (ucast (i_inum ip))) (dinode_of ip)) s);
        brelse b s })"

definition idup :: "nat \<Rightarrow> 'a kfs_scheme \<Rightarrow> nat \<times> 'a kfs_scheme" where
  "idup i s = (i, upd_inode i (\<lambda>ip. ip\<lparr>i_ref := i_ref ip + 1\<rparr>) s)"

text \<open>
  The argument of \<^verbatim>\<open>ilock\<close> and \<^verbatim>\<open>iunlock\<close> is an entry of the table, so it is not the null pointer.
  \<open>ilock\<close> is \<^const>\<open>None\<close> when the caller has to sleep because the inode is locked.
\<close>

definition ilock :: "nat \<Rightarrow> 'a kfs_scheme \<Rightarrow> 'a kfs_scheme option" where
  "ilock i s =
     (if i_ref (itable s ! i) <s 1 then panic ''ilock''
      else do {
        lk \<leftarrow> acquiresleep s (i_lock (itable s ! i));
        let s = upd_inode i (\<lambda>ip. ip\<lparr>i_lock := lk\<rparr>) s;
        if \<not> i_valid (itable s ! i) then do {
          let inum = i_inum (itable s ! i);
          (b, s) \<leftarrow> bread (i_dev (itable s ! i)) (IBLOCK (ucast inum) (sb s)) s;
          let s = upd_inode i (load_dinode (dinode_at (b_data (bcache s ! b)) (dinode_off (ucast inum)))) s;
          s \<leftarrow> brelse b s;
          let s = upd_inode i (\<lambda>ip. ip\<lparr>i_valid := True\<rparr>) s;
          if i_type (itable s ! i) = 0 then panic ''ilock: no type'' else Some s }
        else Some s })"

definition unlock_inode :: "nat \<Rightarrow> 'a kfs_scheme \<Rightarrow> 'a kfs_scheme" where
  "unlock_inode i s = wakeup (ChInodeLock i) (upd_inode i (\<lambda>ip. ip\<lparr>i_lock := releasesleep (i_lock ip)\<rparr>) s)"

definition iunlock :: "nat \<Rightarrow> 'a kfs_scheme \<Rightarrow> 'a kfs_scheme option" where
  "iunlock i s =
     (if \<not> holdingsleep s (i_lock (itable s ! i)) \<or> i_ref (itable s ! i) <s 1 then panic ''iunlock''
      else Some (unlock_inode i s))"

subsection \<open>Contents of inodes\<close>

definition bmap :: "nat \<Rightarrow> u32 \<Rightarrow> 'a kfs_scheme \<Rightarrow> (u32 \<times> 'a kfs_scheme) option" where
  "bmap i bn s =
     (let dev = i_dev (itable s ! i) in
      if bn < of_nat NDIRECT then
        let addr = i_addrs (itable s ! i) ! unat bn in
        if addr = 0 then do {
          (addr, s) \<leftarrow> balloc dev s;
          if addr = 0 then Some (0, s)
          else Some (addr, upd_inode i (\<lambda>ip. ip\<lparr>i_addrs := (i_addrs ip)[unat bn := addr]\<rparr>) s) }
        else Some (addr, s)
      else
        let bn = bn - of_nat NDIRECT in
        if bn < of_nat NINDIRECT then do {
          let addr = i_addrs (itable s ! i) ! NDIRECT;
          (addr, s) \<leftarrow> (if addr = 0 then do {
                (addr, s) \<leftarrow> balloc dev s;
                Some (addr, if addr = 0 then s else upd_inode i (\<lambda>ip. ip\<lparr>i_addrs := (i_addrs ip)[NDIRECT := addr]\<rparr>) s) }
              else Some (addr, s));
          if addr = 0 then Some (0, s)
          else do {
            (b, s) \<leftarrow> bread dev addr s;
            let addr = get32 (b_data (bcache s ! b)) (4 * unat bn);
            (addr, s) \<leftarrow> (if addr = 0 then do {
                  (addr, s) \<leftarrow> balloc dev s;
                  if addr \<noteq> 0 then do {
                    s \<leftarrow> log_write b (set_data b (put32 (b_data (bcache s ! b)) (4 * unat bn) addr) s);
                    Some (addr, s) }
                  else Some (addr, s) }
                else Some (addr, s));
            s \<leftarrow> brelse b s;
            Some (addr, s) } }
        else panic ''bmap: out of range'')"

text \<open>The two loops of \<^verbatim>\<open>itrunc\<close>, over the direct blocks and over the entries of the indirect block.\<close>

fun itrunc_direct :: "nat \<Rightarrow> nat list \<Rightarrow> 'a kfs_scheme \<Rightarrow> 'a kfs_scheme option" where
  "itrunc_direct i [] s = Some s"
| "itrunc_direct i (k # ks) s =
     (let a = i_addrs (itable s ! i) ! k in
      if a \<noteq> 0 then do {
        s \<leftarrow> bfree (i_dev (itable s ! i)) a s;
        itrunc_direct i ks (upd_inode i (\<lambda>ip. ip\<lparr>i_addrs := (i_addrs ip)[k := 0]\<rparr>) s) }
      else itrunc_direct i ks s)"

fun itrunc_indirect :: "u32 \<Rightarrow> nat \<Rightarrow> nat list \<Rightarrow> 'a kfs_scheme \<Rightarrow> 'a kfs_scheme option" where
  "itrunc_indirect dev b [] s = Some s"
| "itrunc_indirect dev b (j # js) s =
     (let a = get32 (b_data (bcache s ! b)) (4 * j) in
      if a \<noteq> 0 then do { s \<leftarrow> bfree dev a s; itrunc_indirect dev b js s }
      else itrunc_indirect dev b js s)"

definition itrunc :: "nat \<Rightarrow> 'a kfs_scheme \<Rightarrow> 'a kfs_scheme option" where
  "itrunc i s = do {
     s \<leftarrow> itrunc_direct i [0 ..< NDIRECT] s;
     let dev = i_dev (itable s ! i);
     s \<leftarrow> (if i_addrs (itable s ! i) ! NDIRECT \<noteq> 0 then do {
           (b, s) \<leftarrow> bread dev (i_addrs (itable s ! i) ! NDIRECT) s;
           s \<leftarrow> itrunc_indirect dev b [0 ..< NINDIRECT] s;
           s \<leftarrow> brelse b s;
           s \<leftarrow> bfree dev (i_addrs (itable s ! i) ! NDIRECT) s;
           Some (upd_inode i (\<lambda>ip. ip\<lparr>i_addrs := (i_addrs ip)[NDIRECT := 0]\<rparr>) s) }
         else Some s);
     iupdate i (upd_inode i (\<lambda>ip. ip\<lparr>i_size := 0\<rparr>) s) }"

definition iput :: "nat \<Rightarrow> 'a kfs_scheme \<Rightarrow> 'a kfs_scheme option" where
  "iput i s = do {
     s \<leftarrow> (if i_ref (itable s ! i) = 1 \<and> i_valid (itable s ! i) \<and> i_nlink (itable s ! i) = 0 then do {
           lk \<leftarrow> acquiresleep s (i_lock (itable s ! i));
           s \<leftarrow> itrunc i (upd_inode i (\<lambda>ip. ip\<lparr>i_lock := lk\<rparr>) s);
           s \<leftarrow> iupdate i (upd_inode i (\<lambda>ip. ip\<lparr>i_type := 0\<rparr>) s);
           Some (unlock_inode i (upd_inode i (\<lambda>ip. ip\<lparr>i_valid := False\<rparr>) s)) }
         else Some s);
     Some (upd_inode i (\<lambda>ip. ip\<lparr>i_ref := i_ref ip - 1\<rparr>) s) }"

definition iunlockput :: "nat \<Rightarrow> 'a kfs_scheme \<Rightarrow> 'a kfs_scheme option" where
  "iunlockput i s = do { s \<leftarrow> iunlock i s; iput i s }"

text \<open>\<^verbatim>\<open>ireclaim\<close> from inode number \<open>inum\<close> on: orphaned inodes are freed, each in its own transaction.\<close>

partial_function (option) ireclaim_from :: "u32 \<Rightarrow> cint \<Rightarrow> 'a kfs_scheme \<Rightarrow> 'a kfs_scheme option" where
  "ireclaim_from dev inum s =
     (if inum < sb_ninodes (sb s) then do {
        (b, s) \<leftarrow> bread dev (IBLOCK (scast inum) (sb s)) s;
        let di = dinode_at (b_data (bcache s ! b)) (dinode_off (scast inum));
        if d_type di \<noteq> 0 \<and> d_nlink di = 0 then do {
          (i, s) \<leftarrow> iget dev inum s;
          s \<leftarrow> brelse b s;
          s \<leftarrow> begin_op s;
          s \<leftarrow> ilock i s;
          s \<leftarrow> iunlock i s;
          s \<leftarrow> iput i s;
          s \<leftarrow> end_op s;
          ireclaim_from dev (inum + 1) s }
        else do { s \<leftarrow> brelse b s; ireclaim_from dev (inum + 1) s } }
      else Some s)"

definition ireclaim :: "u32 \<Rightarrow> 'a kfs_scheme \<Rightarrow> 'a kfs_scheme option" where
  "ireclaim dev s = ireclaim_from dev 1 s"

definition fsinit :: "u32 \<Rightarrow> 'a kfs_scheme \<Rightarrow> 'a kfs_scheme option" where
  "fsinit dev s = do {
     s \<leftarrow> readsb dev s;
     if sb_magic (sb s) \<noteq> FSMAGIC then panic ''invalid file system''
     else do { s \<leftarrow> initlog dev (sb_logstart (sb s)) s; ireclaim dev s } }"

definition stati :: "nat \<Rightarrow> 'a kfs_scheme \<Rightarrow> stat" where
  "stati i s = (let ip = itable s ! i in
     \<lparr>st_dev = i_dev ip, st_ino = i_inum ip, st_type = i_type ip, st_nlink = i_nlink ip, st_size = ucast (i_size ip)\<rparr>)"

subsection \<open>Reading and writing\<close>

text \<open>
  The loop of \<^verbatim>\<open>readi\<close>: \<open>left\<close> is \<^verbatim>\<open>n - tot\<close>. The result has the return value and the bytes copied.
\<close>

function readi_loop ::
  "nat \<Rightarrow> dst \<Rightarrow> u32 \<Rightarrow> nat \<Rightarrow> u32 \<Rightarrow> u8 list \<Rightarrow> 'a kfs_scheme \<Rightarrow> (cint \<times> u8 list \<times> 'a kfs_scheme) option" where
  "readi_loop i d off left tot acc s =
     (if left = 0 then Some (tot, acc, s)
      else do {
        (addr, s) \<leftarrow> bmap i (off div of_nat BSIZE) s;
        if addr = 0 then Some (tot, acc, s)
        else do {
          (b, s) \<leftarrow> bread (i_dev (itable s ! i)) addr s;
          let k = unat (off mod of_nat BSIZE);
          let m = min left (BSIZE - k);
          let bs = take m (drop k (b_data (bcache s ! b)));
          (r, s) \<leftarrow> either_copyout d bs s;
          s \<leftarrow> brelse b s;
          if r = - 1 then Some (- 1, acc, s)
          else readi_loop i (dst_add d m) (off + of_nat m) (left - m) (tot + of_nat m) (acc @ bs) s } })"
  by pat_completeness auto

lemma block_rest: "0 < BSIZE - unat ((off :: u32) mod of_nat BSIZE)"
proof -
  have "unat (off mod 1024) < 1024" by (simp add: unat_mod)
  then show ?thesis by simp
qed

termination readi_loop
  by (relation "measure (\<lambda>(i, d, off, left, tot, acc, s). left)") (use block_rest in auto)

declare readi_loop.simps [simp del]

definition readi :: "nat \<Rightarrow> dst \<Rightarrow> u32 \<Rightarrow> u32 \<Rightarrow> 'a kfs_scheme \<Rightarrow> (cint \<times> u8 list \<times> 'a kfs_scheme) option" where
  "readi i d off n s =
     (let fsize = i_size (itable s ! i) in
      if fsize < off \<or> off + n < off then Some (0, [], s)
      else
        let n = (if fsize < off + n then fsize - off else n) in
        readi_loop i d off (unat n) 0 [] s)"

text \<open>
  The loop of \<^verbatim>\<open>writei\<close>, with the final values of \<^verbatim>\<open>tot\<close> and \<^verbatim>\<open>off\<close>. A copy that fails half way leaves the bytes it
  copied in the buffer, which is not logged.
\<close>

function writei_loop ::
  "nat \<Rightarrow> src \<Rightarrow> u32 \<Rightarrow> nat \<Rightarrow> u32 \<Rightarrow> 'a kfs_scheme \<Rightarrow> (u32 \<times> u32 \<times> 'a kfs_scheme) option" where
  "writei_loop i src off left tot s =
     (if left = 0 then Some (tot, off, s)
      else do {
        (addr, s) \<leftarrow> bmap i (off div of_nat BSIZE) s;
        if addr = 0 then Some (tot, off, s)
        else do {
          (b, s) \<leftarrow> bread (i_dev (itable s ! i)) addr s;
          let k = unat (off mod of_nat BSIZE);
          let m = min left (BSIZE - k);
          (r, bs, s) \<leftarrow> either_copyin src m s;
          let s = set_data b (put_bytes (b_data (bcache s ! b)) k bs) s;
          if r = - 1 then do { s \<leftarrow> brelse b s; Some (tot, off, s) }
          else do {
            s \<leftarrow> log_write b s;
            s \<leftarrow> brelse b s;
            writei_loop i (src_add src m) (off + of_nat m) (left - m) (tot + of_nat m) s } } })"
  by pat_completeness auto

termination writei_loop
  by (relation "measure (\<lambda>(i, src, off, left, tot, s). left)") (use block_rest in auto)

declare writei_loop.simps [simp del]

definition writei :: "nat \<Rightarrow> src \<Rightarrow> u32 \<Rightarrow> u32 \<Rightarrow> 'a kfs_scheme \<Rightarrow> (cint \<times> 'a kfs_scheme) option" where
  "writei i src off n s =
     (if i_size (itable s ! i) < off \<or> off + n < off then Some (- 1, s)
      else if of_nat (MAXFILE * BSIZE) < off + n then Some (- 1, s)
      else do {
        (tot, off, s) \<leftarrow> writei_loop i src off (unat n) 0 s;
        let s = (if i_size (itable s ! i) < off then upd_inode i (\<lambda>ip. ip\<lparr>i_size := off\<rparr>) s else s);
        s \<leftarrow> iupdate i s;
        Some (tot, s) })"

subsection \<open>Directories\<close>

text \<open>A pointer to a string kept as a list: the bytes after the end are NULs.\<close>

definition ptr :: "u8 list \<Rightarrow> nat \<Rightarrow> u8" where
  "ptr xs i = (if i < length xs then xs ! i else 0)"

definition namecmp :: "u8 list \<Rightarrow> u8 list \<Rightarrow> int" where
  "namecmp a b = strncmp (ptr a) (ptr b) DIRSIZ"

record dirent =
  de_inum :: u16
  de_name :: "u8 list"

definition dirent_of :: "u8 list \<Rightarrow> dirent" where
  "dirent_of bs = \<lparr>de_inum = get16 bs 0, de_name = take DIRSIZ (drop 2 bs)\<rparr>"

text \<open>\<^verbatim>\<open>strncpy\<close> into an array of \<^const>\<open>DIRSIZ\<close> bytes.\<close>

definition name_bytes :: "u8 list \<Rightarrow> u8 list" where
  "name_bytes nm = (let xs = takeWhile (\<lambda>c. c \<noteq> 0) (take DIRSIZ nm) in xs @ replicate (DIRSIZ - length xs) 0)"

definition dirent_bytes :: "dirent \<Rightarrow> u8 list" where
  "dirent_bytes de = le_bytes 2 (de_inum de) @ de_name de"

text \<open>
  \<^verbatim>\<open>dirlookup\<close> from offset \<open>off\<close> on. The result has the inode, or \<^const>\<open>None\<close> for the null pointer, and the
  value stored through \<^verbatim>\<open>poff\<close> if an entry was found.
\<close>

partial_function (option) dirlookup_from ::
  "nat \<Rightarrow> u8 list \<Rightarrow> u32 \<Rightarrow> 'a kfs_scheme \<Rightarrow> ((nat \<times> u32) option \<times> 'a kfs_scheme) option" where
  "dirlookup_from dp nm off s =
     (if off < i_size (itable s ! dp) then do {
        (r, bs, s) \<leftarrow> readi dp LocalDst off 16 s;
        if r \<noteq> 16 then panic ''dirlookup read''
        else
          let de = dirent_of bs in
          if de_inum de = 0 then dirlookup_from dp nm (off + 16) s
          else if namecmp nm (de_name de) = 0 then do {
            (i, s) \<leftarrow> iget (i_dev (itable s ! dp)) (ucast (de_inum de)) s;
            Some (Some (i, off), s) }
          else dirlookup_from dp nm (off + 16) s }
      else Some (None, s))"

definition dirlookup :: "nat \<Rightarrow> u8 list \<Rightarrow> 'a kfs_scheme \<Rightarrow> ((nat \<times> u32) option \<times> 'a kfs_scheme) option" where
  "dirlookup dp nm s =
     (if i_type (itable s ! dp) \<noteq> T_DIR then panic ''dirlookup not DIR'' else dirlookup_from dp nm 0 s)"

text \<open>The loop of \<^verbatim>\<open>dirlink\<close>: the offset of the first empty entry, or of the end of the directory.\<close>

partial_function (option) dirlink_slot :: "nat \<Rightarrow> u32 \<Rightarrow> 'a kfs_scheme \<Rightarrow> (u32 \<times> 'a kfs_scheme) option" where
  "dirlink_slot dp off s =
     (if off < i_size (itable s ! dp) then do {
        (r, bs, s) \<leftarrow> readi dp LocalDst off 16 s;
        if r \<noteq> 16 then panic ''dirlink read''
        else if de_inum (dirent_of bs) = 0 then Some (off, s)
        else dirlink_slot dp (off + 16) s }
      else Some (off, s))"

definition dirlink :: "nat \<Rightarrow> u8 list \<Rightarrow> u32 \<Rightarrow> 'a kfs_scheme \<Rightarrow> (cint \<times> 'a kfs_scheme) option" where
  "dirlink dp nm inum s = do {
     (r, s) \<leftarrow> dirlookup dp nm s;
     case r of
       Some (i, _) \<Rightarrow> do { s \<leftarrow> iput i s; Some (- 1, s) }
     | None \<Rightarrow> do {
         (off, s) \<leftarrow> dirlink_slot dp 0 s;
         (r, s) \<leftarrow> writei dp (LocalSrc (dirent_bytes \<lparr>de_inum = ucast inum, de_name = name_bytes nm\<rparr>)) off 16 s;
         Some (if r \<noteq> 16 then - 1 else 0, s) } }"

subsection \<open>Paths\<close>

text \<open>
  \<^verbatim>\<open>skipelem\<close>: the rest of the path and the element, of which at most \<^const>\<open>DIRSIZ\<close> bytes are copied to
  \<^verbatim>\<open>name\<close>. \<open>47\<close> is the slash.
\<close>

abbreviation slash :: u8 where "slash \<equiv> 47"

definition skipelem :: "u8 list \<Rightarrow> (u8 list \<times> u8 list) option" where
  "skipelem pth =
     (let pth = dropWhile (\<lambda>c. c = slash) pth in
      if pth = [] then None
      else
        let el = takeWhile (\<lambda>c. c \<noteq> slash) pth;
            pth = dropWhile (\<lambda>c. c \<noteq> slash) pth;
            nm = (if length el \<ge> DIRSIZ then take DIRSIZ el else el)
        in Some (dropWhile (\<lambda>c. c = slash) pth, nm))"

lemma skipelem_shorter: "skipelem pth = Some (rest, nm) \<Longrightarrow> length rest < length pth"
proof -
  assume s: "skipelem pth = Some (rest, nm)"
  define p where "p = dropWhile (\<lambda>c. c = slash) pth"
  have ne: "p \<noteq> []" and r: "rest = dropWhile (\<lambda>c. c = slash) (dropWhile (\<lambda>c. c \<noteq> slash) p)"
    using s by (auto simp: skipelem_def Let_def p_def split: if_splits)
  then obtain c cs where p: "p = c # cs" by (cases p) auto
  have "c \<noteq> slash" using p hd_dropWhile [of "\<lambda>c. c = slash" pth] ne by (simp add: p_def)
  then have "length rest \<le> length cs"
    using length_dropWhile_le [of "\<lambda>c. c = slash" "dropWhile (\<lambda>c. c \<noteq> slash) cs"] length_dropWhile_le [of "\<lambda>c. c \<noteq> slash" cs]
    by (simp add: r p)
  then show ?thesis using p length_dropWhile_le [of "\<lambda>c. c = slash" pth] by (simp add: p_def)
qed

text \<open>
  The loop of \<^verbatim>\<open>namex\<close> at inode \<open>i\<close>. The second component of the result is \<^verbatim>\<open>name\<close>, which \<^verbatim>\<open>nameiparent\<close> returns to
  its caller.
\<close>

function namex_loop ::
  "nat \<Rightarrow> u8 list \<Rightarrow> bool \<Rightarrow> u8 list \<Rightarrow> 'a kfs_scheme \<Rightarrow> (nat option \<times> u8 list \<times> 'a kfs_scheme) option" where
  "namex_loop i pth par nm s =
     (case skipelem pth of
        None \<Rightarrow> if par then do { s \<leftarrow> iput i s; Some (None, nm, s) } else Some (Some i, nm, s)
      | Some (rest, nm) \<Rightarrow> do {
          s \<leftarrow> ilock i s;
          if i_type (itable s ! i) \<noteq> T_DIR then do { s \<leftarrow> iunlockput i s; Some (None, nm, s) }
          else if par \<and> rest = [] then do { s \<leftarrow> iunlock i s; Some (Some i, nm, s) }
          else do {
            (r, s) \<leftarrow> dirlookup i nm s;
            case r of
              None \<Rightarrow> do { s \<leftarrow> iunlockput i s; Some (None, nm, s) }
            | Some (j, _) \<Rightarrow> do { s \<leftarrow> iunlockput i s; namex_loop j rest par nm s } } })"
  by pat_completeness auto
termination
  by (relation "measure (\<lambda>(i, pth, par, nm, s). length pth)") (auto dest: skipelem_shorter)

declare namex_loop.simps [simp del]

definition namex :: "u8 list \<Rightarrow> bool \<Rightarrow> 'a kfs_scheme \<Rightarrow> (nat option \<times> u8 list \<times> 'a kfs_scheme) option" where
  "namex pth par s = do {
     (i, s) \<leftarrow> (if pth \<noteq> [] \<and> hd pth = slash then iget ROOTDEV ROOTINO s
        else case myproc s of
               None \<Rightarrow> panic ''kerneltrap''
             | Some p \<Rightarrow> (case cwd (procs s ! p) of None \<Rightarrow> panic ''kerneltrap'' | Some c \<Rightarrow> Some (idup c s)));
     namex_loop i pth par [] s }"

definition namei :: "u8 list \<Rightarrow> 'a kfs_scheme \<Rightarrow> (nat option \<times> 'a kfs_scheme) option" where
  "namei pth s = do { (r, _, s) \<leftarrow> namex pth False s; Some (r, s) }"

definition nameiparent :: "u8 list \<Rightarrow> 'a kfs_scheme \<Rightarrow> (nat option \<times> u8 list \<times> 'a kfs_scheme) option" where
  "nameiparent pth s = namex pth True s"

subsection \<open>Path lookup walks along the components\<close>

text \<open>The reference: a path is split at the slashes, and the empty components are dropped.\<close>

fun split_slash :: "u8 list \<Rightarrow> u8 list list" where
  "split_slash [] = [[]]"
| "split_slash (c # cs) = (if c = slash then [] # split_slash cs
     else case split_slash cs of [] \<Rightarrow> [[c]] | x # xs \<Rightarrow> (c # x) # xs)"

definition path_elems :: "u8 list \<Rightarrow> u8 list list" where
  "path_elems p = filter (\<lambda>e. e \<noteq> []) (split_slash p)"

fun walk_elems ::
  "nat \<Rightarrow> u8 list list \<Rightarrow> bool \<Rightarrow> u8 list \<Rightarrow> 'a kfs_scheme \<Rightarrow> (nat option \<times> u8 list \<times> 'a kfs_scheme) option" where
  "walk_elems i [] par nm s = (if par then do { s \<leftarrow> iput i s; Some (None, nm, s) } else Some (Some i, nm, s))"
| "walk_elems i (e # es) par nm s = do {
     s \<leftarrow> ilock i s;
     if i_type (itable s ! i) \<noteq> T_DIR then do { s \<leftarrow> iunlockput i s; Some (None, e, s) }
     else if par \<and> es = [] then do { s \<leftarrow> iunlock i s; Some (Some i, e, s) }
     else do {
       (r, s) \<leftarrow> dirlookup i e s;
       case r of
         None \<Rightarrow> do { s \<leftarrow> iunlockput i s; Some (None, e, s) }
       | Some (j, _) \<Rightarrow> do { s \<leftarrow> iunlockput i s; walk_elems j es par e s } } }"

lemma split_slash_take:
  "split_slash p = takeWhile (\<lambda>c. c \<noteq> slash) p #
     (case dropWhile (\<lambda>c. c \<noteq> slash) p of [] \<Rightarrow> [] | _ # r \<Rightarrow> split_slash r)"
  by (induction p) auto

lemma path_elems_slash [simp]: "path_elems (slash # p) = path_elems p" "path_elems [] = []"
  by (simp_all add: path_elems_def)

lemma path_elems_dropWhile: "path_elems (dropWhile (\<lambda>c. c = slash) p) = path_elems p"
  by (induction p) auto

lemma path_elems_take:
  assumes "p \<noteq> []" "hd p \<noteq> slash"
  shows "path_elems p = takeWhile (\<lambda>c. c \<noteq> slash) p # path_elems (dropWhile (\<lambda>c. c \<noteq> slash) p)"
proof -
  have ne: "takeWhile (\<lambda>c. c \<noteq> slash) p \<noteq> []" using assms by (cases p) auto
  show ?thesis
  proof (cases "dropWhile (\<lambda>c. c \<noteq> slash) p")
    case Nil
    show ?thesis unfolding path_elems_def split_slash_take [of p] Nil using ne by simp
  next
    case (Cons c r)
    then have "c = slash" using hd_dropWhile [of "\<lambda>c. c \<noteq> slash" p] by simp
    then show ?thesis unfolding path_elems_def split_slash_take [of p] Cons using ne by simp
  qed
qed

lemma dropWhile_slash: "dropWhile (\<lambda>c. c = slash) p = [] \<or> hd (dropWhile (\<lambda>c. c = slash) p) \<noteq> slash"
  using hd_dropWhile [of "\<lambda>c. c = slash" p] by auto

lemma skipelem_elems:
  "skipelem p = None \<longleftrightarrow> path_elems p = []"
  "skipelem p = Some (rest, nm) \<Longrightarrow> \<exists>e. path_elems p = e # path_elems rest \<and> nm = take DIRSIZ e \<and>
     (rest = [] \<longleftrightarrow> path_elems rest = [])"
proof -
  let ?q = "dropWhile (\<lambda>c. c = slash) p"
  have pe: "path_elems p = path_elems ?q" by (simp add: path_elems_dropWhile)
  have nil: "dropWhile (\<lambda>c. c = slash) p = [] \<longleftrightarrow> path_elems (dropWhile (\<lambda>c. c = slash) p) = []" for p
    by (metis dropWhile_slash list.discI path_elems_slash(2) path_elems_take)
  show "skipelem p = None \<longleftrightarrow> path_elems p = []"
    using nil [of p] by (simp add: skipelem_def Let_def pe [symmetric])
  assume s: "skipelem p = Some (rest, nm)"
  have q: "?q \<noteq> []"
  proof
    assume "?q = []"
    then show False using s by (simp add: skipelem_def del: dropWhile_eq_Nil_conv)
  qed
  let ?e = "takeWhile (\<lambda>c. c \<noteq> slash) ?q" and ?r = "dropWhile (\<lambda>c. c \<noteq> slash) ?q"
  have r: "rest = dropWhile (\<lambda>c. c = slash) ?r" and n: "nm = take DIRSIZ ?e"
    using s q by (auto simp: skipelem_def Let_def split: if_splits)
  have "path_elems ?q = ?e # path_elems ?r" using path_elems_take [of ?q] q dropWhile_slash [of p] by blast
  then have "path_elems p = ?e # path_elems rest" unfolding r path_elems_dropWhile .
  moreover have "rest = [] \<longleftrightarrow> path_elems rest = []" using nil [of ?r] by (simp add: r)
  ultimately show "\<exists>e. path_elems p = e # path_elems rest \<and> nm = take DIRSIZ e \<and> (rest = [] \<longleftrightarrow> path_elems rest = [])"
    using n by blast
qed

text \<open>
  C20. Path lookup is the walk along the components of the path: the loop of \<^verbatim>\<open>namex\<close> gives the same
  result and the same state as the reference, which splits the path at the slashes, drops the empty
  components, cuts the others to \<^const>\<open>DIRSIZ\<close> bytes and looks them up one after the other.
\<close>

theorem namex_components:
  fixes s :: "'a kfs_scheme"
  shows "namex_loop i p par nm s = walk_elems i (map (take DIRSIZ) (path_elems p)) par nm s"
proof (induction "length p" arbitrary: i p nm s rule: less_induct)
  case less
  show ?case
  proof (cases "skipelem p")
    case None
    then show ?thesis using skipelem_elems(1) [of p] by (simp add: namex_loop.simps [of i p])
  next
    case (Some q)
    obtain rest n where q: "q = (rest, n)" by (cases q)
    obtain e where e: "path_elems p = e # path_elems rest" "n = take DIRSIZ e" "rest = [] \<longleftrightarrow> path_elems rest = []"
      using skipelem_elems(2) [of p rest n] Some q by blast
    have ih: "(namex_loop j rest par nm :: 'a kfs_scheme \<Rightarrow> _) = walk_elems j (map (take DIRSIZ) (path_elems rest)) par nm" for j nm
      by (rule ext) (rule less [OF skipelem_shorter [OF Some [unfolded q]]])
    show ?thesis by (simp add: namex_loop.simps [of i p] Some q e ih del: take_map cong: if_cong option.case_cong)
  qed
qed

end
