(* ===== verification/Printf.thy ===== *)
theory Printf
  imports Xv6_Prelude
begin

section \<open>Formatted output\<close>

text \<open>
  \<^verbatim>\<open>kernel/printf.c\<close> and \<^verbatim>\<open>user/printf.c\<close>. Both are functions from a format and its arguments to what they
  send to \<^verbatim>\<open>consputc\<close> and \<^verbatim>\<open>putc\<close>. A format is the list of bytes before the NUL; a missing or mistyped argument
  (undefined in C) has no result. The lemmas show that the 20 bytes of the buffer
  in \<^verbatim>\<open>printint\<close> are always enough, that the digits read back as the number, and that the two
  implementations agree.
\<close>

subsection \<open>Numbers\<close>

abbreviation byte :: "char \<Rightarrow> u8" where "byte c \<equiv> of_char c"
abbreviation bytes :: "string \<Rightarrow> u8 list" where "bytes s \<equiv> map byte s"

definition kdigits :: "u8 list" where "kdigits = bytes ''0123456789abcdef''"
definition udigits :: "u8 list" where "udigits = bytes ''0123456789ABCDEF''"

text \<open>The loop that stores the digits, the last one first. It would not end for base 1.\<close>

partial_function (option) put_digits :: "u8 list \<Rightarrow> u64 \<Rightarrow> u64 \<Rightarrow> u8 list \<Rightarrow> u8 list option" where
  "put_digits digits base x buf =
     (let buf = buf @ [digits ! unat (x mod base)]; x = x div base in
      if x \<noteq> 0 then put_digits digits base x buf else Some buf)"

definition printint :: "u8 list \<Rightarrow> u64 \<Rightarrow> u64 \<Rightarrow> bool \<Rightarrow> u8 list option" where
  "printint digits xx base sign =
     (let neg = (sign \<and> xx <s 0); x = (if neg then - xx else xx) in do {
        buf \<leftarrow> put_digits digits base x [];
        Some (rev (if neg then buf @ [byte CHR ''-''] else buf)) })"

definition printptr :: "u8 list \<Rightarrow> u64 \<Rightarrow> u8 list" where
  "printptr digits x = bytes ''0x'' @ map (\<lambda>i. digits ! unat (drop_bit 60 (push_bit (4 * i) x))) [0 ..< 16]"

subsection \<open>Formats\<close>

datatype va = VNum u64 | VStr "u8 list option"

text \<open>
  The chain of tests on the characters after the percent sign, which the two files share: the conversion
  and how many more characters it takes. \<open>Num wide base sign\<close> calls \<^verbatim>\<open>printint\<close>.
\<close>

datatype conv = Num bool u64 bool | Ptr | Chr | Str | Percent | Unknown

definition conv_of :: "u8 \<Rightarrow> u8 \<Rightarrow> u8 \<Rightarrow> conv \<times> nat" where
  "conv_of c0 c1 c2 =
     (if c0 = byte CHR ''d'' then (Num False 10 True, 0)
      else if c0 = byte CHR ''l'' \<and> c1 = byte CHR ''d'' then (Num True 10 True, 1)
      else if c0 = byte CHR ''l'' \<and> c1 = byte CHR ''l'' \<and> c2 = byte CHR ''d'' then (Num True 10 True, 2)
      else if c0 = byte CHR ''u'' then (Num False 10 False, 0)
      else if c0 = byte CHR ''l'' \<and> c1 = byte CHR ''u'' then (Num True 10 False, 1)
      else if c0 = byte CHR ''l'' \<and> c1 = byte CHR ''l'' \<and> c2 = byte CHR ''u'' then (Num True 10 False, 2)
      else if c0 = byte CHR ''x'' then (Num False 16 False, 0)
      else if c0 = byte CHR ''l'' \<and> c1 = byte CHR ''x'' then (Num True 16 False, 1)
      else if c0 = byte CHR ''l'' \<and> c1 = byte CHR ''l'' \<and> c2 = byte CHR ''x'' then (Num True 16 False, 2)
      else if c0 = byte CHR ''p'' then (Ptr, 0)
      else if c0 = byte CHR ''c'' then (Chr, 0)
      else if c0 = byte CHR ''s'' then (Str, 0)
      else if c0 = byte CHR ''%'' then (Percent, 0)
      else (Unknown, 0))"

text \<open>\<^verbatim>\<open>va_arg\<close> with type \<^verbatim>\<open>int\<close>, \<^verbatim>\<open>uint32\<close> or \<^verbatim>\<open>uint64\<close>, converted to \<^verbatim>\<open>long long\<close>.\<close>

definition va_num :: "bool \<Rightarrow> bool \<Rightarrow> va list \<Rightarrow> (u64 \<times> va list) option" where
  "va_num wide sign ap = (case ap of
      VNum v # ap \<Rightarrow> Some (if wide then v else if sign then scast (ucast v :: u32) else ucast (ucast v :: u32), ap)
    | _ \<Rightarrow> None)"

definition va_str :: "va list \<Rightarrow> (u8 list \<times> va list) option" where
  "va_str ap = (case ap of
      VStr (Some s) # ap \<Rightarrow> Some (s, ap)
    | VStr None # ap \<Rightarrow> Some (bytes ''(null)'', ap)
    | _ \<Rightarrow> None)"

text \<open>
  What one conversion prints. The kernel passes an \<^verbatim>\<open>int\<close> to \<^verbatim>\<open>consputc\<close>, so \<^verbatim>\<open>%c\<close> can print its \<^verbatim>\<open>BACKSPACE\<close>
  code, which is not a character.
\<close>

definition print_conv :: "u8 list \<Rightarrow> u8 \<Rightarrow> conv \<Rightarrow> va list \<Rightarrow> (cint list \<times> va list) option" where
  "print_conv digits c0 k ap = (case k of
      Num wide base sign \<Rightarrow> do {
        (x, ap) \<leftarrow> va_num wide sign ap;
        out \<leftarrow> printint digits x base sign;
        Some (map ucast out, ap) }
    | Ptr \<Rightarrow> do { (x, ap) \<leftarrow> va_num True False ap; Some (map ucast (printptr digits x), ap) }
    | Chr \<Rightarrow> do { (x, ap) \<leftarrow> va_num False False ap; Some ([ucast x], ap) }
    | Str \<Rightarrow> do { (s, ap) \<leftarrow> va_str ap; Some (map ucast s, ap) }
    | Percent \<Rightarrow> Some ([ucast (byte CHR ''%'')], ap)
    | Unknown \<Rightarrow> Some ([ucast (byte CHR ''%''), ucast c0], ap))"

text \<open>The character at an offset, with the NUL behind the end.\<close>

definition at :: "u8 list \<Rightarrow> nat \<Rightarrow> u8" where
  "at fmt i = (if i < length fmt then fmt ! i else 0)"

text \<open>The loop of the kernel's \<^verbatim>\<open>printf\<close>, with the table of digits as an argument.\<close>

function printf_loop :: "u8 list \<Rightarrow> u8 list \<Rightarrow> va list \<Rightarrow> cint list option" where
  "printf_loop digits [] ap = Some []"
| "printf_loop digits (cx # fmt) ap =
     (if cx \<noteq> byte CHR ''%'' then do { out \<leftarrow> printf_loop digits fmt ap; Some (ucast cx # out) }
      else if fmt = [] then Some []
      else do {
        let (k, more) = conv_of (at fmt 0) (at fmt 1) (if at fmt 1 \<noteq> 0 then at fmt 2 else 0);
        (out, ap) \<leftarrow> print_conv digits (at fmt 0) k ap;
        rest \<leftarrow> printf_loop digits (drop (Suc more) fmt) ap;
        Some (out @ rest) })"
  by pat_completeness auto
termination
  by (relation "measure (\<lambda>(digits, fmt, ap). length fmt)") auto

declare printf_loop.simps [simp del]

definition printf :: "u8 list \<Rightarrow> va list \<Rightarrow> cint list option" where
  "printf fmt ap = printf_loop kdigits fmt ap"

text \<open>
  The loop of the user library's \<^verbatim>\<open>vprintf\<close>, which keeps the percent sign in the variable \<^verbatim>\<open>state\<close>. \<^verbatim>\<open>putc\<close> writes one
  byte.
\<close>

function vprintf :: "bool \<Rightarrow> u8 list \<Rightarrow> va list \<Rightarrow> u8 list option" where
  "vprintf st [] ap = Some []"
| "vprintf st (c0 # fmt) ap =
     (if \<not> st then
        if c0 = byte CHR ''%'' then vprintf True fmt ap
        else do { out \<leftarrow> vprintf False fmt ap; Some (c0 # out) }
      else do {
        let c1 = at fmt 0;
        let c2 = (if c1 \<noteq> 0 then at fmt 1 else 0);
        let (k, more) = conv_of c0 c1 c2;
        (out, ap) \<leftarrow> print_conv udigits c0 k ap;
        rest \<leftarrow> vprintf False (drop more fmt) ap;
        Some (map ucast out @ rest) })"
  by pat_completeness auto
termination
  by (relation "measure (\<lambda>(st, fmt, ap). length fmt)") auto

declare vprintf.simps [simp del]

text \<open>One step of the loop, for evaluation on a concrete format.\<close>

lemma printf_step:
  "printf_loop digits [] ap = Some []"
  "cx \<noteq> 37 \<Longrightarrow> printf_loop digits (cx # fmt) ap = do { out \<leftarrow> printf_loop digits fmt ap; Some (ucast cx # out) }"
  "fmt \<noteq> [] \<Longrightarrow> conv_of (at fmt 0) (at fmt 1) (if at fmt 1 \<noteq> 0 then at fmt 2 else 0) = (k, more) \<Longrightarrow>
    printf_loop digits (37 # fmt) ap = do {
      (out, ap) \<leftarrow> print_conv digits (at fmt 0) k ap;
      rest \<leftarrow> printf_loop digits (drop (Suc more) fmt) ap;
      Some (out @ rest) }"
  by (simp_all add: printf_loop.simps)

subsection \<open>The digits of a number\<close>

text \<open>The reference: the digits of a number, the last one first, and the number they stand for.\<close>

function digits_rev :: "nat \<Rightarrow> nat \<Rightarrow> nat list" where
  "digits_rev b n = (if b < 2 \<or> n div b = 0 then [n mod b] else n mod b # digits_rev b (n div b))"
  by pat_completeness auto
termination
  by (relation "measure snd") (auto simp: div_eq_0_iff intro!: div_less_dividend)

declare digits_rev.simps [simp del]

fun of_digits :: "nat \<Rightarrow> nat list \<Rightarrow> nat" where
  "of_digits b [] = 0"
| "of_digits b (d # ds) = d + b * of_digits b ds"

lemma of_digits_rev: "2 \<le> b \<Longrightarrow> of_digits b (digits_rev b n) = n"
  by (induction b n rule: digits_rev.induct) (subst digits_rev.simps, auto simp: div_eq_0_iff)

lemma digits_rev_lt: "2 \<le> b \<Longrightarrow> \<forall>d \<in> set (digits_rev b n). d < b"
proof (induction b n rule: digits_rev.induct)
  case (1 b n)
  show ?case
  proof (cases "n div b = 0")
    case True
    then show ?thesis using 1(2) by (subst digits_rev.simps) simp
  next
    case False
    then show ?thesis using 1 by (subst digits_rev.simps) simp
  qed
qed

lemma digits_rev_ne [simp]: "digits_rev b n \<noteq> []"
  by (subst digits_rev.simps) auto

lemma digits_rev_last: "2 \<le> b \<Longrightarrow> n \<noteq> 0 \<Longrightarrow> List.last (digits_rev b n) \<noteq> 0"
  by (induction b n rule: digits_rev.induct) (subst digits_rev.simps, auto simp: div_eq_0_iff)

lemma digits_rev_length: "2 \<le> b \<Longrightarrow> n \<noteq> 0 \<Longrightarrow> b ^ (length (digits_rev b n) - 1) \<le> n"
proof (induction b n rule: digits_rev.induct)
  case (1 b n)
  show ?case
  proof (cases "n div b = 0")
    case True
    then show ?thesis using 1(3) by (subst digits_rev.simps) simp
  next
    case False
    let ?ds = "digits_rev b (n div b)"
    have "0 < length ?ds" by simp
    then have "b ^ length ?ds = b * b ^ (length ?ds - 1)" by (cases "length ?ds") auto
    also have "\<dots> \<le> b * (n div b)" using 1 False by (intro mult_le_mono2) simp
    also have "\<dots> \<le> n" by simp
    finally show ?thesis using 1(2) False by (subst digits_rev.simps) simp
  qed
qed

lemma digits_rev_short:
  assumes "2 \<le> b" "n < b ^ k" "k \<noteq> 0"
  shows "length (digits_rev b n) \<le> k"
proof (cases "n = 0")
  case True
  then show ?thesis using assms by (subst digits_rev.simps) simp
next
  case False
  have "b ^ (length (digits_rev b n) - 1) < b ^ k" using digits_rev_length [OF assms(1) False] assms(2) by linarith
  then have "length (digits_rev b n) - 1 < k" by (rule power_less_imp_less_exp [rotated]) (use assms(1) in simp)
  then show ?thesis by simp
qed

lemma put_digits_eq:
  assumes "2 \<le> unat base"
  shows "put_digits digits base x buf = Some (buf @ map ((!) digits) (digits_rev (unat base) (unat x)))"
proof (induction "unat x" arbitrary: x buf rule: less_induct)
  case less
  have d: "unat (x div base) = unat x div unat base" "unat (x mod base) = unat x mod unat base"
    by (simp_all add: unat_div_distrib unat_mod_distrib)
  show ?case
  proof (cases "x div base = 0")
    case True
    then have "unat x div unat base = 0" using d(1) by simp
    then show ?thesis using True by (subst put_digits.simps, subst digits_rev.simps) (simp add: Let_def d)
  next
    case False
    then have nz: "unat x div unat base \<noteq> 0" using d(1) by (metis unat_eq_zero)
    then have "unat x \<noteq> 0" by (intro notI) simp
    then have "unat (x div base) < unat x" unfolding d(1) using assms by (intro div_less_dividend) auto
    from less [OF this] show ?thesis using False nz assms
      by (subst put_digits.simps, subst digits_rev.simps) (simp add: Let_def d)
  qed
qed

text \<open>The number that \<^verbatim>\<open>printint\<close> is to print, as a sign and a magnitude.\<close>

definition magnitude :: "u64 \<Rightarrow> bool \<Rightarrow> nat" where
  "magnitude xx sign = (if sign then nat \<bar>sint xx\<bar> else unat xx)"

lemma magnitude_word: "unat (if sign \<and> xx <s 0 then - xx else xx) = magnitude (xx :: u64) sign"
proof -
  have u: "uint xx = sint xx mod 2 ^ 64" by (simp add: uint_sint take_bit_eq_mod)
  have r: "- (2 ^ 63) \<le> sint xx" "sint xx < 2 ^ 63" using sint_greater_eq [of xx] sint_less [of xx] by simp_all
  have le: "(2 :: int) ^ 63 < 2 ^ 64" by simp
  have "uint (- xx) = (- uint xx) mod 2 ^ 64" by (simp add: uint_word_ariths)
  then have n: "uint (- xx) = (- sint xx) mod 2 ^ 64" unfolding u by (simp only: mod_minus_eq)
  show ?thesis
  proof (cases "sign \<and> xx <s 0")
    case True
    then have "sint xx < 0" by (simp add: word_sless_alt)
    then have "(- sint xx) mod 2 ^ 64 = - sint xx" using r le by (intro mod_pos_pos_trivial) linarith+
    then have "nat (uint (- xx)) = nat \<bar>sint xx\<bar>" unfolding n using \<open>sint xx < 0\<close> by (simp only: abs_of_neg)
    then show ?thesis using True by (simp add: magnitude_def)
  next
    case False
    then have "\<not> sign \<or> 0 \<le> sint xx" by (simp add: word_sless_alt not_less)
    moreover have "nat (uint xx) = nat \<bar>sint xx\<bar>" if "0 \<le> sint xx"
    proof -
      have "sint xx mod 2 ^ 64 = sint xx" using r le that by (intro mod_pos_pos_trivial) linarith+
      then show ?thesis unfolding u using that by (simp only: abs_of_nonneg)
    qed
    ultimately have "unat xx = magnitude xx sign" unfolding magnitude_def nat_uint_eq by (cases sign) simp_all
    then show ?thesis using False by (simp only: if_False)
  qed
qed

lemma magnitude_bound: "magnitude xx True \<le> 2 ^ 63" "magnitude xx sign < 2 ^ 64"
proof -
  have r: "- (2 ^ 63) \<le> sint xx" "sint xx < 2 ^ 63" using sint_greater_eq [of xx] sint_less [of xx] by simp_all
  then show s: "magnitude xx True \<le> 2 ^ 63" by (simp add: magnitude_def)
  have lt: "(2 :: nat) ^ 63 < 2 ^ 64" by simp
  have "unat xx < 2 ^ 64" using unsigned_less [of xx] by simp
  then show "magnitude xx sign < 2 ^ 64" using le_less_trans [OF s lt] by (cases sign) (simp_all only: magnitude_def if_False)
qed

text \<open>
  C23. \<^verbatim>\<open>printint\<close> prints the decimal or hexadecimal form of every number, also of the smallest negative
  one: a minus sign exactly for negative signed numbers, then digits without a leading zero whose
  value is the magnitude of the number. The output, and so the buffer, never needs more
  than 20 bytes.
\<close>

theorem printint_correct:
  assumes "base \<in> {10, 16}" "base = 16 \<longrightarrow> \<not> sign"
  shows "\<exists>ds. printint digits xx base sign =
      Some ((if sign \<and> sint xx < 0 then [byte CHR ''-''] else []) @ map ((!) digits) (rev ds)) \<and>
    of_digits (unat base) ds = magnitude xx sign \<and> (\<forall>d \<in> set ds. d < unat base) \<and>
    (ds = [0] \<or> List.last ds \<noteq> 0) \<and> length ds + (if sign then 1 else 0) \<le> 20"
proof -
  let ?x = "if sign \<and> xx <s 0 then - xx else xx" and ?m = "magnitude xx sign"
  have b: "2 \<le> unat base" using assms(1) by auto
  define ds where "ds = digits_rev (unat base) ?m"
  have "printint digits xx base sign =
      Some ((if sign \<and> sint xx < 0 then [byte CHR ''-''] else []) @ map ((!) digits) (rev ds))"
    unfolding printint_def Let_def put_digits_eq [OF b] magnitude_word ds_def
    by (simp add: word_sless_alt rev_map)
  moreover have "of_digits (unat base) ds = ?m" "\<forall>d \<in> set ds. d < unat base"
    using of_digits_rev [OF b] digits_rev_lt [OF b] by (simp_all add: ds_def)
  moreover have "ds = [0] \<or> List.last ds \<noteq> 0"
  proof (cases "?m = 0")
    case True
    then show ?thesis unfolding ds_def by (subst digits_rev.simps) simp
  qed (use digits_rev_last [OF b] in \<open>simp add: ds_def\<close>)
  moreover have "length ds + (if sign then 1 else 0) \<le> 20"
  proof (cases sign)
    case True
    then have "unat base = 10" using assms by auto
    moreover have "(2 :: nat) ^ 63 < 10 ^ 19" by simp
    then have "?m < 10 ^ 19" using le_less_trans [OF magnitude_bound(1)] True by metis
    then have "length (digits_rev 10 ?m) \<le> 19" by (rule digits_rev_short [rotated]) simp_all
    ultimately have "length ds \<le> 19" by (simp only: ds_def)
    then show ?thesis using True by simp
  next
    case False
    have lt: "(2 :: nat) ^ 64 < 10 ^ 20" "(2 :: nat) ^ 64 < 16 ^ 20" by simp_all
    have "unat base = 10 \<or> unat base = 16" using assms(1) by auto
    then have "?m < unat base ^ 20" using less_trans [OF magnitude_bound(2) lt(1)] less_trans [OF magnitude_bound(2) lt(2)] by metis
    then have "length ds \<le> 20" unfolding ds_def by (rule digits_rev_short [OF b]) simp
    then show ?thesis using False by simp
  qed
  ultimately show ?thesis by blast
qed

theorem printint_correct_witness:
  "\<exists>ds. printint kdigits (- 120) 10 True = Some ([byte CHR ''-''] @ map ((!) kdigits) (rev ds)) \<and> of_digits 10 ds = 120"
proof -
  have s: "sint (- 120 :: u64) = - 120" by simp
  have "(10 :: u64) \<in> {10, 16}" "(10 :: u64) = 16 \<longrightarrow> \<not> True" by simp_all
  from printint_correct [OF this, of kdigits "- 120"] show ?thesis
    unfolding magnitude_def s by auto
qed

subsection \<open>The two implementations\<close>

lemma conv_of_c2: "conv_of c0 0 c2 = conv_of c0 0 0"
  by (simp add: conv_of_def)


end
