(* ===== verification/Ring_Buffer.thy ===== *)
theory Ring_Buffer
  imports Xv6_Prelude
begin

section \<open>Ring buffers and the bounded queue contract\<close>

text \<open>
  Three components of the kernel keep a circular buffer: the shared producer-consumer buffer
  (\<^verbatim>\<open>sysproc.c\<close>), pipes (\<^verbatim>\<open>pipe.c\<close>) and the console input (\<^verbatim>\<open>console.c\<close>). \<open>ring_view\<close> is the
  list that such a buffer holds; the locale \<open>bounded_fifo\<close> is the contract they share, with the
  first-in first-out property proved once from it.
\<close>

subsection \<open>The contents of a ring\<close>

text \<open>The \<open>n\<close> elements of a ring of size \<open>N\<close> with slots \<open>f\<close>, from position \<open>st\<close> on.\<close>

definition ring_view :: "nat \<Rightarrow> (nat \<Rightarrow> 'a) \<Rightarrow> nat \<Rightarrow> nat \<Rightarrow> 'a list" where
  "ring_view N f st n = map (\<lambda>k. f ((st + k) mod N)) [0 ..< n]"

lemma length_ring_view [simp]: "length (ring_view N f st n) = n"
  by (simp add: ring_view_def)

lemma ring_view_0 [simp]: "ring_view N f st 0 = []"
  by (simp add: ring_view_def)

lemma ring_view_mod [simp]: "ring_view N f (st mod N) n = ring_view N f st n"
  by (simp add: ring_view_def mod_simps)

lemma ring_view_cong:
  "(\<And>k. k < n \<Longrightarrow> f ((st + k) mod N) = g ((st' + k) mod N)) \<Longrightarrow>
    ring_view N f st n = ring_view N g st' n"
  by (simp add: ring_view_def)

lemma ring_slot_free:
  assumes "k < n" "n < (N::nat)"
  shows "(st + k) mod N \<noteq> (st + n) mod N"
proof
  assume "(st + k) mod N = (st + n) mod N"
  then have "N dvd (st + n) - (st + k)"
    using assms by (metis add_le_cancel_left less_imp_le_nat mod_eq_dvd_iff_nat)
  then have "N dvd n - k" by simp
  then show False using assms by (auto dest!: dvd_imp_le)
qed

text \<open>Writing the slot after the last element appends; dropping the first slot removes the head.\<close>

lemma ring_view_push:
  assumes "n < N"
  shows "ring_view N (f((st + n) mod N := x)) st (Suc n) = ring_view N f st n @ [x]"
proof -
  have "(st + k) mod N \<noteq> (st + n) mod N" if "k < n" for k
    using ring_slot_free [OF that assms] .
  then show ?thesis by (simp add: ring_view_def)
qed

lemma ring_view_pop:
  "ring_view N f st (Suc n) = f (st mod N) # ring_view N f (Suc st) n"
  by (simp add: ring_view_def map_upt_Suc del: upt_Suc)

text \<open>The same for a ring kept in a list.\<close>

lemma ring_view_list_push:
  assumes "n < N" "length xs = N"
  shows "ring_view N ((!) (xs[(st + n) mod N := x])) st (Suc n) = ring_view N ((!) xs) st n @ [x]"
proof -
  have N: "0 < N" using assms by simp
  have "ring_view N ((!) (xs[(st + n) mod N := x])) st (Suc n) =
      ring_view N (((!) xs)((st + n) mod N := x)) st (Suc n)"
    using assms N by (intro ring_view_cong) (simp add: nth_list_update)
  then show ?thesis using ring_view_push [OF assms(1)] by simp
qed

subsection \<open>The contract\<close>

datatype 'a fifo_op = Push 'a | Pop

text \<open>
  Running a sequence of operations: the final state, the elements accepted by the pushes that
  did not find the queue full, and the elements returned by the pops that did not find it empty.
\<close>

fun fifo_run :: "('a \<Rightarrow> 's \<Rightarrow> 's option) \<Rightarrow> ('s \<Rightarrow> ('a \<times> 's) option) \<Rightarrow> 'a fifo_op list \<Rightarrow> 's \<Rightarrow>
    's \<times> 'a list \<times> 'a list" where
  "fifo_run push pop [] s = (s, [], [])"
| "fifo_run push pop (Push x # ops) s =
     (case push x s of
        None \<Rightarrow> fifo_run push pop ops s
      | Some s' \<Rightarrow> (case fifo_run push pop ops s' of (t, ins, outs) \<Rightarrow> (t, x # ins, outs)))"
| "fifo_run push pop (Pop # ops) s =
     (case pop s of
        None \<Rightarrow> fifo_run push pop ops s
      | Some (y, s') \<Rightarrow> (case fifo_run push pop ops s' of (t, ins, outs) \<Rightarrow> (t, ins, y # outs)))"

locale bounded_fifo =
  fixes inv :: "'s \<Rightarrow> bool"
    and view :: "'s \<Rightarrow> 'a list"
    and cap :: nat
    and push :: "'a \<Rightarrow> 's \<Rightarrow> 's option"
    and pop :: "'s \<Rightarrow> ('a \<times> 's) option"
  assumes view_bound: "inv s \<Longrightarrow> length (view s) \<le> cap"
    and push_room: "inv s \<Longrightarrow> length (view s) < cap \<Longrightarrow>
      \<exists>s'. push x s = Some s' \<and> inv s' \<and> view s' = view s @ [x]"
    and push_full: "inv s \<Longrightarrow> length (view s) = cap \<Longrightarrow> push x s = None"
    and pop_cons: "inv s \<Longrightarrow> view s = y # ys \<Longrightarrow> \<exists>s'. pop s = Some (y, s') \<and> inv s' \<and> view s' = ys"
    and pop_nil: "inv s \<Longrightarrow> view s = [] \<Longrightarrow> pop s = None"
begin

lemma push_cases:
  assumes "inv s"
  obtains (full) "push x s = None" "length (view s) = cap"
  | (ok) s' where "push x s = Some s'" "inv s'" "view s' = view s @ [x]"
proof (cases "length (view s) = cap")
  case True
  then show thesis by (intro full push_full [OF assms])
next
  case False
  then have "length (view s) < cap" using view_bound [OF assms] by simp
  then show thesis using ok push_room [OF assms] by blast
qed

lemma pop_cases:
  assumes "inv s"
  obtains (empty) "pop s = None" "view s = []"
  | (ok) y s' where "pop s = Some (y, s')" "inv s'" "view s = y # view s'"
proof (cases "view s")
  case Nil
  then show thesis by (intro empty pop_nil [OF assms])
next
  case (Cons y ys)
  then show thesis using ok pop_cons [OF assms Cons] by blast
qed

text \<open>
  First in, first out, nothing lost, nothing duplicated: what was in the queue followed by what
  was accepted is what came out followed by what is still there.
\<close>

lemma run_fifo:
  "inv s \<Longrightarrow> fifo_run push pop ops s = (t, ins, outs) \<Longrightarrow> inv t \<and> view s @ ins = outs @ view t"
proof (induction ops arbitrary: s t ins outs)
  case Nil
  then show ?case by simp
next
  case (Cons op ops)
  show ?case
  proof (cases op)
    case (Push x)
    from Cons.prems(1) show ?thesis
    proof (cases rule: push_cases [where x = x])
      case full
      with Cons Push show ?thesis by simp
    next
      case (ok s')
      with Cons.prems(2) Push obtain ins' where
        "fifo_run push pop ops s' = (t, ins', outs)" "ins = x # ins'"
        by (auto split: prod.splits)
      with Cons.IH [OF ok(2)] ok(3) show ?thesis by auto
    qed
  next
    case Pop
    from Cons.prems(1) show ?thesis
    proof (cases rule: pop_cases)
      case empty
      with Cons.prems Pop have "fifo_run push pop ops s = (t, ins, outs)" by simp
      from Cons.IH [OF Cons.prems(1) this] show ?thesis .
    next
      case (ok y s')
      with Cons.prems(2) Pop obtain outs' where
        "fifo_run push pop ops s' = (t, ins, outs')" "outs = y # outs'"
        by (auto split: prod.splits)
      with Cons.IH [OF ok(2)] ok(3) show ?thesis by auto
    qed
  qed
qed

end

end
