(* ===== verification/Console.thy ===== *)
theory Console
  imports Fs Printf Ring_Buffer
begin

section \<open>The console\<close>

text \<open>
  \<^verbatim>\<open>kernel/console.c\<close>, \<^verbatim>\<open>uart.c\<close> and the output side of \<^verbatim>\<open>printf.c\<close>. The UART is seen through its registers:
  \<open>thr\<close> is the sequence of bytes written to the transmit register, \<open>rx\<close> the received bytes that wait to be read, and
  \<open>tx_idle\<close> the bit of the line status register that says that the transmitter is idle. The lemmas
  show that the interrupt handler implements line editing: the three indices into the circular buffer
  split it into the input ready for readers and the line being typed.
\<close>

subsection \<open>State\<close>

abbreviation INPUT_BUF_SIZE :: nat where "INPUT_BUF_SIZE \<equiv> 128"
abbreviation BACKSPACE :: cint where "BACKSPACE \<equiv> 0x100"

text \<open>\<^verbatim>\<open>C('D')\<close> and the other control characters.\<close>

definition ctl :: "char \<Rightarrow> 'a::len word" where
  "ctl c = of_char c - of_char CHR ''@''"

text \<open>The functions that \<^verbatim>\<open>devsw\<close> points to.\<close>

datatype devfn = Consoleread | Consolewrite

record devsw_entry =
  dev_read :: "devfn option"
  dev_write :: "devfn option"

record kcons = kfs +
  panicked :: bool
  tx_busy :: bool
  tx_idle :: bool
  rx :: "u8 list"
  thr :: "u8 list"
  cons_buf :: "u8 list"
  cons_r :: u32
  cons_w :: u32
  cons_e :: u32
  devsw :: "devsw_entry list"

text \<open>
  A call that may have to wait: the value it returns, or the channel it sleeps on with the local variables it
  continues with.
\<close>

datatype 'l blocking = Done cint | Blocked chan 'l

subsection \<open>The UART\<close>

abbreviation IER :: nat where "IER \<equiv> 1"
abbreviation FCR :: nat where "FCR \<equiv> 2"
abbreviation LCR :: nat where "LCR \<equiv> 3"

text \<open>The register writes of \<^verbatim>\<open>uartinit\<close>, in order.\<close>

definition uartinit :: "(nat \<times> u8) list" where
  "uartinit = [(IER, 0), (LCR, push_bit 7 1), (0, 3), (1, 0), (LCR, 3), (FCR, 1 OR push_bit 1 3), (IER, push_bit 1 1 OR 1)]"

text \<open>\<^verbatim>\<open>uartwrite\<close>: the bytes that remain when the transmitter is busy and the caller sleeps on \<^verbatim>\<open>tx_chan\<close>.\<close>

fun uartwrite :: "u8 list \<Rightarrow> 'a kcons_scheme \<Rightarrow> u8 list \<times> 'a kcons_scheme" where
  "uartwrite [] s = ([], s)"
| "uartwrite (b # bs) s =
     (if tx_busy s then (b # bs, s) else uartwrite bs (s\<lparr>thr := thr s @ [b], tx_busy := True\<rparr>))"

text \<open>\<^verbatim>\<open>uartputc_sync\<close> waits until the transmitter is idle, and for ever after a panic.\<close>

definition uartputc_sync :: "cint \<Rightarrow> 'a kcons_scheme \<Rightarrow> 'a kcons_scheme option" where
  "uartputc_sync c s = (if panicked s then panic ''frozen'' else Some (s\<lparr>thr := thr s @ [ucast c]\<rparr>))"

definition uartgetc :: "'a kcons_scheme \<Rightarrow> cint \<times> 'a kcons_scheme" where
  "uartgetc s = (case rx s of [] \<Rightarrow> (- 1, s) | c # cs \<Rightarrow> (ucast c, s\<lparr>rx := cs\<rparr>))"

subsection \<open>Output\<close>

definition consputc :: "cint \<Rightarrow> 'a kcons_scheme \<Rightarrow> 'a kcons_scheme option" where
  "consputc c s =
     (if c = BACKSPACE then do {
        s \<leftarrow> uartputc_sync 8 s;
        s \<leftarrow> uartputc_sync (of_char CHR '' '') s;
        uartputc_sync 8 s }
      else uartputc_sync c s)"

fun consputs :: "cint list \<Rightarrow> 'a kcons_scheme \<Rightarrow> 'a kcons_scheme option" where
  "consputs [] s = Some s"
| "consputs (c # cs) s = do { s \<leftarrow> consputc c s; consputs cs s }"

text \<open>\<^verbatim>\<open>printf\<close> on the console.\<close>

definition kprintf :: "u8 list \<Rightarrow> va list \<Rightarrow> 'a kcons_scheme \<Rightarrow> 'a kcons_scheme option" where
  "kprintf fmt ap s = do { out \<leftarrow> printf fmt ap; consputs out s }"

definition c_str :: "u8 list \<Rightarrow> u8 list" where
  "c_str bs = takeWhile (\<lambda>c. c \<noteq> 0) bs"

primrec state_name :: "procstate \<Rightarrow> u8 list" where
  "state_name UNUSED = bytes ''unused''"
| "state_name USED = bytes ''used''"
| "state_name SLEEPING = bytes ''sleep ''"
| "state_name RUNNABLE = bytes ''runble''"
| "state_name RUNNING = bytes ''run   ''"
| "state_name ZOMBIE = bytes ''zombie''"

fun procdump_loop :: "proc list \<Rightarrow> 'a kcons_scheme \<Rightarrow> 'a kcons_scheme option" where
  "procdump_loop [] s = Some s"
| "procdump_loop (p # ps) s =
     (if state p = UNUSED then procdump_loop ps s
      else do {
        s \<leftarrow> kprintf (bytes ''%d %s %s'')
              [VNum (ucast (pid p)), VStr (Some (state_name (state p))), VStr (Some (c_str (name p)))] s;
        s \<leftarrow> kprintf [10] [] s;
        procdump_loop ps s })"

definition procdump :: "'a kcons_scheme \<Rightarrow> 'a kcons_scheme option" where
  "procdump s = do { s \<leftarrow> kprintf [10] [] s; procdump_loop (procs s) s }"

text \<open>
  \<^verbatim>\<open>consolewrite\<close> with \<open>left\<close> bytes to go and \<open>cnt\<close> bytes done. When \<^verbatim>\<open>uartwrite\<close> sleeps, the bytes that remain in the buffer
  on the stack are part of what it continues with.
\<close>

type_synonym cwrite_locals = "u8 list \<times> src \<times> nat \<times> nat"

function consolewrite_loop ::
  "src \<Rightarrow> nat \<Rightarrow> nat \<Rightarrow> 'a kcons_scheme \<Rightarrow> (cwrite_locals blocking \<times> 'a kcons_scheme) option" where
  "consolewrite_loop src left cnt s =
     (if left = 0 then Some (Done (of_nat cnt), s)
      else do {
        let nn = min 32 left;
        (r, buf, s) \<leftarrow> either_copyin src nn s;
        if r = - 1 then Some (Done (of_nat cnt), s)
        else case uartwrite buf s of
               ([], s) \<Rightarrow> consolewrite_loop (src_add src nn) (left - nn) (cnt + nn) s
             | (rest, s) \<Rightarrow> Some (Blocked ChTx (rest, src_add src nn, left - nn, cnt + nn), s) })"
  by pat_completeness auto
termination
  by (relation "measure (\<lambda>(src, left, cnt, s). left)") auto

declare consolewrite_loop.simps [simp del]

definition consolewrite :: "src \<Rightarrow> cint \<Rightarrow> 'a kcons_scheme \<Rightarrow> (cwrite_locals blocking \<times> 'a kcons_scheme) option" where
  "consolewrite src n s = consolewrite_loop src (nat (sint n)) 0 s"

definition consolewrite_resume ::
  "cwrite_locals \<Rightarrow> 'a kcons_scheme \<Rightarrow> (cwrite_locals blocking \<times> 'a kcons_scheme) option" where
  "consolewrite_resume l s = (case l of (buf, src, left, cnt) \<Rightarrow>
     (case uartwrite buf s of
        ([], s) \<Rightarrow> consolewrite_loop src left cnt s
      | (rest, s) \<Rightarrow> Some (Blocked ChTx (rest, src, left, cnt), s)))"

subsection \<open>Input\<close>

text \<open>
  \<^verbatim>\<open>consoleread\<close> with \<open>n\<close> bytes to go and \<open>cnt = target - n\<close> bytes read, so \<^verbatim>\<open>n < target\<close> is \<open>0 < cnt\<close>.
\<close>

type_synonym cread_locals = "dst \<times> nat \<times> nat"

fun consoleread_loop ::
  "dst \<Rightarrow> nat \<Rightarrow> nat \<Rightarrow> 'a kcons_scheme \<Rightarrow> (cread_locals blocking \<times> u8 list \<times> 'a kcons_scheme) option" where
  "consoleread_loop d 0 cnt s = Some (Done (of_nat cnt), [], s)"
| "consoleread_loop d (Suc n) cnt s =
     (if cons_r s = cons_w s then
        (case myproc s of None \<Rightarrow> panic ''kerneltrap''
         | Some p \<Rightarrow> if is_killed p s \<noteq> 0 then Some (Done (- 1), [], s)
                     else Some (Blocked ChCons (d, Suc n, cnt), [], s))
      else
        let c = cons_buf s ! unat (cons_r s mod of_nat INPUT_BUF_SIZE);
            s = s\<lparr>cons_r := cons_r s + 1\<rparr>
        in if c = ctl CHR ''D'' then
             Some (Done (of_nat cnt), [], if 0 < cnt then s\<lparr>cons_r := cons_r s - 1\<rparr> else s)
           else do {
             (r, s) \<leftarrow> either_copyout d [c] s;
             if r = - 1 then Some (Done (of_nat cnt), [], s)
             else if c = 10 then Some (Done (of_nat (Suc cnt)), [c], s)
             else do {
               (res, bs, s) \<leftarrow> consoleread_loop (dst_add d 1) n (Suc cnt) s;
               Some (res, c # bs, s) } })"

definition consoleread ::
  "dst \<Rightarrow> cint \<Rightarrow> 'a kcons_scheme \<Rightarrow> (cread_locals blocking \<times> u8 list \<times> 'a kcons_scheme) option" where
  "consoleread d n s = consoleread_loop d (nat (sint n)) 0 s"

definition consoleread_resume ::
  "cread_locals \<Rightarrow> 'a kcons_scheme \<Rightarrow> (cread_locals blocking \<times> u8 list \<times> 'a kcons_scheme) option" where
  "consoleread_resume l s = (case l of (d, n, cnt) \<Rightarrow> consoleread_loop d n cnt s)"

text \<open>The loop of \<^verbatim>\<open>consoleintr\<close> that kills a line.\<close>

function kill_line :: "'a kcons_scheme \<Rightarrow> 'a kcons_scheme option" where
  "kill_line s =
     (if cons_e s \<noteq> cons_w s \<and> cons_buf s ! unat ((cons_e s - 1) mod of_nat INPUT_BUF_SIZE) \<noteq> 10 then do {
        s \<leftarrow> consputc BACKSPACE (s\<lparr>cons_e := cons_e s - 1\<rparr>);
        kill_line s }
      else Some s)"
  by pat_completeness auto

lemma consputc_cons:
  assumes "consputc c s = Some s'"
  shows "cons_buf s' = cons_buf s" "cons_r s' = cons_r s" "cons_w s' = cons_w s" "cons_e s' = cons_e s"
    "devsw s' = devsw s" "panicked s' = panicked s" "rx s' = rx s"
  using assms by (auto simp: consputc_def uartputc_sync_def split: if_splits)

lemma unat_dec: "(x :: u32) \<noteq> 0 \<Longrightarrow> Suc (unat (x - 1)) = unat x"
  using unat_sub_small [of 1 x] by (simp add: unat_gt_0 Suc_le_eq)

termination kill_line
proof (relation "measure (\<lambda>s. unat (cons_e s - cons_w s))")
  fix s x :: "'a kcons_scheme"
  assume "cons_e s \<noteq> cons_w s \<and> cons_buf s ! unat ((cons_e s - 1) mod of_nat INPUT_BUF_SIZE) \<noteq> 10"
    and c: "consputc BACKSPACE (s\<lparr>cons_e := cons_e s - 1\<rparr>) = Some x"
  then have "cons_e s - cons_w s \<noteq> 0" by simp
  moreover have "cons_e x - cons_w x = cons_e s - cons_w s - 1" using consputc_cons [OF c] by (simp add: algebra_simps)
  ultimately show "(x, s) \<in> measure (\<lambda>s. unat (cons_e s - cons_w s))"
    using unat_dec [of "cons_e s - cons_w s"] by simp
qed simp

declare kill_line.simps [simp del]

definition consoleintr :: "cint \<Rightarrow> 'a kcons_scheme \<Rightarrow> 'a kcons_scheme option" where
  "consoleintr c s =
     (if c = ctl CHR ''P'' then procdump s
      else if c = ctl CHR ''U'' then kill_line s
      else if c = ctl CHR ''H'' \<or> c = 0x7f then
        if cons_e s \<noteq> cons_w s then consputc BACKSPACE (s\<lparr>cons_e := cons_e s - 1\<rparr>) else Some s
      else if c \<noteq> 0 \<and> cons_e s - cons_r s < of_nat INPUT_BUF_SIZE then do {
        let c = (if c = 13 then 10 else c);
        s \<leftarrow> consputc c s;
        let s = s\<lparr>cons_buf := (cons_buf s)[unat (cons_e s mod of_nat INPUT_BUF_SIZE) := ucast c], cons_e := cons_e s + 1\<rparr>;
        if c = 10 \<or> c = ctl CHR ''D'' \<or> cons_e s - cons_r s = of_nat INPUT_BUF_SIZE
        then Some (wakeup ChCons (s\<lparr>cons_w := cons_e s\<rparr>))
        else Some s }
      else Some s)"

definition consoleinit :: "'a kcons_scheme \<Rightarrow> 'a kcons_scheme" where
  "consoleinit s = s\<lparr>devsw := (devsw s)[1 := \<lparr>dev_read = Some Consoleread, dev_write = Some Consolewrite\<rparr>]\<rparr>"

text \<open>The loop of \<^verbatim>\<open>uartintr\<close> takes the received bytes one by one.\<close>

fun rx_loop :: "u8 list \<Rightarrow> 'a kcons_scheme \<Rightarrow> 'a kcons_scheme option" where
  "rx_loop [] s = Some s"
| "rx_loop (c # cs) s = do { s \<leftarrow> consoleintr (ucast c) (s\<lparr>rx := cs\<rparr>); rx_loop cs s }"

definition uartintr :: "'a kcons_scheme \<Rightarrow> 'a kcons_scheme option" where
  "uartintr s =
     (let s = (if tx_idle s then wakeup ChTx (s\<lparr>tx_busy := False\<rparr>) else s) in rx_loop (rx s) s)"

subsection \<open>Line editing\<close>

text \<open>
  The contents of the circular buffer from the read index to the edit index. The write index splits them
  into the input for readers and the line that can still be edited.
\<close>

definition cons_all :: "'a kcons_scheme \<Rightarrow> u8 list" where
  "cons_all s = ring_view INPUT_BUF_SIZE ((!) (cons_buf s)) (unat (cons_r s)) (unat (cons_e s - cons_r s))"

definition cons_abs :: "'a kcons_scheme \<Rightarrow> u8 list \<times> u8 list" where
  "cons_abs s = (take (unat (cons_w s - cons_r s)) (cons_all s), drop (unat (cons_w s - cons_r s)) (cons_all s))"

definition cons_ok :: "'a kcons_scheme \<Rightarrow> bool" where
  "cons_ok s \<longleftrightarrow> length (cons_buf s) = INPUT_BUF_SIZE \<and> unat (cons_w s - cons_r s) \<le> unat (cons_e s - cons_r s) \<and>
     unat (cons_e s - cons_r s) \<le> INPUT_BUF_SIZE \<and> 10 \<notin> set (snd (cons_abs s))"

text \<open>The reference: what typing a character does to the input and the line.\<close>

definition edit :: "u8 \<Rightarrow> u8 list \<times> u8 list \<Rightarrow> u8 list \<times> u8 list" where
  "edit c st = (case st of (p, l) \<Rightarrow>
     if c = ctl CHR ''P'' then (p, l)
     else if c = ctl CHR ''U'' then (p, [])
     else if c = ctl CHR ''H'' \<or> c = 0x7f then (p, butlast l)
     else if c = 0 \<or> length p + length l \<ge> INPUT_BUF_SIZE then (p, l)
     else
       let c = (if c = 13 then 10 else c); l = l @ [c] in
       if c = 10 \<or> c = ctl CHR ''D'' \<or> length p + length l = INPUT_BUF_SIZE then (p @ l, []) else (p, l))"

lemma cons_same:
  assumes "cons_buf s' = cons_buf s" "cons_r s' = cons_r s" "cons_w s' = cons_w s" "cons_e s' = cons_e s"
  shows "cons_abs s' = cons_abs s" "cons_ok s' = cons_ok s"
  unfolding cons_ok_def cons_abs_def cons_all_def assms by (rule refl)+

lemma wakeup_cons [simp]:
  "cons_buf (wakeup ch s) = cons_buf s" "cons_r (wakeup ch s) = cons_r s" "cons_w (wakeup ch s) = cons_w s"
  "cons_e (wakeup ch s) = cons_e s" "panicked (wakeup ch s) = panicked s" "rx (wakeup ch s) = rx s" "thr (wakeup ch s) = thr s"
  by (simp_all add: wakeup_def)

lemma consputc_total: "\<not> panicked s \<Longrightarrow> \<exists>s'. consputc c s = Some s'"
  by (simp add: consputc_def uartputc_sync_def)

lemma consputs_total: "\<not> panicked s \<Longrightarrow> \<exists>s'. consputs cs s = Some s'"
proof (induction cs arbitrary: s)
  case (Cons c cs)
  obtain t where t: "consputc c s = Some t" using consputc_total [OF Cons.prems] by blast
  then have "\<not> panicked t" using consputc_cons [OF t] Cons.prems by simp
  from Cons.IH [OF this] show ?case by (simp add: t)
qed simp

lemma consputs_cons:
  "consputs cs s = Some s' \<Longrightarrow> cons_buf s' = cons_buf s \<and> cons_r s' = cons_r s \<and> cons_w s' = cons_w s \<and>
    cons_e s' = cons_e s \<and> panicked s' = panicked s \<and> rx s' = rx s"
proof (induction cs arbitrary: s)
  case (Cons c cs)
  then obtain t where t: "consputc c s = Some t" "consputs cs t = Some s'" by (auto simp: bind_Some_iff)
  then show ?case using Cons.IH [OF t(2)] consputc_cons [OF t(1)] by simp
qed simp

lemma printint_total: "\<exists>out. printint digits x 10 sign = Some out"
  by (simp add: printint_def Let_def put_digits_eq)

lemma procdump_format: "\<exists>out. printf (bytes ''%d %s %s'') [VNum x, VStr (Some a), VStr (Some b)] = Some out"
proof -
  obtain out where p: "printint kdigits (scast (ucast x :: u32)) 10 True = Some out" using printint_total by blast
  have f: "bytes ''%d %s %s'' = [37, 100, 32, 37, 115, 32, 37, 115]" by simp
  have c: "conv_of 100 32 37 = (Num False 10 True, 0)" "conv_of 115 32 37 = (Str, 0)" "conv_of 115 0 0 = (Str, 0)"
    by (simp_all add: conv_of_def)
  show ?thesis unfolding printf_def f by (simp add: printf_step at_def c print_conv_def va_num_def va_str_def p)
qed

lemma kprintf_total:
  assumes "\<not> panicked s" "printf fmt ap = Some out"
  shows "\<exists>s'. kprintf fmt ap s = Some s' \<and> cons_abs s' = cons_abs s \<and> cons_ok s' = cons_ok s \<and> \<not> panicked s'"
proof -
  obtain s' where s: "consputs out s = Some s'" using consputs_total [OF assms(1)] by blast
  then show ?thesis using consputs_cons [OF s] cons_same [of s' s] assms by (simp add: kprintf_def)
qed

lemma printf_newline: "printf [10] [] = Some [10]"
  by (simp add: printf_def printf_step)

lemma procdump_total:
  assumes "\<not> panicked s"
  shows "\<exists>s'. procdump s = Some s' \<and> cons_abs s' = cons_abs s \<and> cons_ok s' = cons_ok s \<and> \<not> panicked s'"
proof -
  have L: "\<exists>s'. procdump_loop ps s = Some s' \<and> cons_abs s' = cons_abs s \<and> cons_ok s' = cons_ok s \<and> \<not> panicked s'"
    if "\<not> panicked s" for ps and s :: "'a kcons_scheme"
    using that
  proof (induction ps arbitrary: s)
    case (Cons p ps)
    show ?case
    proof (cases "state p = UNUSED")
      case False
      obtain out where o: "printf (bytes ''%d %s %s'')
          [VNum (ucast (pid p)), VStr (Some (state_name (state p))), VStr (Some (c_str (name p)))] = Some out"
        using procdump_format by blast
      obtain s1 where s1: "kprintf (bytes ''%d %s %s'')
          [VNum (ucast (pid p)), VStr (Some (state_name (state p))), VStr (Some (c_str (name p)))] s = Some s1"
        "cons_abs s1 = cons_abs s" "cons_ok s1 = cons_ok s" "\<not> panicked s1"
        using kprintf_total [OF Cons.prems o] by blast
      obtain s2 where s2: "kprintf [10] [] s1 = Some s2" "cons_abs s2 = cons_abs s1" "cons_ok s2 = cons_ok s1" "\<not> panicked s2"
        using kprintf_total [OF s1(4) printf_newline] by blast
      from Cons.IH [OF s2(4)] False show ?thesis using s1 s2 by simp
    qed (use Cons in simp)
  qed simp
  obtain s2 where s2: "kprintf [10] [] s = Some s2" "cons_abs s2 = cons_abs s" "cons_ok s2 = cons_ok s" "\<not> panicked s2"
    using kprintf_total [OF assms printf_newline] by blast
  obtain s3 where "procdump_loop (procs s2) s2 = Some s3" "cons_abs s3 = cons_abs s2" "cons_ok s3 = cons_ok s2" "\<not> panicked s3"
    using L [OF s2(4)] by blast
  then show ?thesis using s2 by (simp add: procdump_def)
qed

lemma ring_pos: "unat (a + b :: u32) mod 128 = (unat a + unat b) mod 128"
proof -
  have "(128 :: nat) dvd 2 ^ 32" by simp
  then show ?thesis unfolding unat_word_ariths by (simp add: mod_mod_cancel)
qed

lemma unat_mod_128: "unat (a mod of_nat INPUT_BUF_SIZE :: u32) = unat a mod 128"
  by (simp add: unat_mod)

lemma cons_e_pos: "unat (cons_e s mod of_nat INPUT_BUF_SIZE) = (unat (cons_r s) + unat (cons_e s - cons_r s)) mod 128"
  using ring_pos [of "cons_r s" "cons_e s - cons_r s"] by (simp only: unat_mod_128 add_diff_eq add_diff_cancel_left')

lemma length_cons_all [simp]: "length (cons_all s) = unat (cons_e s - cons_r s)"
  by (simp add: cons_all_def)

lemma cons_okD:
  assumes "cons_ok s"
  shows "length (cons_buf s) = INPUT_BUF_SIZE" "unat (cons_w s - cons_r s) \<le> length (cons_all s)" "length (cons_all s) \<le> 128"
    "cons_all s = fst (cons_abs s) @ snd (cons_abs s)" "length (fst (cons_abs s)) = unat (cons_w s - cons_r s)"
  using assms by (simp_all add: cons_ok_def cons_abs_def)

lemma line_empty: "cons_ok s \<Longrightarrow> snd (cons_abs s) = [] \<longleftrightarrow> cons_e s = cons_w s"
proof
  assume o: "cons_ok s" and l: "snd (cons_abs s) = []"
  then have "unat (cons_w s - cons_r s) = unat (cons_e s - cons_r s)" by (simp add: cons_abs_def cons_ok_def)
  then have "cons_w s - cons_r s = cons_e s - cons_r s" by (rule unsigned_word_eqI)
  then show "cons_e s = cons_w s" by simp
qed (simp add: cons_abs_def)

text \<open>Storing a character, and taking the last one back.\<close>

lemma cons_push:
  assumes o: "cons_ok s" and n: "length (cons_all s) < 128"
    and s': "cons_buf s' = (cons_buf s)[unat (cons_e s mod of_nat INPUT_BUF_SIZE) := c]" "cons_e s' = cons_e s + 1"
      "cons_r s' = cons_r s"
  shows "cons_all s' = cons_all s @ [c]" "unat (cons_e s' - cons_r s') = Suc (unat (cons_e s - cons_r s))"
    "length (cons_buf s') = INPUT_BUF_SIZE"
proof -
  let ?n = "unat (cons_e s - cons_r s)"
  have "cons_e s' - cons_r s' = (cons_e s - cons_r s) + 1" by (simp add: s')
  then show u: "unat (cons_e s' - cons_r s') = Suc ?n" using n unat_add_small [of "cons_e s - cons_r s" 1] by simp
  have "ring_view 128 ((!) ((cons_buf s)[(unat (cons_r s) + ?n) mod 128 := c])) (unat (cons_r s)) (Suc ?n) =
      ring_view 128 ((!) (cons_buf s)) (unat (cons_r s)) ?n @ [c]"
    by (rule ring_view_list_push) (use n cons_okD(1) [OF o] in simp_all)
  then show "cons_all s' = cons_all s @ [c]" unfolding cons_all_def u unfolding s' cons_e_pos .
  show "length (cons_buf s') = INPUT_BUF_SIZE" using cons_okD(1) [OF o] s'(1) by simp
qed

lemma ring_view_take: "m \<le> n \<Longrightarrow> take m (ring_view N f st n) = ring_view N f st m"
  by (simp add: ring_view_def take_map min_def)

lemma cons_pop_last:
  assumes o: "cons_ok s" and ne: "cons_e s \<noteq> cons_w s"
    and s': "cons_buf s' = cons_buf s" "cons_e s' = cons_e s - 1" "cons_r s' = cons_r s" "cons_w s' = cons_w s"
  shows "cons_ok s'" "cons_abs s' = (fst (cons_abs s), butlast (snd (cons_abs s)))"
    "cons_buf s ! unat ((cons_e s - 1) mod of_nat INPUT_BUF_SIZE) = List.last (snd (cons_abs s))"
proof -
  let ?n = "unat (cons_e s - cons_r s)" and ?m = "unat (cons_w s - cons_r s)"
  have "?m \<noteq> ?n"
  proof
    assume "?m = ?n"
    then have "cons_w s - cons_r s = cons_e s - cons_r s" by (rule unsigned_word_eqI)
    then show False using ne by simp
  qed
  then have lt: "?m < ?n" using cons_okD(2) [OF o] by simp
  then have nz: "cons_e s - cons_r s \<noteq> 0" by auto
  have d: "cons_e s' - cons_r s' = (cons_e s - cons_r s) - 1" by (simp add: s')
  have u: "unat (cons_e s' - cons_r s') = ?n - 1" using unat_dec [OF nz] by (simp add: d)
  have a: "cons_all s' = butlast (cons_all s)"
    unfolding cons_all_def u unfolding s' butlast_conv_take length_ring_view by (simp add: ring_view_take)
  have ab: "cons_abs s' = (fst (cons_abs s), butlast (snd (cons_abs s)))"
    using lt by (simp add: cons_abs_def a s' butlast_conv_take take_drop)
  then show "cons_abs s' = (fst (cons_abs s), butlast (snd (cons_abs s)))" .
  have "10 \<notin> set (butlast (snd (cons_abs s)))" using o by (auto simp: cons_ok_def dest: in_set_butlastD)
  moreover have "unat (cons_w s' - cons_r s') < ?n" using lt by (simp add: s')
  ultimately show "cons_ok s'" using o by (auto simp: cons_ok_def ab u s'(1))
  have pos: "unat ((cons_e s - 1) mod of_nat INPUT_BUF_SIZE) = (unat (cons_r s) + (?n - 1)) mod 128"
    using cons_e_pos [of s', unfolded u] by (simp only: s')
  have "List.last (snd (cons_abs s)) = cons_all s ! (?n - 1)"
    using lt by (simp add: cons_abs_def last_drop last_conv_nth flip: length_0_conv)
  also have "\<dots> = cons_buf s ! ((unat (cons_r s) + (?n - 1)) mod 128)" using lt by (simp add: cons_all_def ring_view_def)
  finally show "cons_buf s ! unat ((cons_e s - 1) mod of_nat INPUT_BUF_SIZE) = List.last (snd (cons_abs s))" by (simp only: pos)
qed

lemma kill_line_abs:
  assumes "cons_ok s" "\<not> panicked s"
  shows "\<exists>s'. kill_line s = Some s' \<and> cons_ok s' \<and> cons_abs s' = (fst (cons_abs s), []) \<and> \<not> panicked s'"
  using assms
proof (induction "length (snd (cons_abs s))" arbitrary: s rule: less_induct)
  case less
  show ?case
  proof (cases "cons_e s = cons_w s")
    case True
    then have "cons_abs s = (fst (cons_abs s), [])" using line_empty [OF less.prems(1)] by (metis prod.collapse)
    then show ?thesis using True less.prems by (subst kill_line.simps) simp
  next
    case False
    have ne: "snd (cons_abs s) \<noteq> []" using line_empty [OF less.prems(1)] False by simp
    obtain t where t: "consputc BACKSPACE (s\<lparr>cons_e := cons_e s - 1\<rparr>) = Some t"
      using consputc_total [of "s\<lparr>cons_e := cons_e s - 1\<rparr>"] less.prems(2) by auto
    note C = consputc_cons [OF t]
    have pt: "cons_buf t = cons_buf s" "cons_e t = cons_e s - 1" "cons_r t = cons_r s" "cons_w t = cons_w s" using C by simp_all
    note P = cons_pop_last [OF less.prems(1) False pt]
    have "List.last (snd (cons_abs s)) \<noteq> 10" using less.prems(1) ne last_in_set by (metis cons_ok_def)
    then have k: "kill_line s = kill_line t" using False P(3) t by (subst kill_line.simps) simp
    have "length (snd (cons_abs t)) < length (snd (cons_abs s))" using ne P(2) by simp
    from less.hyps [OF this P(1)] C(6) less.prems(2) show ?thesis by (simp add: k P(2))
  qed
qed

lemma ctl_vals:
  "ctl CHR ''P'' = (16 :: cint)" "ctl CHR ''U'' = (21 :: cint)" "ctl CHR ''H'' = (8 :: cint)" "ctl CHR ''D'' = (4 :: cint)"
  "ctl CHR ''P'' = (16 :: u8)" "ctl CHR ''U'' = (21 :: u8)" "ctl CHR ''H'' = (8 :: u8)" "ctl CHR ''D'' = (4 :: u8)"
  by (simp_all add: ctl_def)

lemma byte_inj: "(ucast c :: cint) = ucast d \<longleftrightarrow> c = d" for c d :: u8
proof
  assume "(ucast c :: cint) = ucast d"
  then have "(ucast (ucast c :: cint) :: u8) = ucast (ucast d :: cint)" by simp
  moreover have "(ucast (ucast x :: cint) :: u8) = x" for x :: u8 by (rule bit_word_eqI) (auto simp: bit_simps)
  ultimately show "c = d" by simp
qed simp

lemma byte_vals:
  "(ucast (c :: u8) :: cint) = 16 \<longleftrightarrow> c = 16" "(ucast (c :: u8) :: cint) = 21 \<longleftrightarrow> c = 21"
  "(ucast (c :: u8) :: cint) = 8 \<longleftrightarrow> c = 8" "(ucast (c :: u8) :: cint) = 0x7f \<longleftrightarrow> c = 0x7f"
  "(ucast (c :: u8) :: cint) = 0 \<longleftrightarrow> c = 0" "(ucast (c :: u8) :: cint) = 13 \<longleftrightarrow> c = 13"
  "(ucast (c :: u8) :: cint) = 10 \<longleftrightarrow> c = 10" "(ucast (c :: u8) :: cint) = 4 \<longleftrightarrow> c = 4"
  using byte_inj [of c 16] byte_inj [of c 21] byte_inj [of c 8] byte_inj [of c "0x7f"] byte_inj [of c 0]
    byte_inj [of c 13] byte_inj [of c 10] byte_inj [of c 4] by simp_all

lemma type_char:
  assumes o: "cons_ok s" and np: "\<not> panicked s" and room: "length (cons_all s) < 128"
    and sp: "c \<noteq> 16" "c \<noteq> 21" "c \<noteq> 8" "c \<noteq> 0x7f" "c \<noteq> 0"
  shows "\<exists>s'. consoleintr (ucast c) s = Some s' \<and> cons_ok s' \<and> cons_abs s' = edit c (cons_abs s) \<and> \<not> panicked s'"
proof -
  define d where "d = (if c = 13 then 10 else c)"
  have d: "(if ucast c = (13 :: cint) then 10 else ucast c) = (ucast d :: cint)" by (simp add: byte_vals d_def)
  obtain t where t: "consputc (ucast d) s = Some t" using consputc_total [OF np] by blast
  note C = consputc_cons [OF t]
  define t1 where "t1 = t\<lparr>cons_buf := (cons_buf t)[unat (cons_e t mod of_nat INPUT_BUF_SIZE) := d], cons_e := cons_e t + 1\<rparr>"
  have t1: "cons_buf t1 = (cons_buf s)[unat (cons_e s mod of_nat INPUT_BUF_SIZE) := d]" "cons_e t1 = cons_e s + 1" "cons_r t1 = cons_r s"
    "cons_w t1 = cons_w s" "panicked t1 = panicked s" using C by (simp_all add: t1_def)
  note P = cons_push [OF o room t1(1-3)]
  let ?p = "fst (cons_abs s)" and ?l = "snd (cons_abs s)"
  have lt: "cons_e s - cons_r s < of_nat INPUT_BUF_SIZE" using room by (simp add: word_less_nat_alt)
  have u: "(ucast (ucast d :: cint) :: u8) = d" by (rule bit_word_eqI) (auto simp: bit_simps)
  define full where "full \<longleftrightarrow> d = 10 \<or> d = 4 \<or> Suc (length (cons_all s)) = 128"
  have "cons_e t1 - cons_r t1 = of_nat INPUT_BUF_SIZE \<longleftrightarrow> unat (cons_e t1 - cons_r t1) = 128"
    by (auto intro: unsigned_word_eqI)
  then have f: "(d = 10 \<or> d = 4 \<or> cons_e t1 - cons_r t1 = of_nat INPUT_BUF_SIZE) = full"
    using P(2) by (simp add: full_def)
  have ci: "consoleintr (ucast c) s = Some (if full then wakeup ChCons (t1\<lparr>cons_w := cons_e t1\<rparr>) else t1)"
    unfolding consoleintr_def ctl_vals Let_def d
    unfolding byte_vals t Option.bind_lunit u t1_def [symmetric] f using sp lt by (simp del: of_nat_numeral)
  have len: "length ?p + length ?l = length (cons_all s)" using cons_okD(4) [OF o] by (metis length_append)
  have ed: "edit c (cons_abs s) = (if full then (?p @ ?l @ [d], []) else (?p, ?l @ [d]))"
    unfolding edit_def ctl_vals using sp room len by (auto simp: full_def d_def split: prod.splits)
  show ?thesis
  proof (cases full)
    case True
    let ?t = "wakeup ChCons (t1\<lparr>cons_w := cons_e t1\<rparr>)"
    have "cons_all ?t = cons_all t1" by (simp add: cons_all_def)
    then have "cons_abs ?t = (cons_all t1, [])" by (simp add: cons_abs_def)
    then have a: "cons_abs ?t = (?p @ ?l @ [d], [])" using P(1) cons_okD(4) [OF o] by simp
    then have "cons_ok ?t" using P(2,3) room by (simp add: cons_ok_def)
    then show ?thesis using True a ci ed np t1(5) by simp
  next
    case False
    have m: "unat (cons_w s - cons_r s) \<le> length (cons_all s)" by (rule cons_okD(2) [OF o])
    then have a: "cons_abs t1 = (?p, ?l @ [d])" using P(1) by (simp add: cons_abs_def t1)
    moreover have "d \<noteq> 10" using False by (simp add: full_def)
    ultimately have "cons_ok t1" using P(2,3) room m o t1 by (simp add: cons_ok_def)
    then show ?thesis using False a ci ed np t1(5) by simp
  qed
qed

lemma consoleintr_abs:
  assumes "cons_ok s" "\<not> panicked s"
  shows "\<exists>s'. consoleintr (ucast c) s = Some s' \<and> cons_ok s' \<and> cons_abs s' = edit c (cons_abs s) \<and> \<not> panicked s'"
proof -
  let ?p = "fst (cons_abs s)" and ?l = "snd (cons_abs s)"
  have len: "length ?p + length ?l = length (cons_all s)" using cons_okD(4) [OF assms(1)] by (metis length_append)
  consider "c = 16" | "c = 21" | "c = 8 \<or> c = 0x7f" | "c \<noteq> 16" "c \<noteq> 21" "c \<noteq> 8" "c \<noteq> 0x7f" by blast
  then show ?thesis
  proof cases
    case 1
    then have "consoleintr (ucast c) s = procdump s" "edit c (cons_abs s) = cons_abs s"
      by (simp_all add: consoleintr_def edit_def ctl_vals byte_vals)
    then show ?thesis using procdump_total [OF assms(2)] assms(1) by metis
  next
    case 2
    then have "consoleintr (ucast c) s = kill_line s" "edit c (cons_abs s) = (?p, [])"
      by (simp_all add: consoleintr_def edit_def ctl_vals byte_vals split: prod.split)
    then show ?thesis using kill_line_abs [OF assms] by metis
  next
    case 3
    then have ed: "edit c (cons_abs s) = (?p, butlast ?l)" by (auto simp: edit_def ctl_vals split: prod.split)
    have ci: "consoleintr (ucast c) s = (if cons_e s \<noteq> cons_w s then consputc BACKSPACE (s\<lparr>cons_e := cons_e s - 1\<rparr>) else Some s)"
      using 3 by (auto simp: consoleintr_def ctl_vals byte_vals)
    show ?thesis
    proof (cases "cons_e s = cons_w s")
      case True
      then have "?l = []" using line_empty [OF assms(1)] by simp
      then have "cons_abs s = (?p, butlast ?l)" by (metis butlast.simps(1) prod.collapse)
      then show ?thesis using True ci ed assms by simp
    next
      case False
      obtain t where t: "consputc BACKSPACE (s\<lparr>cons_e := cons_e s - 1\<rparr>) = Some t"
        using consputc_total [of "s\<lparr>cons_e := cons_e s - 1\<rparr>"] assms(2) by auto
      note C = consputc_cons [OF t]
      have "cons_buf t = cons_buf s" "cons_e t = cons_e s - 1" "cons_r t = cons_r s" "cons_w t = cons_w s" using C by simp_all
      from cons_pop_last [OF assms(1) False this] show ?thesis using False ci ed t C(6) assms(2) by simp
    qed
  next
    case 4
    show ?thesis
    proof (cases "c = 0 \<or> 128 \<le> length (cons_all s)")
      case True
      then have "c = 0 \<or> \<not> cons_e s - cons_r s < of_nat INPUT_BUF_SIZE" by (auto simp: word_less_nat_alt)
      then have "consoleintr (ucast c) s = Some s" using 4 by (auto simp: consoleintr_def ctl_vals byte_vals)
      moreover have "edit c (cons_abs s) = cons_abs s" using 4 True len by (auto simp: edit_def ctl_vals split: prod.split)
      ultimately show ?thesis using assms by simp
    next
      case False
      then show ?thesis using type_char [OF assms _ 4] by simp
    qed
  qed
qed

lemma rx_loop_abs:
  "cons_ok s \<Longrightarrow> \<not> panicked s \<Longrightarrow>
    \<exists>s'. rx_loop cs s = Some s' \<and> cons_ok s' \<and> cons_abs s' = fold edit cs (cons_abs s) \<and> \<not> panicked s'"
proof (induction cs arbitrary: s)
  case (Cons c cs)
  have R: "cons_ok (s\<lparr>rx := cs\<rparr>)" "cons_abs (s\<lparr>rx := cs\<rparr>) = cons_abs s" "\<not> panicked (s\<lparr>rx := cs\<rparr>)"
    using cons_same [of "s\<lparr>rx := cs\<rparr>" s] Cons.prems by simp_all
  obtain t where t: "consoleintr (ucast c) (s\<lparr>rx := cs\<rparr>) = Some t" "cons_ok t" "cons_abs t = edit c (cons_abs s)" "\<not> panicked t"
    using consoleintr_abs [OF R(1,3)] R(2) by metis
  from Cons.IH [OF t(2,4)] show ?case by (simp add: t(1,3))
qed simp

subsection \<open>Reading a line\<close>

lemma cons_pop_first:
  assumes o: "cons_ok s" and p: "fst (cons_abs s) = c # p"
  shows "cons_r s \<noteq> cons_w s" "cons_buf s ! unat (cons_r s mod of_nat INPUT_BUF_SIZE) = c"
    "cons_ok (s\<lparr>cons_r := cons_r s + 1\<rparr>)" "cons_abs (s\<lparr>cons_r := cons_r s + 1\<rparr>) = (p, snd (cons_abs s))"
proof -
  let ?s = "s\<lparr>cons_r := cons_r s + 1\<rparr>" and ?n = "unat (cons_e s - cons_r s)" and ?m = "unat (cons_w s - cons_r s)"
  have m: "0 < ?m" "?m \<le> ?n" using p cons_okD(2,5) [OF o] by auto
  then have nz: "cons_w s - cons_r s \<noteq> 0" "cons_e s - cons_r s \<noteq> 0" by auto
  then show "cons_r s \<noteq> cons_w s" by auto
  have d: "cons_w ?s - cons_r ?s = cons_w s - cons_r s - 1" "cons_e ?s - cons_r ?s = cons_e s - cons_r s - 1"
    by (simp_all add: algebra_simps)
  have u: "unat (cons_w ?s - cons_r ?s) = ?m - 1" "unat (cons_e ?s - cons_r ?s) = ?n - 1"
    unfolding d using unat_dec [OF nz(1)] unat_dec [OF nz(2)] by simp_all
  have pos: "unat (cons_r s + 1) mod 128 = Suc (unat (cons_r s)) mod 128" using ring_pos [of "cons_r s" 1] by simp
  have sh: "ring_view 128 f (unat (cons_r s + 1)) k = ring_view 128 f (Suc (unat (cons_r s))) k" for f :: "nat \<Rightarrow> u8" and k
    using ring_view_mod [of 128 f "unat (cons_r s + 1)" k] ring_view_mod [of 128 f "Suc (unat (cons_r s))" k] unfolding pos by simp
  have all: "cons_all s = cons_buf s ! (unat (cons_r s) mod 128) # cons_all ?s"
    unfolding cons_all_def u(2) using m ring_view_pop [of 128 "(!) (cons_buf s)" "unat (cons_r s)" "?n - 1"] by (simp add: sh)
  have tm: "take ?m (cons_all s) = cons_buf s ! (unat (cons_r s) mod 128) # take (?m - 1) (cons_all ?s)"
    "drop ?m (cons_all s) = drop (?m - 1) (cons_all ?s)" using m by (simp_all add: all take_Cons' drop_Cons')
  then show "cons_buf s ! unat (cons_r s mod of_nat INPUT_BUF_SIZE) = c" using p unfolding unat_mod_128 by (simp add: cons_abs_def)
  have "cons_abs ?s = (take (?m - 1) (cons_all ?s), drop (?m - 1) (cons_all ?s))" unfolding cons_abs_def u ..
  then show ab: "cons_abs ?s = (p, snd (cons_abs s))" using tm p by (simp add: cons_abs_def)
  have "?m - 1 \<le> ?n - 1" "?n - 1 \<le> 128" using m(2) o by (auto simp: cons_ok_def)
  then show "cons_ok ?s" unfolding cons_ok_def ab u using o by (simp add: cons_ok_def)
qed

lemma consoleread_line:
  assumes "cons_ok s" "fst (cons_abs s) = xs @ 10 # rest" "\<forall>c \<in> set xs. c \<noteq> 10 \<and> c \<noteq> 4" "length xs < n"
  shows "\<exists>s'. consoleread_loop LocalDst n cnt s = Some (Done (of_nat (cnt + Suc (length xs))), xs @ [10], s') \<and>
    cons_ok s' \<and> cons_abs s' = (rest, snd (cons_abs s))"
  using assms
proof (induction xs arbitrary: s n cnt)
  case Nil
  then obtain m where n: "n = Suc m" by (cases n) auto
  have "fst (cons_abs s) = 10 # rest" using Nil.prems(2) by simp
  note P = cons_pop_first [OF Nil.prems(1) this]
  show ?case using P by (simp add: n Let_def ctl_vals either_copyout_def del: of_nat_numeral)
next
  case (Cons c xs)
  then obtain m where n: "n = Suc m" by (cases n) auto
  have "fst (cons_abs s) = c # (xs @ 10 # rest)" using Cons.prems(2) by simp
  note P = cons_pop_first [OF Cons.prems(1) this]
  have c: "c \<noteq> 10" "c \<noteq> 4" "\<forall>c \<in> set xs. c \<noteq> 10 \<and> c \<noteq> 4" "length xs < m" using Cons.prems(3,4) n by auto
  have f: "fst (cons_abs (s\<lparr>cons_r := cons_r s + 1\<rparr>)) = xs @ 10 # rest" using P(4) by simp
  obtain s' where i: "consoleread_loop LocalDst m (Suc cnt) (s\<lparr>cons_r := cons_r s + 1\<rparr>) =
      Some (Done (of_nat (Suc cnt + Suc (length xs))), xs @ [10], s')" "cons_ok s'" "cons_abs s' = (rest, snd (cons_abs s))"
    using Cons.IH [OF P(3) f c(3,4), of "Suc cnt"] P(4) by auto
  show ?case using P(1,2) c(1,2) i by (simp add: n Let_def ctl_vals either_copyout_def dst_add_def del: of_nat_numeral)
qed

lemma edit_plain:
  assumes "\<forall>c \<in> set xs. c \<notin> {0, 4, 8, 10, 13, 16, 21, 0x7f}" "length p + length l + length xs < 128"
  shows "fold edit xs (p, l) = (p, l @ xs)"
  using assms
proof (induction xs arbitrary: l)
  case (Cons c xs)
  then have "edit c (p, l) = (p, l @ [c])" by (simp add: edit_def ctl_vals Let_def)
  then show ?case using Cons by simp
qed simp

text \<open>
  C21. The console's interrupt handler implements line editing: for every byte received, the buffer
  indices after \<^verbatim>\<open>consoleintr\<close> stand for the result of the reference \<open>edit\<close> on the input and the line before it
  (kill line, backspace, end of line, end of file, full buffer), and the indices stay consistent.
\<close>

theorem consoleintr_edits:
  assumes "cons_ok s" "\<not> panicked s"
  shows "\<exists>s'. consoleintr (ucast c) s = Some s' \<and> cons_ok s' \<and> cons_abs s' = edit c (cons_abs s) \<and> \<not> panicked s'"
  by (rule consoleintr_abs [OF assms])


subsection \<open>The statically initialised state\<close>

definition inode_zero :: inode where
  "inode_zero = \<lparr>i_dev = 0, i_inum = 0, i_ref = 0, i_lock = \<lparr>sl_locked = False, sl_pid = 0\<rparr>, i_valid = False, i_type = 0,
     i_major = 0, i_minor = 0, i_nlink = 0, i_size = 0, i_addrs = replicate (Suc NDIRECT) 0\<rparr>"

definition sb_zero :: superblock where
  "sb_zero = \<lparr>sb_magic = 0, sb_size = 0, sb_nblocks = 0, sb_ninodes = 0, sb_nlog = 0, sb_logstart = 0, sb_inodestart = 0, sb_bmapstart = 0\<rparr>"

definition kcons_zero :: "(u32 \<Rightarrow> u8 list) \<Rightarrow> 'a \<Rightarrow> 'a kcons_scheme" where
  "kcons_zero d m =
     \<lparr>mem = (\<lambda>_. 0), k_end = 0, freelist = 0, nfree = 0, nalloc = 0, procs = replicate NPROC proc_zero,
      cpus = replicate NCPU cpu_zero, hart = 0, initproc = None, nextpid = 1, rand_state = 1, ticks = 0,
      bcache = replicate (Suc NBUF) zero_buf, disk = d, dwrites = [],
      log_start = 0, outstanding = 0, committing = False, log_dev = 0, lh = \<lparr>lh_n = 0, lh_block = replicate LOGBLOCKS 0\<rparr>,
      sb = sb_zero, itable = replicate NINODE inode_zero,
      panicked = False, tx_busy = False, tx_idle = True, rx = [], thr = [], cons_buf = replicate INPUT_BUF_SIZE 0,
      cons_r = 0, cons_w = 0, cons_e = 0, devsw = replicate NDEV \<lparr>dev_read = None, dev_write = None\<rparr>, \<dots> = m\<rparr>"

lemma kcons_zero_ok: "cons_ok (kcons_zero d m)" "\<not> panicked (kcons_zero d m)" "cons_abs (kcons_zero d m) = ([], [])"
  by (simp_all add: kcons_zero_def cons_ok_def cons_abs_def cons_all_def)

theorem consoleintr_edits_witness:
  "\<exists>s'. consoleintr (ucast (104 :: u8)) (kcons_zero (\<lambda>_. []) ()) = Some s' \<and> cons_abs s' = ([], [104])"
proof -
  have "edit 104 ([], []) = ([], [104])" by (simp add: edit_def ctl_vals)
  then show ?thesis using consoleintr_edits [OF kcons_zero_ok(1,2), of 104 "\<lambda>_. []" "()"] by (auto simp: kcons_zero_ok(3))
qed


end
