(* ===== verification/Vm_Frame.thy ===== *)
theory Vm_Frame
  imports Vm_User
begin

section \<open>What the memory operations leave alone\<close>

text \<open>
  The page allocator, the page-table operations and the copy functions change physical memory and the free
  list and nothing else of the kernel's state: the process table, the caches and the file table are in the
  part of the state record that they keep.
\<close>

lemma kalloc_more: "machine.more (snd (kalloc s)) = machine.more s"
  by (simp add: kalloc_def Let_def)

lemma kfree_more: "kfree pa s = Some s' \<Longrightarrow> machine.more s' = machine.more s"
  by (auto simp: kfree_def Let_def split: if_splits)

lemma walk_level_more: "machine.more (snd (walk_level l pt va alloc s)) = machine.more s"
proof (induction l arbitrary: pt s)
  case (Suc l)
  then show ?case using kalloc_more [of s] by (auto simp: Let_def split: prod.splits)
qed simp

lemma walk_more: "walk pt va alloc s = Some (pte, s') \<Longrightarrow> machine.more s' = machine.more s"
  using walk_level_more [of 2 pt va alloc s] by (auto simp: walk_def split: if_splits)

lemma mappages_loop_more:
  "mappages_loop pt a l pa perm s = Some (r, s') \<Longrightarrow> machine.more s' = machine.more s"
proof (induction pt a l pa perm s rule: mappages_loop.induct)
  case (1 pt a l pa perm s)
  from "1.prems" obtain pte t where w: "walk pt a True s = Some (pte, t)"
    by (subst (asm) mappages_loop.simps) (auto simp: bind_Some_iff)
  note m = walk_more [OF w]
  show ?case
  proof (cases "pte = 0 \<or> a = l")
    case True
    then show ?thesis using "1.prems" w m by (subst (asm) mappages_loop.simps) (auto simp: Let_def split: if_splits)
  next
    case False
    have v: "read64 (mem t) pte AND PTE_V = 0"
      using "1.prems" w False by (subst (asm) mappages_loop.simps) (auto split: if_splits)
    have "mappages_loop pt (a + PGSIZE) l (pa + PGSIZE) perm (t\<lparr>mem := write64 (mem t) pte (PA2PTE pa OR perm OR PTE_V)\<rparr>) = Some (r, s')"
      using "1.prems" w False v by (subst (asm) mappages_loop.simps) (auto simp: Let_def)
    then show ?thesis using "1.IH" [OF w refl _ _ refl] False v m by auto
  qed
qed

lemma mappages_more: "mappages pt va n pa perm s = Some (r, s') \<Longrightarrow> machine.more s' = machine.more s"
  by (auto simp: mappages_def dest: mappages_loop_more split: if_splits)

lemma vmfault_more:
  assumes "vmfault pt va s = Some (r, s')"
  shows "machine.more s' = machine.more s"
proof -
  have k: "machine.more t = machine.more s" if "kalloc s = (pa, t)" for pa t using kalloc_more [of s] that by simp
  show ?thesis using assms
    by (auto simp: vmfault_def Let_def bind_Some_iff split: option.splits if_splits prod.splits
        dest!: k mappages_more kfree_more)
qed

lemma fault_more:
  "(if x = 0 then vmfault pt va s else Some (x, s)) = Some (pa, t) \<Longrightarrow> machine.more t = machine.more s"
  by (auto split: if_splits dest: vmfault_more)

lemma copyout_more: "copyout pt va src s = Some (r, s') \<Longrightarrow> machine.more s' = machine.more s"
proof (induction "length src" arbitrary: va src s rule: less_induct)
  case less
  show ?case
  proof (cases "src = [] \<or> PGROUNDDOWN va \<ge> MAXVA")
    case True
    then show ?thesis using less.prems by (subst (asm) copyout.simps) (auto simp: Let_def split: if_splits)
  next
    case False
    obtain x pa t where f: "(if x = 0 then vmfault pt (PGROUNDDOWN va) s else Some (x, s)) = Some (pa, t)"
      "(if pa = 0 then Some (- 1, t) else do {
          (pte, s) \<leftarrow> walk pt (PGROUNDDOWN va) False t;
          if pte = 0 then panic ''kerneltrap''
          else if read64 (mem s) pte AND PTE_W = 0 then Some (- 1, s)
          else copyout pt (PGROUNDDOWN va + PGSIZE) (drop (chunk va (length src)) src)
                 (s\<lparr>mem := write_bytes (mem s) (pa + (va - PGROUNDDOWN va)) (take (chunk va (length src)) src)\<rparr>) }) = Some (r, s')"
      using less.prems [unfolded copyout.simps [of pt va src s] Let_def] False by (auto simp: bind_Some_iff simp del: panic_None)
    note m = fault_more [OF f(1)]
    show ?thesis
    proof (cases "pa = 0")
      case True
      then show ?thesis using f(2) m by simp
    next
      case False
      then obtain pte u where w: "walk pt (PGROUNDDOWN va) False t = Some (pte, u)"
        "read64 (mem u) pte AND PTE_W = 0 \<and> s' = u \<or>
         copyout pt (PGROUNDDOWN va + PGSIZE) (drop (chunk va (length src)) src)
           (u\<lparr>mem := write_bytes (mem u) (pa + (va - PGROUNDDOWN va)) (take (chunk va (length src)) src)\<rparr>) = Some (r, s')"
        using f(2) by (auto simp: bind_Some_iff split: if_splits)
      have "length (drop (chunk va (length src)) src) < length src" using \<open>\<not> (src = [] \<or> _)\<close> by auto
      from less.hyps [OF this] w(2) walk_more [OF w(1)] m show ?thesis by auto
    qed
  qed
qed

lemma copyin_more: "copyin pt va len s = Some (r, bs, s') \<Longrightarrow> machine.more s' = machine.more s"
proof (induction len arbitrary: va s bs rule: less_induct)
  case (less len)
  show ?case
  proof (cases "len = 0")
    case True
    then show ?thesis using less.prems by (subst (asm) copyin.simps) simp
  next
    case False
    obtain x pa t where f: "(if x = 0 then vmfault pt (PGROUNDDOWN va) s else Some (x, s)) = Some (pa, t)"
      "(if pa = 0 then Some (- 1, [], t) else do {
          (r, bs', s) \<leftarrow> copyin pt (PGROUNDDOWN va + PGSIZE) (len - chunk va len) t;
          Some (r, read_bytes (mem t) (pa + (va - PGROUNDDOWN va)) (chunk va len) @ bs', s) }) = Some (r, bs, s')"
      using less.prems [unfolded copyin.simps [of pt va len s] Let_def] False by (auto simp: bind_Some_iff)
    note m = fault_more [OF f(1)]
    have "len - chunk va len < len" using False by simp
    from less.IH [OF this] f(2) m show ?thesis by (auto simp: bind_Some_iff split: if_splits)
  qed
qed

subsection \<open>Ranges that can be read and written\<close>

text \<open>The bytes of the view that start at \<open>a\<close> are there, can be written and have their pages allocated.\<close>

definition rw_range :: "u64 \<Rightarrow> memory \<Rightarrow> nodes \<Rightarrow> u64 \<Rightarrow> nat \<Rightarrow> bool" where
  "rw_range n m nd a len \<longleftrightarrow> (\<forall>k < len. lview n m nd (a + of_nat k) \<noteq> None \<and> wview m nd (a + of_nat k) \<and> present m nd (a + of_nat k))"

lemma rw_range_sub:
  assumes "rw_range n m nd a len" "i + k \<le> len"
  shows "rw_range n m nd (a + of_nat i) k"
proof -
  have "a + of_nat i + of_nat j = a + of_nat (i + j) \<and> i + j < len" if "j < k" for j using that assms(2) by (simp add: add.assoc)
  then show ?thesis using assms(1) unfolding rw_range_def by metis
qed

lemma rw_range_keep:
  assumes "rw_range n (mem s) nd b len"
    and "\<forall>x. lview n (mem s) nd x \<noteq> None \<longrightarrow> lview n (mem s') nd' x \<noteq> None"
    and "\<forall>va. PGROUNDDOWN va < MAXVA \<longrightarrow> wview (mem s') nd' va = wview (mem s) nd va"
    and "\<forall>va. present (mem s) nd va \<longrightarrow> present (mem s') nd' va"
  shows "rw_range n (mem s') nd' b len"
  using assms unfolding rw_range_def by (auto simp: present_def)

lemma us_step_rw: "us_step e r n s fl nd s' fl' nd' \<Longrightarrow> rw_range n (mem s) nd b len \<Longrightarrow> rw_range n (mem s') nd' b len"
  by (rule rw_range_keep) (auto simp: us_step_def)

lemma out_step_rw: "out_step e r n s fl nd s' fl' nd' dst bs k \<Longrightarrow> rw_range n (mem s) nd b len \<Longrightarrow> rw_range n (mem s') nd' b len"
  by (rule rw_range_keep) (auto simp: out_step_def)

lemma copyin_rw:
  assumes inv: "uspace_inv e s fl nd r" "cur_space s r n" and rw: "rw_range n (mem s) nd a len"
  shows "\<exists>bs s' fl' nd'. copyin r a len s = Some (0, bs, s') \<and> us_step e r n s fl nd s' fl' nd' \<and> length bs = len \<and>
    (\<forall>k < len. lview n (mem s) nd (a + of_nat k) = Some (bs ! k))"
proof -
  obtain res bs s' fl' nd' where c: "copyin r a len s = Some (res, bs, s')" "us_step e r n s fl nd s' fl' nd'"
    "res = 0 \<and> map Some bs = map (\<lambda>k. lview n (mem s) nd (a + of_nat k)) [0 ..< len] \<or>
     res = - 1 \<and> (\<exists>k<len. lview n (mem s) nd (a + of_nat k) = None \<or> \<not> present (mem s) nd (a + of_nat k) \<and> length fl' \<le> 1)"
    using copyin_correct [OF inv, of a len] by blast
  have ok: "res = 0" "map Some bs = map (\<lambda>k. lview n (mem s) nd (a + of_nat k)) [0 ..< len]"
    using c(3) rw unfolding rw_range_def by blast+
  have lb: "length bs = len" using ok(2) by (metis length_map length_upt minus_nat.diff_0)
  have "lview n (mem s) nd (a + of_nat k) = Some (bs ! k)" if "k < len" for k
    using arg_cong [OF ok(2), of "\<lambda>xs. xs ! k"] that lb by simp
  then show ?thesis using c(1,2) ok(1) lb by blast
qed

lemma copyout_rw:
  assumes inv: "uspace_inv e s fl nd r" "cur_space s r n" and rw: "rw_range n (mem s) nd a (length bs)" and len: "length bs < 2 ^ 64"
  shows "\<exists>s' fl' nd'. copyout r a bs s = Some (0, s') \<and> out_step e r n s fl nd s' fl' nd' a bs (length bs)"
proof -
  obtain res s' fl' nd' j where o: "copyout r a bs s = Some (res, s')" "out_step e r n s fl nd s' fl' nd' a bs j"
    "res = 0 \<and> j = length bs \<or> res = - 1 \<and> j < length bs \<and> (lview n (mem s) nd (a + of_nat j) = None \<or>
       \<not> wview (mem s) nd (a + of_nat j) \<or> \<not> present (mem s) nd (a + of_nat j) \<and> length fl' \<le> 1)"
    using copyout_correct [OF inv len, of a] by blast
  have "res = 0 \<and> j = length bs" using o(3) rw unfolding rw_range_def by blast
  then show ?thesis using o(1,2) by blast
qed

lemma copyout_rw_inv:
  assumes "uspace_inv e s fl nd r" "cur_space s r n" "rw_range n (mem s) nd b m" "length bs < 2 ^ 64" "a = b + of_nat i" "i + length bs \<le> m"
  shows "\<exists>s' fl' nd'. copyout r a bs s = Some (0, s') \<and> uspace_inv e s' fl' nd' r \<and> cur_space s' r n \<and> rw_range n (mem s') nd' b m"
proof -
  have "rw_range n (mem s) nd a (length bs)" unfolding assms(5) by (rule rw_range_sub [OF assms(3,6)])
  from copyout_rw [OF assms(1,2) this assms(4)] obtain s' fl' nd' where
    c: "copyout r a bs s = Some (0, s')" "out_step e r n s fl nd s' fl' nd' a bs (length bs)" by blast
  moreover have "cur_space s' r n" using c(2) assms(2) cur_space_more [of s' s] by (simp add: out_step_def)
  ultimately show ?thesis using out_step_rw [OF c(2) assms(3)] by (auto simp: out_step_def)
qed

lemma sample_rw: "rw_range 4096 (mem sample_state) sample_nd 0 4096"
  unfolding rw_range_def
proof (intro allI impI)
  fix k :: nat assume "k < 4096"
  then have "0 + of_nat k < (4096 :: u64)" by (simp add: word_less_nat_alt unat_of_nat take_bit_nat_eq_self)
  from sample_view [OF this] show "lview 4096 (mem sample_state) sample_nd (0 + of_nat k) \<noteq> None \<and>
    wview (mem sample_state) sample_nd (0 + of_nat k) \<and> present (mem sample_state) sample_nd (0 + of_nat k)" by simp
qed

end
