(* ===== verification/File.thy ===== *)
theory File
  imports Console Vm_Frame
begin

section \<open>Open files and pipes\<close>

text \<open>
  \<^verbatim>\<open>kernel/file.c\<close> and \<^verbatim>\<open>pipe.c\<close>. A pointer to a file is its index in the file table. A pipe lives in a page from
  the allocator; \<open>pipes\<close> maps the address of the page to the structure. Calls that wait return the channel and what they
  continue with (\<open>blocking\<close>).
\<close>

subsection \<open>State\<close>

abbreviation PIPESIZE :: nat where "PIPESIZE \<equiv> 512"

record pipe =
  pi_data :: "u8 list"
  pi_nread :: u32
  pi_nwrite :: u32
  pi_readopen :: bool
  pi_writeopen :: bool

datatype fdtype = FD_NONE | FD_PIPE | FD_INODE | FD_DEVICE

record openfile =
  f_type :: fdtype
  f_ref :: cint
  f_readable :: bool
  f_writable :: bool
  f_pipe :: u64
  f_ip :: nat
  f_off :: u32
  f_major :: u16

record kfile = kcons +
  ftable :: "openfile list"
  pipes :: "u64 \<Rightarrow> pipe"

definition upd_file :: "nat \<Rightarrow> (openfile \<Rightarrow> openfile) \<Rightarrow> 'a kfile_scheme \<Rightarrow> 'a kfile_scheme" where
  "upd_file f g s = s\<lparr>ftable := (ftable s)[f := g (ftable s ! f)]\<rparr>"

definition upd_pipe :: "u64 \<Rightarrow> (pipe \<Rightarrow> pipe) \<Rightarrow> 'a kfile_scheme \<Rightarrow> 'a kfile_scheme" where
  "upd_pipe a g s = s\<lparr>pipes := (pipes s)(a := g (pipes s a))\<rparr>"

subsection \<open>Pipes\<close>

definition pipeclose :: "u64 \<Rightarrow> bool \<Rightarrow> 'a kfile_scheme \<Rightarrow> 'a kfile_scheme option" where
  "pipeclose a writable s =
     (let s = (if writable then wakeup (ChPipeR a) (upd_pipe a (\<lambda>p. p\<lparr>pi_writeopen := False\<rparr>) s)
               else wakeup (ChPipeW a) (upd_pipe a (\<lambda>p. p\<lparr>pi_readopen := False\<rparr>) s))
      in if \<not> pi_readopen (pipes s a) \<and> \<not> pi_writeopen (pipes s a) then kfree a s else Some s)"

text \<open>The two accesses to the circular buffer: the statements that store and that take a character.\<close>

definition pipe_put :: "u8 \<Rightarrow> pipe \<Rightarrow> pipe" where
  "pipe_put c p = p\<lparr>pi_data := (pi_data p)[unat (pi_nwrite p mod of_nat PIPESIZE) := c], pi_nwrite := pi_nwrite p + 1\<rparr>"

definition pipe_get :: "pipe \<Rightarrow> u8" where
  "pipe_get p = pi_data p ! unat (pi_nread p mod of_nat PIPESIZE)"

definition pipe_full :: "pipe \<Rightarrow> bool" where
  "pipe_full p \<longleftrightarrow> pi_nwrite p = pi_nread p + of_nat PIPESIZE"

text \<open>The loop of \<^verbatim>\<open>pipewrite\<close> with \<open>left = n - i\<close> bytes to go; it sleeps with the values of \<^verbatim>\<open>n - i\<close> and \<^verbatim>\<open>i\<close>.\<close>

fun pipewrite_loop ::
  "nat \<Rightarrow> u64 \<Rightarrow> u64 \<Rightarrow> nat \<Rightarrow> nat \<Rightarrow> 'a kfile_scheme \<Rightarrow> ((nat \<times> nat) blocking \<times> 'a kfile_scheme) option" where
  "pipewrite_loop pr a addr 0 i s = Some (Done (of_nat i), wakeup (ChPipeR a) s)"
| "pipewrite_loop pr a addr (Suc left) i s =
     (if \<not> pi_readopen (pipes s a) \<or> is_killed pr s \<noteq> 0 then Some (Done (- 1), s)
      else if pipe_full (pipes s a) then Some (Blocked (ChPipeW a) (Suc left, i), wakeup (ChPipeR a) s)
      else do {
        (r, bs, s) \<leftarrow> copyin (pagetable (procs s ! pr)) (addr + of_nat i) 1 s;
        if r = - 1 then Some (Done (of_nat i), wakeup (ChPipeR a) s)
        else pipewrite_loop pr a addr left (Suc i) (upd_pipe a (pipe_put (bs ! 0)) s) })"

definition pipewrite_from ::
  "u64 \<Rightarrow> u64 \<Rightarrow> nat \<times> nat \<Rightarrow> 'a kfile_scheme \<Rightarrow> ((nat \<times> nat) blocking \<times> 'a kfile_scheme) option" where
  "pipewrite_from a addr l s =
     (case myproc s of None \<Rightarrow> panic ''kerneltrap'' | Some pr \<Rightarrow> pipewrite_loop pr a addr (fst l) (snd l) s)"

definition pipewrite ::
  "u64 \<Rightarrow> u64 \<Rightarrow> cint \<Rightarrow> 'a kfile_scheme \<Rightarrow> ((nat \<times> nat) blocking \<times> 'a kfile_scheme) option" where
  "pipewrite a addr n s = pipewrite_from a addr (nat (sint n), 0) s"

text \<open>The loop of \<^verbatim>\<open>piperead\<close> that copies; the result is the value of \<^verbatim>\<open>i\<close>.\<close>

fun piperead_loop ::
  "nat \<Rightarrow> u64 \<Rightarrow> u64 \<Rightarrow> nat \<Rightarrow> nat \<Rightarrow> 'a kfile_scheme \<Rightarrow> (cint \<times> 'a kfile_scheme) option" where
  "piperead_loop pr a addr 0 i s = Some (of_nat i, s)"
| "piperead_loop pr a addr (Suc left) i s =
     (if pi_nread (pipes s a) = pi_nwrite (pipes s a) then Some (of_nat i, s)
      else do {
        (r, s) \<leftarrow> copyout (pagetable (procs s ! pr)) (addr + of_nat i) [pipe_get (pipes s a)] s;
        if r = - 1 then Some (if i = 0 then - 1 else of_nat i, s)
        else piperead_loop pr a addr left (Suc i) (upd_pipe a (\<lambda>p. p\<lparr>pi_nread := pi_nread p + 1\<rparr>) s) })"

definition piperead :: "u64 \<Rightarrow> u64 \<Rightarrow> cint \<Rightarrow> 'a kfile_scheme \<Rightarrow> (unit blocking \<times> 'a kfile_scheme) option" where
  "piperead a addr n s =
     (case myproc s of None \<Rightarrow> panic ''kerneltrap''
      | Some pr \<Rightarrow>
        if pi_nread (pipes s a) = pi_nwrite (pipes s a) \<and> pi_writeopen (pipes s a) then
          if is_killed pr s \<noteq> 0 then Some (Done (- 1), s) else Some (Blocked (ChPipeR a) (), s)
        else do {
          (r, s) \<leftarrow> piperead_loop pr a addr (nat (sint n)) 0 s;
          Some (Done r, wakeup (ChPipeW a) s) })"

subsection \<open>The file table\<close>

fun find_file :: "openfile list \<Rightarrow> nat \<Rightarrow> nat option" where
  "find_file [] i = None"
| "find_file (f # fs) i = (if f_ref f = 0 then Some i else find_file fs (Suc i))"

definition filealloc :: "'a kfile_scheme \<Rightarrow> nat option \<times> 'a kfile_scheme" where
  "filealloc s = (case find_file (ftable s) 0 of
     None \<Rightarrow> (None, s) | Some f \<Rightarrow> (Some f, upd_file f (\<lambda>f. f\<lparr>f_ref := 1\<rparr>) s))"

definition filedup :: "nat \<Rightarrow> 'a kfile_scheme \<Rightarrow> 'a kfile_scheme option" where
  "filedup f s = (if f_ref (ftable s ! f) <s 1 then panic ''filedup'' else Some (upd_file f (\<lambda>f. f\<lparr>f_ref := f_ref f + 1\<rparr>) s))"

definition fileclose :: "nat \<Rightarrow> 'a kfile_scheme \<Rightarrow> 'a kfile_scheme option" where
  "fileclose f s =
     (if f_ref (ftable s ! f) <s 1 then panic ''fileclose''
      else
        let s = upd_file f (\<lambda>f. f\<lparr>f_ref := f_ref f - 1\<rparr>) s in
        if 0 <s f_ref (ftable s ! f) then Some s
        else
          let ff = ftable s ! f;
              s = upd_file f (\<lambda>f. f\<lparr>f_ref := 0, f_type := FD_NONE\<rparr>) s
          in if f_type ff = FD_PIPE then pipeclose (f_pipe ff) (f_writable ff) s
             else if f_type ff = FD_INODE \<or> f_type ff = FD_DEVICE then do {
               s \<leftarrow> begin_op s;
               s \<leftarrow> iput (f_ip ff) s;
               end_op s }
             else Some s)"

definition pipealloc :: "'a kfile_scheme \<Rightarrow> (cint \<times> (nat \<times> nat) \<times> 'a kfile_scheme) option" where
  "pipealloc s =
     (let bad = (\<lambda>f0 f1 s. do {
            s \<leftarrow> (case f0 of None \<Rightarrow> Some s | Some f \<Rightarrow> fileclose f s);
            s \<leftarrow> (case f1 of None \<Rightarrow> Some s | Some f \<Rightarrow> fileclose f s);
            Some (- 1, (0, 0), s) });
          (f0, s) = filealloc s
      in case f0 of
           None \<Rightarrow> bad None None s
         | Some i \<Rightarrow>
             let (f1, s) = filealloc s in
             case f1 of
               None \<Rightarrow> bad (Some i) None s
             | Some j \<Rightarrow>
                 let (a, s) = kalloc s in
                 if a = 0 then bad (Some i) (Some j) s
                 else
                   let s = upd_pipe a (\<lambda>p. p\<lparr>pi_readopen := True, pi_writeopen := True, pi_nwrite := 0, pi_nread := 0\<rparr>) s;
                       s = upd_file i (\<lambda>f. f\<lparr>f_type := FD_PIPE, f_readable := True, f_writable := False, f_pipe := a\<rparr>) s;
                       s = upd_file j (\<lambda>f. f\<lparr>f_type := FD_PIPE, f_readable := False, f_writable := True, f_pipe := a\<rparr>) s
                   in Some (0, (i, j), s))"

subsection \<open>Reading and writing\<close>

text \<open>
  The 24 bytes of \<^verbatim>\<open>struct stat\<close>. The four bytes of padding before the size are not initialised: \<open>pad\<close> is what
  the kernel stack holds there.
\<close>

definition stat_bytes :: "u8 list \<Rightarrow> stat \<Rightarrow> u8 list" where
  "stat_bytes pad st = le_bytes 4 (st_dev st) @ le_bytes 4 (st_ino st) @ le_bytes 2 (st_type st) @ le_bytes 2 (st_nlink st) @
     pad @ le_bytes 8 (st_size st)"

definition filestat :: "u8 list \<Rightarrow> nat \<Rightarrow> u64 \<Rightarrow> 'a kfile_scheme \<Rightarrow> (cint \<times> 'a kfile_scheme) option" where
  "filestat pad f addr s =
     (case myproc s of None \<Rightarrow> panic ''kerneltrap''
      | Some p \<Rightarrow>
        let fl = ftable s ! f in
        if f_type fl = FD_INODE \<or> f_type fl = FD_DEVICE then do {
          s \<leftarrow> ilock (f_ip fl) s;
          let st = stati (f_ip fl) s;
          s \<leftarrow> iunlock (f_ip fl) s;
          (r, s) \<leftarrow> copyout (pagetable (procs s ! p)) addr (stat_bytes pad st) s;
          Some (if r <s 0 then - 1 else 0, s) }
        else Some (- 1, s))"

text \<open>What a read or write of a file continues with when it had to sleep.\<close>

datatype flocals = PipeW "nat \<times> nat" | PipeR | ConsW cwrite_locals | ConsR cread_locals

definition map_blocked :: "('l \<Rightarrow> 'm) \<Rightarrow> 'l blocking \<Rightarrow> 'm blocking" where
  "map_blocked g b = (case b of Done r \<Rightarrow> Done r | Blocked ch l \<Rightarrow> Blocked ch (g l))"

text \<open>A call through \<^verbatim>\<open>devsw\<close>, with 1 for the flag that says that the address is a user address.\<close>

definition call_dev :: "devfn \<Rightarrow> u64 \<Rightarrow> cint \<Rightarrow> 'a kfile_scheme \<Rightarrow> (flocals blocking \<times> 'a kfile_scheme) option" where
  "call_dev fn addr n s = (case fn of
      Consoleread \<Rightarrow> do { (b, _, s) \<leftarrow> consoleread (UserDst addr) n s; Some (map_blocked ConsR b, s) }
    | Consolewrite \<Rightarrow> do { (b, s) \<leftarrow> consolewrite (UserSrc addr) n s; Some (map_blocked ConsW b, s) })"

definition bad_major :: "u16 \<Rightarrow> bool" where
  "bad_major m \<longleftrightarrow> m <s 0 \<or> of_nat NDEV \<le>s m"

definition fileread :: "nat \<Rightarrow> u64 \<Rightarrow> cint \<Rightarrow> 'a kfile_scheme \<Rightarrow> (flocals blocking \<times> 'a kfile_scheme) option" where
  "fileread f addr n s =
     (let fl = ftable s ! f in
      if \<not> f_readable fl then Some (Done (- 1), s)
      else case f_type fl of
        FD_PIPE \<Rightarrow> do { (b, s) \<leftarrow> piperead (f_pipe fl) addr n s; Some (map_blocked (\<lambda>_. PipeR) b, s) }
      | FD_DEVICE \<Rightarrow>
          if bad_major (f_major fl) then Some (Done (- 1), s)
          else (case dev_read (devsw s ! unat (f_major fl)) of None \<Rightarrow> Some (Done (- 1), s) | Some fn \<Rightarrow> call_dev fn addr n s)
      | FD_INODE \<Rightarrow> do {
          s \<leftarrow> ilock (f_ip fl) s;
          (r, _, s) \<leftarrow> readi (f_ip fl) (UserDst addr) (f_off fl) n s;
          let s = (if 0 <s r then upd_file f (\<lambda>fl. fl\<lparr>f_off := f_off fl + r\<rparr>) s else s);
          s \<leftarrow> iunlock (f_ip fl) s;
          Some (Done r, s) }
      | FD_NONE \<Rightarrow> panic ''fileread'')"

text \<open>
  The loop of \<^verbatim>\<open>filewrite\<close>: at most \<^verbatim>\<open>max\<close> bytes in each transaction. The result tells whether all bytes were written.
\<close>

definition write_max :: nat where
  "write_max = ((MAXOPBLOCKS - 1 - 1 - 2) div 2) * BSIZE"

function filewrite_loop :: "nat \<Rightarrow> u64 \<Rightarrow> nat \<Rightarrow> nat \<Rightarrow> 'a kfile_scheme \<Rightarrow> (bool \<times> 'a kfile_scheme) option" where
  "filewrite_loop f addr left i s =
     (if left = 0 then Some (True, s)
      else do {
        let n1 = min left write_max;
        s \<leftarrow> begin_op s;
        s \<leftarrow> ilock (f_ip (ftable s ! f)) s;
        (r, s) \<leftarrow> writei (f_ip (ftable s ! f)) (UserSrc (addr + of_nat i)) (f_off (ftable s ! f)) (of_nat n1) s;
        let s = (if 0 <s r then upd_file f (\<lambda>fl. fl\<lparr>f_off := f_off fl + r\<rparr>) s else s);
        s \<leftarrow> iunlock (f_ip (ftable s ! f)) s;
        s \<leftarrow> end_op s;
        if r \<noteq> of_nat n1 then Some (False, s)
        else filewrite_loop f addr (left - n1) (i + n1) s })"
  by pat_completeness auto
termination
  by (relation "measure (\<lambda>(f, addr, left, i, s). left)") (auto simp: write_max_def)

declare filewrite_loop.simps [simp del]

definition filewrite :: "nat \<Rightarrow> u64 \<Rightarrow> cint \<Rightarrow> 'a kfile_scheme \<Rightarrow> (flocals blocking \<times> 'a kfile_scheme) option" where
  "filewrite f addr n s =
     (let fl = ftable s ! f in
      if \<not> f_writable fl then Some (Done (- 1), s)
      else case f_type fl of
        FD_PIPE \<Rightarrow> do { (b, s) \<leftarrow> pipewrite (f_pipe fl) addr n s; Some (map_blocked PipeW b, s) }
      | FD_DEVICE \<Rightarrow>
          if bad_major (f_major fl) then Some (Done (- 1), s)
          else (case dev_write (devsw s ! unat (f_major fl)) of None \<Rightarrow> Some (Done (- 1), s) | Some fn \<Rightarrow> call_dev fn addr n s)
      | FD_INODE \<Rightarrow> do {
          (all, s) \<leftarrow> filewrite_loop f addr (nat (sint n)) 0 s;
          Some (Done (if all \<and> 0 \<le> sint n then n else - 1), s) }
      | FD_NONE \<Rightarrow> panic ''filewrite'')"

text \<open>The call after it has been woken up.\<close>

definition file_resume ::
  "nat \<Rightarrow> u64 \<Rightarrow> cint \<Rightarrow> flocals \<Rightarrow> 'a kfile_scheme \<Rightarrow> (flocals blocking \<times> 'a kfile_scheme) option" where
  "file_resume f addr n l s = (case l of
      PipeW l \<Rightarrow> do { (b, s) \<leftarrow> pipewrite_from (f_pipe (ftable s ! f)) addr l s; Some (map_blocked PipeW b, s) }
    | PipeR \<Rightarrow> do { (b, s) \<leftarrow> piperead (f_pipe (ftable s ! f)) addr n s; Some (map_blocked (\<lambda>_. PipeR) b, s) }
    | ConsW l \<Rightarrow> do { (b, s) \<leftarrow> consolewrite_resume l s; Some (map_blocked ConsW b, s) }
    | ConsR l \<Rightarrow> do { (b, _, s) \<leftarrow> consoleread_resume l s; Some (map_blocked ConsR b, s) })"

subsection \<open>A pipe is a queue\<close>

definition pipe_len :: "pipe \<Rightarrow> nat" where
  "pipe_len p = unat (pi_nwrite p - pi_nread p)"

definition pipe_view :: "pipe \<Rightarrow> u8 list" where
  "pipe_view p = ring_view PIPESIZE ((!) (pi_data p)) (unat (pi_nread p)) (pipe_len p)"

definition pipe_ok :: "pipe \<Rightarrow> bool" where
  "pipe_ok p \<longleftrightarrow> length (pi_data p) = PIPESIZE \<and> pipe_len p \<le> PIPESIZE"

definition pipe_push :: "u8 \<Rightarrow> pipe \<Rightarrow> pipe option" where
  "pipe_push c p = (if pipe_full p then None else Some (pipe_put c p))"

definition pipe_pop :: "pipe \<Rightarrow> (u8 \<times> pipe) option" where
  "pipe_pop p = (if pi_nread p = pi_nwrite p then None else Some (pipe_get p, p\<lparr>pi_nread := pi_nread p + 1\<rparr>))"

lemma mod_pipe: "unat (a + b :: u32) mod 512 = (unat a + unat b) mod 512"
proof -
  have "(512 :: nat) dvd 2 ^ 32" by simp
  then show ?thesis unfolding unat_word_ariths by (simp add: mod_mod_cancel)
qed

lemma pipe_full_len: "pipe_ok p \<Longrightarrow> pipe_full p \<longleftrightarrow> pipe_len p = PIPESIZE"
proof -
  have "pipe_full p \<longleftrightarrow> pi_nwrite p - pi_nread p = of_nat PIPESIZE" by (auto simp: pipe_full_def algebra_simps)
  also have "\<dots> \<longleftrightarrow> pipe_len p = PIPESIZE" unfolding pipe_len_def by (auto intro: unsigned_word_eqI)
  finally show ?thesis .
qed

lemma pipe_empty_len: "pi_nread p = pi_nwrite p \<longleftrightarrow> pipe_len p = 0"
  by (auto simp: pipe_len_def unat_eq_zero)

lemma pipe_put_view:
  assumes o: "pipe_ok p" and n: "\<not> pipe_full p"
  shows "pipe_view (pipe_put c p) = pipe_view p @ [c]" "pipe_ok (pipe_put c p)"
proof -
  let ?n = "pipe_len p"
  have lt: "?n < 512" using o n pipe_full_len [OF o] by (simp add: pipe_ok_def)
  have "pi_nwrite (pipe_put c p) - pi_nread (pipe_put c p) = (pi_nwrite p - pi_nread p) + 1" by (simp add: pipe_put_def)
  then have u: "pipe_len (pipe_put c p) = Suc ?n"
    using lt unat_add_small [of "pi_nwrite p - pi_nread p" 1] by (simp add: pipe_len_def)
  have "unat (pi_nwrite p mod of_nat PIPESIZE) = unat (pi_nread p + (pi_nwrite p - pi_nread p)) mod 512" by (simp add: unat_mod)
  then have pos: "unat (pi_nwrite p mod of_nat PIPESIZE) = (unat (pi_nread p) + ?n) mod 512" unfolding mod_pipe pipe_len_def .
  have "ring_view 512 ((!) ((pi_data p)[(unat (pi_nread p) + ?n) mod 512 := c])) (unat (pi_nread p)) (Suc ?n) =
      ring_view 512 ((!) (pi_data p)) (unat (pi_nread p)) ?n @ [c]"
    by (rule ring_view_list_push) (use lt o in \<open>simp_all add: pipe_ok_def\<close>)
  then show "pipe_view (pipe_put c p) = pipe_view p @ [c]"
    unfolding pipe_view_def u by (simp add: pipe_put_def pos del: of_nat_numeral)
  show "pipe_ok (pipe_put c p)" using o lt u by (simp add: pipe_ok_def pipe_put_def)
qed

lemma pipe_get_view:
  assumes o: "pipe_ok p" and n: "pi_nread p \<noteq> pi_nwrite p"
  shows "pipe_view p = pipe_get p # pipe_view (p\<lparr>pi_nread := pi_nread p + 1\<rparr>)" "pipe_ok (p\<lparr>pi_nread := pi_nread p + 1\<rparr>)"
proof -
  let ?p = "p\<lparr>pi_nread := pi_nread p + 1\<rparr>" and ?n = "pipe_len p"
  have "pi_nwrite p - pi_nread p \<noteq> 0" using n by auto
  moreover have "pi_nwrite ?p - pi_nread ?p = pi_nwrite p - pi_nread p - 1" by (simp add: algebra_simps)
  ultimately have u: "Suc (pipe_len ?p) = ?n" unfolding pipe_len_def using unat_dec by metis
  have pos: "unat (pi_nread p + 1) mod 512 = Suc (unat (pi_nread p)) mod 512" using mod_pipe [of "pi_nread p" 1] by simp
  have sh: "ring_view 512 f (unat (pi_nread p + 1)) k = ring_view 512 f (Suc (unat (pi_nread p))) k" for f :: "nat \<Rightarrow> u8" and k
    using ring_view_mod [of 512 f "unat (pi_nread p + 1)" k] ring_view_mod [of 512 f "Suc (unat (pi_nread p))" k] unfolding pos by simp
  have "pipe_view p = (pi_data p) ! (unat (pi_nread p) mod 512) # ring_view 512 ((!) (pi_data p)) (Suc (unat (pi_nread p))) (pipe_len ?p)"
    unfolding pipe_view_def u [symmetric] by (rule ring_view_pop)
  then show "pipe_view p = pipe_get p # pipe_view ?p" by (simp add: pipe_view_def pipe_get_def sh unat_mod)
  show "pipe_ok ?p" using o u by (simp add: pipe_ok_def)
qed

interpretation pq: bounded_fifo pipe_ok pipe_view PIPESIZE pipe_push pipe_pop
proof
  fix p c y ys assume o: "pipe_ok p"
  have len: "length (pipe_view p) = pipe_len p" by (simp add: pipe_view_def)
  show "length (pipe_view p) \<le> PIPESIZE" using o by (simp add: len pipe_ok_def)
  show "\<exists>p'. pipe_push c p = Some p' \<and> pipe_ok p' \<and> pipe_view p' = pipe_view p @ [c]" if "length (pipe_view p) < PIPESIZE"
    using that pipe_full_len [OF o] pipe_put_view [OF o] by (simp add: len pipe_push_def)
  show "pipe_push c p = None" if "length (pipe_view p) = PIPESIZE" using that pipe_full_len [OF o] by (simp add: len pipe_push_def)
  show "\<exists>p'. pipe_pop p = Some (y, p') \<and> pipe_ok p' \<and> pipe_view p' = ys" if "pipe_view p = y # ys"
  proof -
    have "pi_nread p \<noteq> pi_nwrite p" using that len unfolding pipe_empty_len by (metis length_0_conv list.discI)
    from pipe_get_view [OF o this] this show ?thesis using that by (simp add: pipe_pop_def)
  qed
  show "pipe_pop p = None" if "pipe_view p = []" using that len by (simp add: pipe_pop_def pipe_empty_len)
qed



subsection \<open>Transfers through a pipe\<close>

lemma more_pipes:
  fixes s t :: "'a kfile_scheme"
  assumes "machine.more s = machine.more t"
  shows "pipes s = pipes t" "procs s = procs t" "ftable s = ftable t"
  using assms by (cases s; cases t; simp)+

lemma wakeup_file [simp]: "pipes (wakeup ch s) = pipes s" "ftable (wakeup ch s) = ftable s"
  by (simp_all add: wakeup_def)

lemma upd_pipe_pipes [simp]: "pipes (upd_pipe a g s) = (pipes s)(a := g (pipes s a))"
  by (simp add: upd_pipe_def)

text \<open>What the call has transferred when it returns or sleeps.\<close>

definition moved :: "nat \<Rightarrow> (nat \<times> nat) blocking \<Rightarrow> nat \<Rightarrow> bool" where
  "moved i res k = (case res of Done r \<Rightarrow> r = of_nat (i + k) \<or> r = - 1 | Blocked ch l \<Rightarrow> snd l = i + k)"

lemma pipewrite_loop_appends:
  assumes "pipewrite_loop pr a addr left i s = Some (res, s')" "pipe_ok (pipes s a)"
  shows "\<exists>bs. pipe_ok (pipes s' a) \<and> pipe_view (pipes s' a) = pipe_view (pipes s a) @ bs \<and> moved i res (length bs) \<and>
    length bs \<le> left \<and> (\<forall>b. b \<noteq> a \<longrightarrow> pipes s' b = pipes s b) \<and>
    (\<forall>ch l. res = Blocked ch l \<longrightarrow> pipe_full (pipes s' a) \<and> ch = ChPipeW a \<and> fst l + length bs = left)"
  using assms
proof (induction left arbitrary: i s)
  case 0
  then show ?case by (auto simp: moved_def intro: exI [of _ "[]"])
next
  case (Suc left)
  let ?p = "pipes s a"
  show ?case
  proof (cases "\<not> pi_readopen ?p \<or> is_killed pr s \<noteq> 0 \<or> pipe_full ?p")
    case True
    then show ?thesis using Suc.prems by (auto simp: moved_def split: if_splits intro!: exI [of _ "[]"])
  next
    case False
    then obtain r bs t where c: "copyin (pagetable (procs s ! pr)) (addr + of_nat i) 1 s = Some (r, bs, t)"
      using Suc.prems(1) by (auto simp: bind_Some_iff)
    have t: "pipes t = pipes s" by (rule more_pipes(1) [OF copyin_more [OF c]])
    show ?thesis
    proof (cases "r = - 1")
      case True
      then show ?thesis using Suc.prems False c t by (auto simp: moved_def intro!: exI [of _ "[]"])
    next
      case r: False
      let ?t = "upd_pipe a (pipe_put (bs ! 0)) t"
      have run: "pipewrite_loop pr a addr left (Suc i) ?t = Some (res, s')" using Suc.prems(1) False c r by simp
      have P: "pipe_view (pipes ?t a) = pipe_view ?p @ [bs ! 0]" "pipe_ok (pipes ?t a)"
        using pipe_put_view [OF Suc.prems(2)] False by (simp_all add: t)
      obtain cs where cs: "pipe_ok (pipes s' a)" "pipe_view (pipes s' a) = pipe_view (pipes ?t a) @ cs" "moved (Suc i) res (length cs)"
        "length cs \<le> left" "\<forall>b. b \<noteq> a \<longrightarrow> pipes s' b = pipes ?t b"
        "\<forall>ch l. res = Blocked ch l \<longrightarrow> pipe_full (pipes s' a) \<and> ch = ChPipeW a \<and> fst l + length cs = left"
        using Suc.IH [OF run P(2)] by blast
      have "moved i res (length (bs ! 0 # cs))" using cs(3) by (auto simp: moved_def split: blocking.splits)
      then show ?thesis using cs P(1) t by (intro exI [of _ "bs ! 0 # cs"]) auto
    qed
  qed
qed

lemma piperead_loop_takes:
  assumes "piperead_loop pr a addr left i s = Some (r, s')" "pipe_ok (pipes s a)"
  shows "\<exists>bs. pipe_ok (pipes s' a) \<and> pipe_view (pipes s a) = bs @ pipe_view (pipes s' a) \<and> length bs \<le> left \<and>
    (r = of_nat (i + length bs) \<or> r = - 1 \<and> i + length bs = 0) \<and> (\<forall>b. b \<noteq> a \<longrightarrow> pipes s' b = pipes s b)"
  using assms
proof (induction left arbitrary: i s)
  case 0
  then show ?case by (auto intro: exI [of _ "[]"])
next
  case (Suc left)
  show ?case
  proof (cases "pi_nread (pipes s a) = pi_nwrite (pipes s a)")
    case True
    then show ?thesis using Suc.prems by (auto intro!: exI [of _ "[]"])
  next
    case False
    then obtain q t where c: "copyout (pagetable (procs s ! pr)) (addr + of_nat i) [pipe_get (pipes s a)] s = Some (q, t)"
      using Suc.prems(1) by (auto simp: bind_Some_iff)
    have t: "pipes t = pipes s" by (rule more_pipes(1) [OF copyout_more [OF c]])
    show ?thesis
    proof (cases "q = - 1")
      case True
      then show ?thesis using Suc.prems False c t by (auto split: if_splits intro!: exI [of _ "[]"])
    next
      case q: False
      let ?t = "upd_pipe a (\<lambda>p. p\<lparr>pi_nread := pi_nread p + 1\<rparr>) t"
      have run: "piperead_loop pr a addr left (Suc i) ?t = Some (r, s')" using Suc.prems(1) False c q by simp
      note P = pipe_get_view [OF Suc.prems(2) False]
      have o: "pipe_ok (pipes ?t a)" using P(2) by (simp add: t)
      obtain cs where cs: "pipe_ok (pipes s' a)" "pipe_view (pipes ?t a) = cs @ pipe_view (pipes s' a)" "length cs \<le> left"
        "r = of_nat (Suc i + length cs) \<or> r = - 1 \<and> Suc i + length cs = 0" "\<forall>b. b \<noteq> a \<longrightarrow> pipes s' b = pipes ?t b"
        using Suc.IH [OF run o] by blast
      then show ?thesis using P(1) t by (intro exI [of _ "pipe_get (pipes s a) # cs"]) auto
    qed
  qed
qed

definition file_zero :: openfile where
  "file_zero = \<lparr>f_type = FD_NONE, f_ref = 0, f_readable = False, f_writable = False, f_pipe = 0, f_ip = 0, f_off = 0, f_major = 0\<rparr>"

definition kfile_zero :: "(u32 \<Rightarrow> u8 list) \<Rightarrow> (u64 \<Rightarrow> pipe) \<Rightarrow> kfile" where
  "kfile_zero d ps = kcons_zero d (kfile.fields (replicate NFILE file_zero) ps)"

lemma pipewrite_appends:
  assumes "pipe_ok (pipes s a)"
  shows "pipewrite a addr n s = Some (res, s') \<longrightarrow>
      (\<exists>bs. pipe_ok (pipes s' a) \<and> pipe_view (pipes s' a) = pipe_view (pipes s a) @ bs \<and> moved 0 res (length bs) \<and>
        (\<forall>b. b \<noteq> a \<longrightarrow> pipes s' b = pipes s b) \<and> (\<forall>ch l. res = Blocked ch l \<longrightarrow> pipe_full (pipes s' a) \<and> ch = ChPipeW a))"
  by (auto simp: pipewrite_def pipewrite_from_def split: option.splits dest!: pipewrite_loop_appends [OF _ assms])

lemma piperead_takes:
  assumes "pipe_ok (pipes s a)"
  shows "piperead a addr n s = Some (Done r, s') \<longrightarrow>
      (\<exists>bs. pipe_ok (pipes s' a) \<and> pipe_view (pipes s a) = bs @ pipe_view (pipes s' a) \<and>
        (r = of_nat (length bs) \<or> r = - 1 \<and> bs = []) \<and> (\<forall>b. b \<noteq> a \<longrightarrow> pipes s' b = pipes s b))"
proof
  assume p: "piperead a addr n s = Some (Done r, s')"
  then obtain pr where pr: "myproc s = Some pr" by (auto simp: piperead_def split: option.splits)
  show "\<exists>bs. pipe_ok (pipes s' a) \<and> pipe_view (pipes s a) = bs @ pipe_view (pipes s' a) \<and>
      (r = of_nat (length bs) \<or> r = - 1 \<and> bs = []) \<and> (\<forall>b. b \<noteq> a \<longrightarrow> pipes s' b = pipes s b)"
  proof (cases "pi_nread (pipes s a) = pi_nwrite (pipes s a) \<and> pi_writeopen (pipes s a)")
    case True
    then show ?thesis using p pr assms by (auto simp: piperead_def split: if_splits)
  next
    case False
    then obtain t where "piperead_loop pr a addr (nat (sint n)) 0 s = Some (r, t)" "s' = wakeup (ChPipeW a) t"
      using p pr by (auto simp: piperead_def bind_Some_iff)
    then show ?thesis using piperead_loop_takes [OF _ assms] by fastforce
  qed
qed

lemma piperead_blocks:
  "piperead a addr n s = Some (Blocked ch l, s') \<longrightarrow>
      s' = s \<and> pipe_view (pipes s a) = [] \<and> pi_writeopen (pipes s a) \<and> ch = ChPipeR a"
proof -
  have "pipe_view (pipes s a) = [] \<longleftrightarrow> pi_nread (pipes s a) = pi_nwrite (pipes s a)"
    unfolding pipe_empty_len pipe_view_def length_0_conv [symmetric] length_ring_view ..
  then show ?thesis by (auto simp: piperead_def bind_Some_iff split: option.splits if_splits)
qed



end
