(* ===== verification/Proc_Life.thy ===== *)
theory Proc_Life
  imports File
begin

section \<open>Creating and ending processes\<close>

text \<open>
  The functions of \<^verbatim>\<open>kernel/proc.c\<close> that use open files and inodes: \<^verbatim>\<open>userinit\<close>, \<^verbatim>\<open>kfork\<close> and \<^verbatim>\<open>kexit\<close>. The addresses of
  the trampoline page and of \<^verbatim>\<open>forkret\<close> are arguments, as in \<^verbatim>\<open>allocproc\<close>.
\<close>

subsection \<open>Operations\<close>

definition userinit :: "u64 \<Rightarrow> u64 \<Rightarrow> 'a kfile_scheme \<Rightarrow> 'a kfile_scheme option" where
  "userinit tramp fkret s = do {
     (np, s) \<leftarrow> allocproc tramp fkret s;
     case np of
       None \<Rightarrow> panic ''kerneltrap''
     | Some i \<Rightarrow> do {
         let s = s\<lparr>initproc := Some i\<rparr>;
         (c, s) \<leftarrow> namei [slash] s;
         Some (upd_proc i (\<lambda>p. p\<lparr>cwd := c, state := RUNNABLE\<rparr>) s) } }"

text \<open>
  \<^verbatim>\<open>safestrcpy\<close> from an array of \<open>n\<close> bytes into another one. When it stops at a NUL it has copied the NUL
  and stores another one behind it.
\<close>

definition safestrcpy_arr :: "u8 list \<Rightarrow> u8 list \<Rightarrow> nat \<Rightarrow> u8 list" where
  "safestrcpy_arr dst src n =
     (let xs = takeWhile (\<lambda>c. c \<noteq> 0) (take (n - 1) src);
          new = xs @ (if length xs < n - 1 then [0, 0] else [0])
      in new @ drop (length new) dst)"

text \<open>The loop of \<^verbatim>\<open>kfork\<close> that duplicates the open files.\<close>

fun fork_files :: "nat \<Rightarrow> nat \<Rightarrow> nat list \<Rightarrow> 'a kfile_scheme \<Rightarrow> 'a kfile_scheme option" where
  "fork_files i np [] s = Some s"
| "fork_files i np (k # ks) s =
     (case ofile (procs s ! i) ! k of
        None \<Rightarrow> fork_files i np ks s
      | Some f \<Rightarrow> do {
          s \<leftarrow> filedup f s;
          fork_files i np ks (upd_proc np (\<lambda>p. p\<lparr>ofile := (ofile p)[k := Some f]\<rparr>) s) })"

abbreviation TF_SIZE :: nat where "TF_SIZE \<equiv> 288"

definition copy_trapframe :: "nat \<Rightarrow> nat \<Rightarrow> 'a kproc_scheme \<Rightarrow> 'a kproc_scheme" where
  "copy_trapframe i np s =
     s\<lparr>mem := write_bytes (mem s) (trapframe (procs s ! np)) (read_bytes (mem s) (trapframe (procs s ! i)) TF_SIZE)\<rparr>"

definition kfork :: "u64 \<Rightarrow> u64 \<Rightarrow> 'a kfile_scheme \<Rightarrow> (cint \<times> 'a kfile_scheme) option" where
  "kfork tramp fkret s =
     (case myproc s of None \<Rightarrow> panic ''kerneltrap''
      | Some i \<Rightarrow> do {
          (new, s) \<leftarrow> allocproc tramp fkret s;
          case new of
            None \<Rightarrow> Some (- 1, s)
          | Some np \<Rightarrow> do {
              (r, s) \<leftarrow> uvmcopy (pagetable (procs s ! i)) (pagetable (procs s ! np)) (sz (procs s ! i)) s;
              if r <s 0 then do { s \<leftarrow> freeproc np s; Some (- 1, s) }
              else do {
                let s = upd_proc np (\<lambda>p. p\<lparr>sz := sz (procs s ! i), tickets := tickets (procs s ! i)\<rparr>) s;
                let s = copy_trapframe i np s;
                let s = tf_set np A0 0 s;
                s \<leftarrow> fork_files i np [0 ..< NOFILE] s;
                case cwd (procs s ! i) of
                  None \<Rightarrow> panic ''kerneltrap''
                | Some c \<Rightarrow>
                    let (c, s) = idup c s;
                        s = upd_proc np (\<lambda>p. p\<lparr>cwd := Some c, name := safestrcpy_arr (name p) (name (procs s ! i)) 16\<rparr>) s;
                        pd = pid (procs s ! np);
                        s = upd_proc np (\<lambda>p. p\<lparr>parent := Some i\<rparr>) s;
                        s = upd_proc np (\<lambda>p. p\<lparr>state := RUNNABLE\<rparr>) s
                    in Some (pd, s) } } })"

text \<open>The loop of \<^verbatim>\<open>kexit\<close> that closes the open files.\<close>

fun close_files :: "nat \<Rightarrow> nat list \<Rightarrow> 'a kfile_scheme \<Rightarrow> 'a kfile_scheme option" where
  "close_files i [] s = Some s"
| "close_files i (fd # fds) s =
     (case ofile (procs s ! i) ! fd of
        None \<Rightarrow> close_files i fds s
      | Some f \<Rightarrow> do {
          s \<leftarrow> fileclose f s;
          close_files i fds (upd_proc i (\<lambda>p. p\<lparr>ofile := (ofile p)[fd := None]\<rparr>) s) })"

text \<open>
  \<^verbatim>\<open>kexit\<close> after the files are closed: the part under \<^verbatim>\<open>wait_lock\<close>, up to the switch to the scheduler.
\<close>

definition become_zombie :: "nat \<Rightarrow> cint \<Rightarrow> 'a kproc_scheme \<Rightarrow> 'a kproc_scheme" where
  "become_zombie i status s =
     (let s = reparent i s;
          s = wakeup (case parent (procs s ! i) of None \<Rightarrow> NoChan | Some k \<Rightarrow> ChProc k) s
      in upd_proc i (\<lambda>p. p\<lparr>xstate := status, state := ZOMBIE\<rparr>) s)"

text \<open>The result is what \<^verbatim>\<open>sched\<close> hands to the scheduler; \<^verbatim>\<open>kexit\<close> does not return.\<close>

definition kexit ::
  "cint \<Rightarrow> swtch_context \<Rightarrow> 'a kfile_scheme \<Rightarrow> (bool \<times> swtch_context \<times> 'a kfile_scheme) option" where
  "kexit status regs s =
     (case myproc s of None \<Rightarrow> panic ''kerneltrap''
      | Some i \<Rightarrow>
        if initproc s = Some i then panic ''init exiting''
        else do {
          s \<leftarrow> close_files i [0 ..< NOFILE] s;
          s \<leftarrow> begin_op s;
          s \<leftarrow> (case cwd (procs s ! i) of None \<Rightarrow> panic ''kerneltrap'' | Some c \<Rightarrow> iput c s);
          s \<leftarrow> end_op s;
          let s = upd_proc i (\<lambda>p. p\<lparr>cwd := None\<rparr>) s;
          sched True 1 False regs (become_zombie i status s) })"

subsection \<open>Exit meets wait\<close>

text \<open>What waking up and reparenting change of an entry of the table.\<close>

definition same_entry :: "proc \<Rightarrow> proc \<Rightarrow> bool" where
  "same_entry p q \<longleftrightarrow> q\<lparr>parent := parent p, state := state p\<rparr> = p \<and> (state q = state p \<or> state p = SLEEPING \<and> state q = RUNNABLE)"

lemma same_entry_refl [simp]: "same_entry p p"
  by (simp add: same_entry_def)

lemma same_entry_trans: "same_entry p q \<Longrightarrow> same_entry q r \<Longrightarrow> same_entry p r"
  by (cases p; cases q; cases r) (auto simp: same_entry_def)

lemma wakeup_length [simp]: "length (procs (wakeup ch s)) = length (procs s)"
  by (simp add: wakeup_def)

lemma wakeup_nth:
  "c < length (procs s) \<Longrightarrow> procs (wakeup ch s) ! c =
    (if myproc s \<noteq> Some c \<and> state (procs s ! c) = SLEEPING \<and> p_chan (procs s ! c) = ch
     then (procs s ! c)\<lparr>state := RUNNABLE\<rparr> else procs s ! c)"
  by (simp add: wakeup_def nth_enumerate_eq)

lemma wakeup_entry:
  "c < length (procs s) \<Longrightarrow> same_entry (procs s ! c) (procs (wakeup ch s) ! c) \<and> parent (procs (wakeup ch s) ! c) = parent (procs s ! c)"
  by (simp add: wakeup_nth same_entry_def)

lemma wakeup_fields [simp]: "initproc (wakeup ch s) = initproc s" "myproc (wakeup ch s) = myproc s"
  by (simp_all add: wakeup_def myproc_def mycpu_def cpuid_def)

lemma reparent_loop_entries:
  assumes "initproc s \<noteq> Some i" "\<forall>j \<in> set js. j < length (procs s)"
  shows "length (procs (reparent_loop i js s)) = length (procs s) \<and> initproc (reparent_loop i js s) = initproc s \<and>
    myproc (reparent_loop i js s) = myproc s \<and>
    (\<forall>c < length (procs s). same_entry (procs s ! c) (procs (reparent_loop i js s) ! c) \<and>
      parent (procs (reparent_loop i js s) ! c) =
        (if c \<in> set js \<and> parent (procs s ! c) = Some i then initproc s else parent (procs s ! c)))"
  using assms
proof (induction js arbitrary: s)
  case (Cons j js)
  let ?ch = "case initproc s of None \<Rightarrow> NoChan | Some k \<Rightarrow> ChProc k"
  define t where "t = (if parent (procs s ! j) = Some i then wakeup ?ch (upd_proc j (\<lambda>p. p\<lparr>parent := initproc s\<rparr>) s) else s)"
  have l: "length (procs t) = length (procs s)" "initproc t = initproc s" "myproc t = myproc s" by (simp_all add: t_def)
  have e: "same_entry (procs s ! c) (procs t ! c)"
    "parent (procs t ! c) = (if c = j \<and> parent (procs s ! c) = Some i then initproc s else parent (procs s ! c))"
    if "c < length (procs s)" for c
  proof -
    let ?u = "upd_proc j (\<lambda>p. p\<lparr>parent := initproc s\<rparr>) s"
    have u: "same_entry (procs s ! c) (procs ?u ! c)" "parent (procs ?u ! c) = (if c = j then initproc s else parent (procs s ! c))"
      using that Cons.prems(2) by (simp_all add: nth_list_update same_entry_def)
    have w: "same_entry (procs ?u ! c) (procs (wakeup ?ch ?u) ! c)" "parent (procs (wakeup ?ch ?u) ! c) = parent (procs ?u ! c)"
      using wakeup_entry [of c ?u ?ch] that by simp_all
    show "same_entry (procs s ! c) (procs t ! c)"
      using same_entry_trans [OF u(1) w(1)] by (simp add: t_def)
    show "parent (procs t ! c) = (if c = j \<and> parent (procs s ! c) = Some i then initproc s else parent (procs s ! c))"
      using w(2) u(2) by (auto simp: t_def)
  qed
  have "initproc t \<noteq> Some i" "\<forall>j \<in> set js. j < length (procs t)" using Cons.prems l by auto
  note ih = Cons.IH [OF this]
  have run: "reparent_loop i (j # js) s = reparent_loop i js t" by (simp add: t_def)
  have "same_entry (procs s ! c) (procs (reparent_loop i js t) ! c)"
    "parent (procs (reparent_loop i js t) ! c) =
      (if c \<in> set (j # js) \<and> parent (procs s ! c) = Some i then initproc s else parent (procs s ! c))" if c: "c < length (procs s)" for c
  proof -
    have i: "same_entry (procs t ! c) (procs (reparent_loop i js t) ! c)"
      "parent (procs (reparent_loop i js t) ! c) = (if c \<in> set js \<and> parent (procs t ! c) = Some i then initproc s else parent (procs t ! c))"
      using ih c l by simp_all
    show "same_entry (procs s ! c) (procs (reparent_loop i js t) ! c)" by (rule same_entry_trans [OF e(1) [OF c] i(1)])
    show "parent (procs (reparent_loop i js t) ! c) =
      (if c \<in> set (j # js) \<and> parent (procs s ! c) = Some i then initproc s else parent (procs s ! c))"
      unfolding i(2) e(2) [OF c] using Cons.prems(1) by simp
  qed
  then show ?case unfolding run using ih l by simp
qed simp

lemma find_zombie_Some:
  assumes "c < length ps" "parent (ps ! c) = Some k" "state (ps ! c) = ZOMBIE"
  shows "\<exists>d b. find_zombie k ps j h = (Some (j + d), b) \<and> d \<le> c \<and> parent (ps ! d) = Some k \<and> state (ps ! d) = ZOMBIE"
  using assms
proof (induction ps arbitrary: c j h)
  case (Cons p ps)
  show ?case
  proof (cases "parent p = Some k \<and> state p = ZOMBIE")
    case True
    then show ?thesis by (intro exI [of _ 0]) auto
  next
    case False
    then obtain c' where c: "c = Suc c'" using Cons.prems by (cases c) auto
    obtain d b where "find_zombie k ps (Suc j) (parent p = Some k \<or> h) = (Some (Suc j + d), b)" "d \<le> c'"
      "parent (ps ! d) = Some k" "state (ps ! d) = ZOMBIE"
      using Cons.IH [of c' "Suc j" "parent p = Some k \<or> h"] Cons.prems by (auto simp: c)
    then show ?thesis using False c by (intro exI [of _ "Suc d"] exI [of _ b]) auto
  qed
qed simp


text \<open>A table in which process 1 sleeps in \<^verbatim>\<open>kwait\<close> for its child 2, which runs.\<close>

definition waiting_table :: kproc where
  "waiting_table = (kproc_zero 0)\<lparr>procs := (replicate NPROC proc_zero)
     [1 := proc_zero\<lparr>state := SLEEPING, p_chan := ChProc 1, pid := 5\<rparr>, 2 := proc_zero\<lparr>state := RUNNING, pid := 6, parent := Some 1\<rparr>],
     cpus := replicate NCPU (cpu_zero\<lparr>cpu_proc := Some 2\<rparr>), initproc := Some 0\<rparr>"


end
