(* ===== verification/Lottery.thy ===== *)
theory Lottery
  imports Kstate
begin

section \<open>The lottery scheduler\<close>

text \<open>
  \<^verbatim>\<open>random\<close> and \<^verbatim>\<open>scheduler\<close> of \<^verbatim>\<open>kernel/proc.c\<close> and \<^verbatim>\<open>sys_settickets\<close> of \<^verbatim>\<open>kernel/sysproc.c\<close>.
  One round of the scheduler counts the tickets of the RUNNABLE processes, draws a number and
  walks the table again until the running sum passes the draw. The lemmas show which draws
  select which process: the intervals of the processes partition the winning numbers, with
  lengths equal to the ticket counts; and they show what happens outside the intended range,
  for a negative random number and for a ticket sum that overflows.
\<close>

subsection \<open>Definitions\<close>

text \<open>\<^verbatim>\<open>unsigned long rand_state\<close> steps as a 64-bit word; the result is truncated to \<^verbatim>\<open>int\<close>.\<close>

definition random :: "u64 \<Rightarrow> cint \<times> u64" where
  "random rs = (let rs' = rs * 1664525 + 1013904223 in (ucast rs', rs'))"

text \<open>First pass over the table: the sum of the tickets of the RUNNABLE processes.\<close>

fun count_tickets :: "proc list \<Rightarrow> cint \<Rightarrow> cint" where
  "count_tickets [] tot = tot"
| "count_tickets (p # ps) tot =
     count_tickets ps (if state p = RUNNABLE then tot + tickets p else tot)"

text \<open>
  Second pass: the index of the first RUNNABLE process at which the running sum exceeds
  \<open>winner\<close>. The sum and the comparison are signed 32-bit.
\<close>

fun find_winner :: "proc list \<Rightarrow> nat \<Rightarrow> cint \<Rightarrow> cint \<Rightarrow> nat option" where
  "find_winner [] i winner counter = None"
| "find_winner (p # ps) i winner counter =
     (if state p = RUNNABLE then
        let counter' = counter + tickets p in
          if winner <s counter' then Some i else find_winner ps (Suc i) winner counter'
      else find_winner ps (Suc i) winner counter)"

text \<open>The process that the table and the value of \<^verbatim>\<open>random()\<close> select, if any.\<close>

definition lottery :: "proc list \<Rightarrow> cint \<Rightarrow> nat option" where
  "lottery ps r =
     (let total_tickets = count_tickets ps 0 in
        if 0 <s total_tickets then find_winner ps 0 (c_rem r total_tickets) 0 else None)"

text \<open>
  One iteration of the loop in \<^verbatim>\<open>scheduler\<close> up to the \<^verbatim>\<open>swtch\<close>. \<open>random\<close> is called only when
  there is a ticket. The result says whether a process was found (otherwise the CPU
  executes \<^verbatim>\<open>wfi\<close>).
\<close>

definition scheduler_dispatch :: "'a kproc_scheme \<Rightarrow> bool \<times> 'a kproc_scheme" where
  "scheduler_dispatch s =
     (let total_tickets = count_tickets (procs s) 0 in
        if 0 <s total_tickets then
          let (r, rs') = random (rand_state s);
              s1 = s\<lparr>rand_state := rs'\<rparr> in
            (case find_winner (procs s) 0 (c_rem r total_tickets) 0 of
               None \<Rightarrow> (False, s1)
             | Some i \<Rightarrow>
                 (True, upd_cpu (\<lambda>c. c\<lparr>cpu_proc := Some i\<rparr>)
                          (upd_proc i (\<lambda>p. p\<lparr>state := RUNNING\<rparr>) s1)))
        else (False, s))"

text \<open>After the process has switched back, this CPU runs no process.\<close>

definition scheduler_return :: "'a kproc_scheme \<Rightarrow> 'a kproc_scheme" where
  "scheduler_return s = upd_cpu (\<lambda>c. c\<lparr>cpu_proc := None\<rparr>) s"

text \<open>
  \<^verbatim>\<open>sys_settickets\<close> with its argument \<open>n\<close>: at least one ticket, no upper bound. Without a
  current process the code would dereference a null pointer.
\<close>

definition sys_settickets :: "cint \<Rightarrow> 'a kproc_scheme \<Rightarrow> (u64 \<times> 'a kproc_scheme) option" where
  "sys_settickets n s =
     (let n' = (if n <s 1 then 1 else n) in
        case myproc s of
          None \<Rightarrow> panic ''kerneltrap''
        | Some i \<Rightarrow> Some (0, upd_proc i (\<lambda>p. p\<lparr>tickets := n'\<rparr>) s))"

subsection \<open>Ticket sums as integers\<close>

text \<open>The exact sum of the RUNNABLE processes' tickets, and the condition that it fits an \<^verbatim>\<open>int\<close>.\<close>

definition ticket_of :: "proc \<Rightarrow> int" where
  "ticket_of p = (if state p = RUNNABLE then sint (tickets p) else 0)"

definition ticket_sum :: "proc list \<Rightarrow> int" where
  "ticket_sum ps = sum_list (map ticket_of ps)"

text \<open>Every RUNNABLE process holds a ticket and the sum stays below \<open>2^31\<close>.\<close>

definition tickets_ok :: "proc list \<Rightarrow> bool" where
  "tickets_ok ps \<longleftrightarrow>
     (\<forall>p \<in> set ps. state p = RUNNABLE \<longrightarrow> 1 \<le> sint (tickets p)) \<and> ticket_sum ps < 2 ^ 31"

lemma ticket_sum_simps [simp]:
  "ticket_sum [] = 0" "ticket_sum (p # ps) = ticket_of p + ticket_sum ps"
  "ticket_sum (ps @ qs) = ticket_sum ps + ticket_sum qs"
  by (simp_all add: ticket_sum_def)

lemma ticket_of_nonneg:
  "(state p = RUNNABLE \<Longrightarrow> 1 \<le> sint (tickets p)) \<Longrightarrow> 0 \<le> ticket_of p"
  by (auto simp: ticket_of_def)

lemma ticket_sum_nonneg:
  "\<forall>p \<in> set ps. state p = RUNNABLE \<longrightarrow> 1 \<le> sint (tickets p) \<Longrightarrow> 0 \<le> ticket_sum ps"
  by (induction ps) (auto simp: ticket_of_def)

lemma tickets_ok_Cons:
  "tickets_ok (p # ps) \<Longrightarrow> tickets_ok ps \<and> 0 \<le> ticket_of p \<and> 0 \<le> ticket_sum ps"
  using ticket_sum_nonneg [of ps]
  by (auto simp: tickets_ok_def ticket_of_def)

text \<open>Without overflow, the first pass computes the exact sum.\<close>

lemma count_tickets_exact:
  assumes "\<forall>p \<in> set ps. state p = RUNNABLE \<longrightarrow> 1 \<le> sint (tickets p)"
    and "0 \<le> sint c" and "sint c + ticket_sum ps < 2 ^ 31"
  shows "sint (count_tickets ps c) = sint c + ticket_sum ps"
  using assms
proof (induction ps arbitrary: c)
  case Nil
  then show ?case by simp
next
  case (Cons p ps)
  have sum: "0 \<le> ticket_sum ps" using Cons.prems(1) by (simp add: ticket_sum_nonneg)
  show ?case
  proof (cases "state p = RUNNABLE")
    case True
    with Cons.prems sum have "sint (c + tickets p) = sint c + sint (tickets p)"
      by (intro sint_add_no_overflow) (auto simp: ticket_of_def)
    with True Cons.prems Cons.IH [of "c + tickets p"] show ?thesis
      by (auto simp: ticket_of_def)
  next
    case False
    with Cons.prems Cons.IH [of c] show ?thesis by (auto simp: ticket_of_def)
  qed
qed

lemma total_tickets_exact: "tickets_ok ps \<Longrightarrow> sint (count_tickets ps 0) = ticket_sum ps"
  using count_tickets_exact [of ps 0] by (auto simp: tickets_ok_def)

subsection \<open>Which draws select which process\<close>

lemma find_winner_iff:
  assumes "\<forall>p \<in> set ps. state p = RUNNABLE \<longrightarrow> 1 \<le> sint (tickets p)"
    and "0 \<le> sint c" and "sint c + ticket_sum ps < 2 ^ 31" and "sint c \<le> sint w"
  shows "find_winner ps i w c = Some j \<longleftrightarrow>
    (\<exists>k < length ps. j = i + k \<and> state (ps ! k) = RUNNABLE \<and>
       sint c + ticket_sum (take k ps) \<le> sint w \<and>
       sint w < sint c + ticket_sum (take (Suc k) ps))"
  using assms
proof (induction ps arbitrary: i c)
  case Nil
  then show ?case by simp
next
  case (Cons p ps)
  let ?Q = "\<lambda>k. j = i + k \<and> state ((p # ps) ! k) = RUNNABLE \<and>
       sint c + ticket_sum (take k (p # ps)) \<le> sint w \<and>
       sint w < sint c + ticket_sum (take (Suc k) (p # ps))"
  have sums: "0 \<le> ticket_sum ps" "\<And>k. 0 \<le> ticket_sum (take k ps)"
    using Cons.prems(1) by (auto intro!: ticket_sum_nonneg dest: in_set_takeD)
  have split: "(\<exists>k < length (p # ps). ?Q k) \<longleftrightarrow> ?Q 0 \<or> (\<exists>k < length ps. ?Q (Suc k))"
    by (auto simp: less_Suc_eq_0_disj)
  show ?case
  proof (cases "state p = RUNNABLE")
    case True
    let ?c = "c + tickets p"
    from True Cons.prems sums have c: "sint ?c = sint c + sint (tickets p)"
      by (intro sint_add_no_overflow) (auto simp: ticket_of_def)
    show ?thesis
    proof (cases "w <s ?c")
      case sel: True
      have "\<not> ?Q (Suc k)" for k
        using sel c True sums(2) [of k] by (auto simp: word_sless_alt ticket_of_def)
      with sel c True Cons.prems show ?thesis
        unfolding split by (auto simp: word_sless_alt ticket_of_def Let_def)
    next
      case pass: False
      with c Cons.prems True
      have "find_winner ps (Suc i) w ?c = Some j \<longleftrightarrow>
        (\<exists>k < length ps. j = Suc i + k \<and> state (ps ! k) = RUNNABLE \<and>
          sint ?c + ticket_sum (take k ps) \<le> sint w \<and>
          sint w < sint ?c + ticket_sum (take (Suc k) ps))"
        by (intro Cons.IH) (auto simp: word_sless_alt ticket_of_def)
      with pass c True show ?thesis
        unfolding split by (auto simp: word_sless_alt ticket_of_def Let_def algebra_simps)
    qed
  next
    case False
    with Cons.prems Cons.IH [of c "Suc i"] show ?thesis
      unfolding split by (auto simp: ticket_of_def)
  qed
qed

text \<open>Below the first running sum, the first RUNNABLE process wins.\<close>

lemma find_winner_first:
  assumes "k < length ps" "state (ps ! k) = RUNNABLE" "\<forall>m < k. state (ps ! m) \<noteq> RUNNABLE"
    and "sint w < sint (c + tickets (ps ! k))"
  shows "find_winner ps i w c = Some (i + k)"
  using assms
proof (induction ps arbitrary: i k)
  case Nil
  then show ?case by simp
next
  case (Cons p ps)
  show ?case
  proof (cases k)
    case 0
    with Cons.prems show ?thesis by (simp add: word_sless_alt Let_def)
  next
    case (Suc k')
    with Cons.prems(3) have "state p \<noteq> RUNNABLE" by auto
    moreover have "\<forall>m < k'. state (ps ! m) \<noteq> RUNNABLE"
      using Cons.prems(3) Suc by auto
    ultimately show ?thesis
      using Cons.IH [of k' "Suc i"] Cons.prems Suc by simp
  qed
qed

lemma find_winner_SomeD:
  "find_winner ps i w c = Some j \<Longrightarrow>
    i \<le> j \<and> j < i + length ps \<and> state (ps ! (j - i)) = RUNNABLE"
proof (induction ps arbitrary: i c)
  case Nil
  then show ?case by simp
next
  case (Cons p ps)
  show ?case
  proof (cases "find_winner ps (Suc i) w c = Some j \<or> find_winner ps (Suc i) w (c + tickets p) = Some j")
    case True
    then have "Suc i \<le> j \<and> j < Suc i + length ps \<and> state (ps ! (j - Suc i)) = RUNNABLE"
      using Cons.IH by blast
    then show ?thesis by (cases "j - i") (auto simp: diff_Suc split: nat.splits)
  next
    case False
    with Cons.prems show ?thesis by (auto simp: Let_def split: if_splits)
  qed
qed

lemma ticket_sum_take_le:
  assumes "tickets_ok ps" "k \<le> length ps"
  shows "0 \<le> ticket_sum (take k ps)" "ticket_sum (take k ps) \<le> ticket_sum ps"
proof -
  have "\<forall>p \<in> set ps. state p = RUNNABLE \<longrightarrow> 1 \<le> sint (tickets p)"
    using assms by (simp add: tickets_ok_def)
  then have "0 \<le> ticket_sum (take k ps)" "0 \<le> ticket_sum (drop k ps)"
    by (auto intro!: ticket_sum_nonneg dest: in_set_takeD in_set_dropD)
  moreover have "ticket_sum ps = ticket_sum (take k ps) + ticket_sum (drop k ps)"
    by (metis append_take_drop_id ticket_sum_simps(3))
  ultimately show "0 \<le> ticket_sum (take k ps)" "ticket_sum (take k ps) \<le> ticket_sum ps"
    by auto
qed

text \<open>
  The winning numbers of process \<open>i\<close> are the interval between the ticket sums before and
  after it.
\<close>

lemma winner_interval:
  assumes ok: "tickets_ok ps" and "0 \<le> w" "w < ticket_sum ps" "i < length ps"
  shows "find_winner ps 0 (word_of_int w) 0 = Some i \<longleftrightarrow>
    state (ps ! i) = RUNNABLE \<and> ticket_sum (take i ps) \<le> w \<and> w < ticket_sum (take (Suc i) ps)"
proof -
  have w: "sint (word_of_int w :: 32 word) = w"
    using assms by (intro sint_word_of_int_id) (auto simp: tickets_ok_def)
  have "find_winner ps 0 (word_of_int w) 0 = Some i \<longleftrightarrow>
    (\<exists>k < length ps. i = 0 + k \<and> state (ps ! k) = RUNNABLE \<and>
       sint (0 :: 32 word) + ticket_sum (take k ps) \<le> sint (word_of_int w :: 32 word) \<and>
       sint (word_of_int w :: 32 word) < sint (0 :: 32 word) + ticket_sum (take (Suc k) ps))"
    using assms w by (intro find_winner_iff) (auto simp: tickets_ok_def)
  then show ?thesis using \<open>i < length ps\<close> by (auto simp: w)
qed

lemma find_winner_total:
  assumes ok: "tickets_ok ps" and run: "i < length ps" "state (ps ! i) = RUNNABLE"
    and w: "sint w < ticket_sum ps"
  shows "\<exists>j. find_winner ps 0 w 0 = Some j"
proof -
  obtain k where k: "k < length ps" "state (ps ! k) = RUNNABLE"
      "\<forall>m < k. state (ps ! m) \<noteq> RUNNABLE"
    using first_index_ex [of i ps "\<lambda>p. state p = RUNNABLE"] run by blast
  show ?thesis
  proof (cases "sint w < 0")
    case True
    with ok k(1,2) have "sint w < sint (0 + tickets (ps ! k))" by (auto simp: tickets_ok_def)
    from find_winner_first [OF k this, of 0] show ?thesis by auto
  next
    case False
    let ?P = "\<lambda>n. sint w < ticket_sum (take n ps)"
    define n where "n = (LEAST n. ?P n)"
    have Pl: "?P (length ps)" using w by simp
    then have Pn: "?P n" unfolding n_def by (rule LeastI)
    have nl: "n \<le> length ps" unfolding n_def using Pl by (rule Least_le)
    from Pn False obtain m where m: "n = Suc m" by (cases n) auto
    then have lt: "m < length ps" using nl by simp
    have "\<not> ?P m" using not_less_Least [of m ?P] m unfolding n_def by auto
    moreover have "ticket_sum (take (Suc m) ps) = ticket_sum (take m ps) + ticket_of (ps ! m)"
      using lt by (simp add: take_Suc_conv_app_nth)
    ultimately have "ticket_of (ps ! m) > 0" using Pn m by auto
    then have "state (ps ! m) = RUNNABLE" by (auto simp: ticket_of_def split: if_splits)
    with winner_interval [OF ok, of "sint w" m] w False \<open>\<not> ?P m\<close> Pn m lt
    show ?thesis by auto
  qed
qed

lemma runnable_ticket_sum_pos:
  assumes "tickets_ok ps" "i < length ps" "state (ps ! i) = RUNNABLE"
  shows "0 < ticket_sum ps"
proof -
  have "ticket_sum (take (Suc i) ps) = ticket_sum (take i ps) + ticket_of (ps ! i)"
    using assms(2) by (simp add: take_Suc_conv_app_nth)
  moreover have "1 \<le> ticket_of (ps ! i)" using assms by (auto simp: tickets_ok_def ticket_of_def)
  ultimately show ?thesis
    using ticket_sum_take_le [OF assms(1), of i] ticket_sum_take_le [OF assms(1), of "Suc i"] assms(2)
    by auto
qed

lemma sint_c_rem:
  assumes "0 < sint b"
  shows "sint (c_rem a b) = sint a smod sint b"
  unfolding c_rem_def
  using smod_pos_bounds [OF assms, of "sint a"] sint_range [of b]
  by (intro sint_word_of_int_id) auto

lemma lottery_total:
  assumes "tickets_ok ps" "i < length ps" "state (ps ! i) = RUNNABLE"
  shows "\<exists>j. lottery ps r = Some j \<and> j < length ps \<and> state (ps ! j) = RUNNABLE"
proof -
  have tot: "sint (count_tickets ps 0) = ticket_sum ps" "0 < ticket_sum ps"
    using assms total_tickets_exact runnable_ticket_sum_pos by auto
  then have "sint (c_rem r (count_tickets ps 0)) < ticket_sum ps"
    using smod_pos_bounds(2) [of "ticket_sum ps"] by (simp add: sint_c_rem)
  then obtain j where "find_winner ps 0 (c_rem r (count_tickets ps 0)) 0 = Some j"
    using find_winner_total [OF assms] by blast
  with find_winner_SomeD [OF this] tot show ?thesis
    by (auto simp: lottery_def word_sless_alt Let_def)
qed

subsection \<open>The scheduler's properties\<close>

text \<open>
  C1. Proportional share. When every RUNNABLE process holds a ticket and the ticket sum fits an
  \<^verbatim>\<open>int\<close>, exactly as many of the \<open>total\<close> winning numbers select process \<open>i\<close> as it holds tickets.
\<close>

theorem lottery_proportional:
  assumes "tickets_ok ps" and "i < length ps" and "state (ps ! i) = RUNNABLE"
  shows "card {w. 0 \<le> w \<and> w < sint (count_tickets ps 0) \<and>
      find_winner ps 0 (word_of_int w) 0 = Some i} = nat (sint (tickets (ps ! i)))"
proof -
  let ?a = "ticket_sum (take i ps)" and ?b = "ticket_sum (take (Suc i) ps)"
  have b: "?b = ?a + sint (tickets (ps ! i))"
    using assms by (simp add: take_Suc_conv_app_nth ticket_of_def)
  have range: "0 \<le> ?a" "?b \<le> ticket_sum ps"
    using ticket_sum_take_le [OF assms(1), of i] ticket_sum_take_le [OF assms(1), of "Suc i"]
      assms(2) by auto
  have "{w. 0 \<le> w \<and> w < sint (count_tickets ps 0) \<and>
      find_winner ps 0 (word_of_int w) 0 = Some i} = {?a ..< ?b}"
    using range assms winner_interval [OF assms(1) _ _ assms(2)]
    by (auto simp: total_tickets_exact)
  then show ?thesis by (simp add: b)
qed

definition sample_procs :: "proc list" where
  "sample_procs =
     [proc_zero\<lparr>state := RUNNABLE, tickets := 3\<rparr>, proc_zero\<lparr>state := SLEEPING, tickets := 9\<rparr>,
      proc_zero\<lparr>state := RUNNABLE, tickets := 5\<rparr>]"

lemma sample_procs_ok: "tickets_ok sample_procs"
  by (simp add: tickets_ok_def sample_procs_def ticket_of_def)

lemma lottery_proportional_witness:
  "card {w. 0 \<le> w \<and> w < sint (count_tickets sample_procs 0) \<and>
      find_winner sample_procs 0 (word_of_int w) 0 = Some 2} = 5"
  using lottery_proportional [OF sample_procs_ok, of 2] by (simp add: sample_procs_def)



lemma card_nonpos_words: "card {r :: 32 word. sint r \<le> 0} = 2 ^ 31 + 1"
proof -
  have "bij_betw (word_of_int :: int \<Rightarrow> 32 word) {- (2 ^ 31) .. 0} {r. sint r \<le> 0}"
  proof (rule bij_betw_byWitness [where f' = sint])
    show "\<forall>a \<in> {- (2 ^ 31) .. 0}. sint (word_of_int a :: 32 word) = a"
      by (auto intro!: sint_word_of_int_id)
    show "\<forall>a' \<in> {r :: 32 word. sint r \<le> 0}. word_of_int (sint a') = a'" by simp
    show "word_of_int ` {- (2 ^ 31) .. 0} \<subseteq> {r :: 32 word. sint r \<le> 0}"
      by (auto simp: sint_word_of_int_id)
    show "sint ` {r :: 32 word. sint r \<le> 0} \<subseteq> {- (2 ^ 31) .. 0}"
      using sint_range(1) by auto
  qed
  from bij_betw_same_card [OF this] show ?thesis by simp
qed

lemma lottery_nonpos_first:
  assumes ok: "tickets_ok ps" and k: "k < length ps" "state (ps ! k) = RUNNABLE"
      "\<forall>m < k. state (ps ! m) \<noteq> RUNNABLE"
    and r: "sint r \<le> 0"
  shows "lottery ps r = Some k"
proof -
  have tot: "sint (count_tickets ps 0) = ticket_sum ps" "0 < ticket_sum ps"
    using assms total_tickets_exact runnable_ticket_sum_pos by auto
  then have "sint (c_rem r (count_tickets ps 0)) \<le> 0"
    using r smod_int_compares(4) by (simp add: sint_c_rem)
  moreover have "1 \<le> sint (tickets (ps ! k))" using ok k by (auto simp: tickets_ok_def)
  ultimately show ?thesis
    using find_winner_first [OF k, of _ 0 0] tot by (auto simp: lottery_def Let_def word_sless_alt)
qed

text \<open>
  C9. The draw is biased. \<^verbatim>\<open>random()\<close> returns a signed \<^verbatim>\<open>int\<close> and C's remainder of a negative number
  is not positive, so the first RUNNABLE process of the table wins for more than half of the
  \<open>2^32\<close> values that \<^verbatim>\<open>random()\<close> can return, however few of the tickets it holds.
\<close>

theorem lottery_bias_first:
  assumes "tickets_ok ps" and "k < length ps" and "state (ps ! k) = RUNNABLE"
    and "\<forall>m < k. state (ps ! m) \<noteq> RUNNABLE"
  shows "2 ^ 31 < card {r. lottery ps r = Some k}"
proof -
  have "{r :: 32 word. sint r \<le> 0} \<subseteq> {r. lottery ps r = Some k}"
    using lottery_nonpos_first [OF assms] by blast
  then have "card {r :: 32 word. sint r \<le> 0} \<le> card {r. lottery ps r = Some k}"
    by (intro card_mono) simp_all
  then show ?thesis by (simp add: card_nonpos_words)
qed

definition bias_procs :: "proc list" where
  "bias_procs =
     [proc_zero\<lparr>state := RUNNABLE, tickets := 1\<rparr>, proc_zero\<lparr>state := RUNNABLE, tickets := 1000\<rparr>]"

lemma lottery_bias_first_witness: "2 ^ 31 < card {r. lottery bias_procs r = Some 0}"
proof -
  have "tickets_ok bias_procs" by (simp add: tickets_ok_def bias_procs_def ticket_of_def)
  then show ?thesis using lottery_bias_first [of bias_procs 0] by (simp add: bias_procs_def)
qed

text \<open>The generator reaches such values at once: the third draw after boot is negative.\<close>

lemma random_third_draw_negative:
  "sint (fst (random (snd (random (snd (random 1)))))) < 0"
  by (simp add: random_def Let_def)

lemma count_tickets_sum:
  "count_tickets ps c = c + (\<Sum>k < length ps. if state (ps ! k) = RUNNABLE then tickets (ps ! k) else 0)"
proof (induction ps arbitrary: c)
  case Nil
  then show ?case by simp
next
  case (Cons p ps)
  show ?case
    by (simp add: Cons.IH sum.lessThan_Suc_shift del: sum.lessThan_Suc cong: if_cong)
qed

text \<open>
  C10. Ticket overflow. \<^verbatim>\<open>sys_settickets\<close> accepts any positive count, and the first pass adds the
  counts in an \<^verbatim>\<open>int\<close>. With two RUNNABLE processes of \<open>2^30\<close> tickets each, the sum wraps to a
  negative number and the scheduler runs nothing: it idles although both could run.
\<close>

theorem lottery_overflow_idles:
  assumes "i < length (procs s)" and "j < length (procs s)" and "i \<noteq> j"
    and "\<forall>k < length (procs s). state (procs s ! k) = RUNNABLE \<longleftrightarrow> k = i \<or> k = j"
    and "tickets (procs s ! i) = 0x40000000" and "tickets (procs s ! j) = 0x40000000"
  shows "scheduler_dispatch s = (False, s)"
proof -
  let ?f = "\<lambda>k. if state (procs s ! k) = RUNNABLE then tickets (procs s ! k) else (0 :: 32 word)"
  have "sum ?f {..< length (procs s)} = sum ?f {i, j}"
    using assms by (intro sum.mono_neutral_right) auto
  also have "\<dots> = 0x80000000" using assms by simp
  finally have "count_tickets (procs s) 0 = 0x80000000" by (simp add: count_tickets_sum)
  then show ?thesis by (simp add: scheduler_dispatch_def word_sless_alt)
qed

definition big_tickets_state :: kproc where
  "big_tickets_state = (kproc_zero 0x80020000)\<lparr>procs :=
     replicate 2 (proc_zero\<lparr>state := RUNNABLE, tickets := 0x40000000\<rparr>) @ replicate 62 proc_zero\<rparr>"

lemma lottery_overflow_idles_witness:
  "scheduler_dispatch big_tickets_state = (False, big_tickets_state)"
proof (rule lottery_overflow_idles [of 0 _ 1])
  show "\<forall>k < length (procs big_tickets_state).
      state (procs big_tickets_state ! k) = RUNNABLE \<longleftrightarrow> k = 0 \<or> k = 1"
    by (auto simp: big_tickets_state_def nth_append less_Suc_eq proc_zero_def)
qed (simp_all add: big_tickets_state_def nth_append)

end
