(* ===== verification/Sharedbuf.thy ===== *)
theory Sharedbuf
  imports Ring_Buffer
begin

section \<open>The shared producer-consumer buffer\<close>

text \<open>
  The kernel-wide buffer \<^verbatim>\<open>sharedbuf\<close> of \<^verbatim>\<open>kernel/sysproc.c\<close> and the locked sections of its
  system calls. The invariant ties the indices, the count and the two totals together; the
  refinement says that the array is a first-in first-out queue of at most ten items.
  The system calls around these sections (arguments and copying to user space) are in the
  theory of \<^verbatim>\<open>sysproc.c\<close>.
\<close>

abbreviation BUFFER_SIZE :: cint where "BUFFER_SIZE \<equiv> 10"

record sharedbuf =
  sb_buffer :: "cint list"
  sb_count :: cint
  sb_in :: cint
  sb_out :: cint
  sb_initialized :: cint
  sb_produced_total :: cint
  sb_consumed_total :: cint

text \<open>The static object is zero.\<close>

definition sharedbuf_zero :: sharedbuf where
  "sharedbuf_zero =
     \<lparr>sb_buffer = replicate 10 0, sb_count = 0, sb_in = 0, sb_out = 0, sb_initialized = 0,
      sb_produced_total = 0, sb_consumed_total = 0\<rparr>"

definition buffer_init :: "sharedbuf \<Rightarrow> u64 \<times> sharedbuf" where
  "buffer_init sb =
     (0, sb\<lparr>sb_buffer := map (\<lambda>_. 0) (sb_buffer sb), sb_count := 0, sb_in := 0, sb_out := 0,
           sb_produced_total := 0, sb_consumed_total := 0, sb_initialized := 1\<rparr>)"

definition produce :: "cint \<Rightarrow> sharedbuf \<Rightarrow> u64 \<times> sharedbuf" where
  "produce item sb =
     (if sb_initialized sb = 0 then (- 2, sb)
      else if BUFFER_SIZE \<le>s sb_count sb then (- 1, sb)
      else
        (0, sb\<lparr>sb_buffer := (sb_buffer sb)[nat (sint (sb_in sb)) := item],
              sb_in := c_rem (sb_in sb + 1) BUFFER_SIZE,
              sb_count := sb_count sb + 1,
              sb_produced_total := sb_produced_total sb + 1\<rparr>))"

text \<open>
  The locked section of \<^verbatim>\<open>sys_consume\<close>: an error code, or the item that is then copied to the
  caller after the lock has been released.
\<close>

definition consume :: "sharedbuf \<Rightarrow> (u64 + cint) \<times> sharedbuf" where
  "consume sb =
     (if sb_initialized sb = 0 then (Inl (- 2), sb)
      else if sb_count sb \<le>s 0 then (Inl (- 1), sb)
      else
        (Inr (sb_buffer sb ! nat (sint (sb_out sb))),
         sb\<lparr>sb_out := c_rem (sb_out sb + 1) BUFFER_SIZE,
            sb_count := sb_count sb - 1,
            sb_consumed_total := sb_consumed_total sb + 1\<rparr>))"

definition buffer_status :: "sharedbuf \<Rightarrow> cint \<times> cint \<times> cint" where
  "buffer_status sb = (sb_count sb, sb_produced_total sb, sb_consumed_total sb)"

subsection \<open>Invariant and abstraction\<close>

text \<open>
  The count is the difference of the totals (as 32-bit words, so also after they wrap), the
  indices stay inside the array and \<open>in\<close> is \<open>count\<close> places after \<open>out\<close>.
\<close>

definition sharedbuf_inv :: "sharedbuf \<Rightarrow> bool" where
  "sharedbuf_inv sb \<longleftrightarrow>
     length (sb_buffer sb) = 10 \<and> unat (sb_count sb) \<le> 10 \<and> unat (sb_out sb) < 10 \<and>
     unat (sb_in sb) = (unat (sb_out sb) + unat (sb_count sb)) mod 10 \<and>
     sb_produced_total sb - sb_consumed_total sb = sb_count sb"

definition sharedbuf_items :: "sharedbuf \<Rightarrow> cint list" where
  "sharedbuf_items sb =
     ring_view 10 ((!) (sb_buffer sb)) (unat (sb_out sb)) (unat (sb_count sb))"

lemma sharedbuf_bounds:
  assumes "sharedbuf_inv sb"
  shows "unat (sb_count sb) < 2 ^ 31" "unat (sb_out sb) < 2 ^ 31" "unat (sb_in sb) < 2 ^ 31"
    "unat (sb_in sb) < 10"
proof -
  have b: "unat (sb_count sb) \<le> 10" "unat (sb_out sb) < 10" "unat (sb_in sb) < 10"
    using assms by (auto simp: sharedbuf_inv_def)
  then show "unat (sb_count sb) < 2 ^ 31" "unat (sb_out sb) < 2 ^ 31" "unat (sb_in sb) < 2 ^ 31"
    "unat (sb_in sb) < 10" by simp_all
qed

text \<open>Stepping an index around the array.\<close>

lemma ring_step:
  assumes "unat i < 10"
  shows "unat (c_rem (i + 1) BUFFER_SIZE) = Suc (unat i) mod 10"
proof -
  have u: "unat (i + 1) = Suc (unat i)" using assms by (simp add: unat_add_small)
  then have "sint (i + 1) = int (Suc (unat i))" using assms by (subst sint_eq_unat) simp_all
  then have "sint (i + 1) smod sint BUFFER_SIZE = int (Suc (unat i)) mod 10"
    by (simp add: smod_mod_positive)
  then have "c_rem (i + 1) BUFFER_SIZE = word_of_int (int (Suc (unat i) mod 10))"
    by (simp add: c_rem_def zmod_int)
  then show ?thesis by (simp add: unat_of_nat take_bit_nat_eq_self)
qed

lemma produce_room:
  assumes inv: "sharedbuf_inv sb" and init: "sb_initialized sb \<noteq> 0"
    and room: "unat (sb_count sb) < 10"
  shows "\<exists>sb'. produce item sb = (0, sb') \<and> sharedbuf_inv sb' \<and> sb_initialized sb' \<noteq> 0 \<and>
    sharedbuf_items sb' = sharedbuf_items sb @ [item]"
proof -
  note s = sharedbuf_bounds [OF inv]
  have c: "unat (sb_count sb + 1) = Suc (unat (sb_count sb))" using room by (simp add: unat_add_small)
  have inn: "unat (sb_in sb) = (unat (sb_out sb) + unat (sb_count sb)) mod 10"
    "length (sb_buffer sb) = 10" using inv by (simp_all add: sharedbuf_inv_def)
  have nf: "\<not> BUFFER_SIZE \<le>s sb_count sb" using room s by (simp add: sle_small)
  let ?sb = "sb\<lparr>sb_buffer := (sb_buffer sb)[nat (sint (sb_in sb)) := item],
              sb_in := c_rem (sb_in sb + 1) BUFFER_SIZE, sb_count := sb_count sb + 1,
              sb_produced_total := sb_produced_total sb + 1\<rparr>"
  have "sharedbuf_inv ?sb"
    using inv room s(4) by (simp add: sharedbuf_inv_def c ring_step mod_Suc_eq)
  moreover have "sharedbuf_items ?sb = sharedbuf_items sb @ [item]"
    using ring_view_list_push [OF room inn(2), of "unat (sb_out sb)" item] s inn(1)
    by (simp add: sharedbuf_items_def c nat_sint_small)
  ultimately show ?thesis using init nf by (simp add: produce_def)
qed

lemma produce_full:
  assumes "sharedbuf_inv sb" "sb_initialized sb \<noteq> 0" "unat (sb_count sb) = 10"
  shows "produce item sb = (- 1, sb)"
  using assms sharedbuf_bounds [OF assms(1)] by (simp add: produce_def sle_small)

lemma consume_items:
  assumes inv: "sharedbuf_inv sb" and init: "sb_initialized sb \<noteq> 0"
    and items: "sharedbuf_items sb = x # xs"
  shows "\<exists>sb'. consume sb = (Inr x, sb') \<and> sharedbuf_inv sb' \<and> sb_initialized sb' \<noteq> 0 \<and>
    sharedbuf_items sb' = xs"
proof -
  note s = sharedbuf_bounds [OF inv]
  obtain n where n: "unat (sb_count sb) = Suc n"
    using items by (cases "unat (sb_count sb)") (auto simp: sharedbuf_items_def)
  have c: "unat (sb_count sb - 1) = n" using n by (subst unat_sub_small) simp_all
  have out: "unat (sb_out sb) < 10" using inv by (simp add: sharedbuf_inv_def)
  have ne: "\<not> sb_count sb \<le>s 0" using s n by (simp add: sle_small)
  let ?sb = "sb\<lparr>sb_out := c_rem (sb_out sb + 1) BUFFER_SIZE, sb_count := sb_count sb - 1,
            sb_consumed_total := sb_consumed_total sb + 1\<rparr>"
  have "sharedbuf_inv ?sb"
    using inv out n by (simp add: sharedbuf_inv_def c ring_step mod_simps)
  moreover have "sharedbuf_items sb = sb_buffer sb ! unat (sb_out sb) # sharedbuf_items ?sb"
    using out by (simp add: sharedbuf_items_def n c ring_step ring_view_pop)
  ultimately show ?thesis
    using init ne items s by (simp add: consume_def nat_sint_small)
qed

lemma consume_empty:
  assumes "sharedbuf_inv sb" "sb_initialized sb \<noteq> 0" "sharedbuf_items sb = []"
  shows "consume sb = (Inl (- 1), sb)"
proof -
  have "unat (sb_count sb) = 0" using assms(3) by (metis length_0_conv length_ring_view sharedbuf_items_def)
  then show ?thesis
    using assms sharedbuf_bounds [OF assms(1)] by (simp add: consume_def sle_small)
qed

subsection \<open>The buffer is a bounded queue\<close>

text \<open>The calls seen as queue operations: a call that returns an error code changes nothing.\<close>

definition sb_push :: "cint \<Rightarrow> sharedbuf \<Rightarrow> sharedbuf option" where
  "sb_push item sb = (case produce item sb of (r, sb') \<Rightarrow> if r = 0 then Some sb' else None)"

definition sb_pop :: "sharedbuf \<Rightarrow> (cint \<times> sharedbuf) option" where
  "sb_pop sb = (case consume sb of (Inl _, _) \<Rightarrow> None | (Inr item, sb') \<Rightarrow> Some (item, sb'))"

definition sharedbuf_ready :: "sharedbuf \<Rightarrow> bool" where
  "sharedbuf_ready sb \<longleftrightarrow> sharedbuf_inv sb \<and> sb_initialized sb \<noteq> 0"

lemma length_sharedbuf_items [simp]: "length (sharedbuf_items sb) = unat (sb_count sb)"
  by (simp add: sharedbuf_items_def)

interpretation sbq: bounded_fifo sharedbuf_ready sharedbuf_items 10 sb_push sb_pop
proof unfold_locales
  fix sb x
  assume r: "sharedbuf_ready sb"
  show "length (sharedbuf_items sb) \<le> 10"
    using r by (simp add: sharedbuf_ready_def sharedbuf_inv_def)
  show "\<exists>sb'. sb_push x sb = Some sb' \<and> sharedbuf_ready sb' \<and>
      sharedbuf_items sb' = sharedbuf_items sb @ [x]" if "length (sharedbuf_items sb) < 10"
    using produce_room [of sb x] r that by (auto simp: sharedbuf_ready_def sb_push_def)
  show "sb_push x sb = None" if "length (sharedbuf_items sb) = 10"
    using produce_full [of sb x] r that by (auto simp: sharedbuf_ready_def sb_push_def)
next
  fix sb y ys
  assume "sharedbuf_ready sb" "sharedbuf_items sb = y # ys"
  then show "\<exists>sb'. sb_pop sb = Some (y, sb') \<and> sharedbuf_ready sb' \<and> sharedbuf_items sb' = ys"
    using consume_items [of sb y ys] by (auto simp: sharedbuf_ready_def sb_pop_def)
next
  fix sb
  assume "sharedbuf_ready sb" "sharedbuf_items sb = []"
  then show "sb_pop sb = None"
    using consume_empty [of sb] by (auto simp: sharedbuf_ready_def sb_pop_def)
qed

lemma buffer_init_ready:
  assumes "length (sb_buffer sb) = 10"
  shows "sharedbuf_ready (snd (buffer_init sb))" "sharedbuf_items (snd (buffer_init sb)) = []"
  using assms
  by (simp_all add: buffer_init_def sharedbuf_ready_def sharedbuf_inv_def sharedbuf_items_def)





end
