(* ===== verification/Sysproc.thy ===== *)
theory Sysproc
  imports Proc_Life Lottery Sharedbuf
begin

section \<open>System calls on processes and memory\<close>

text \<open>
  \<^verbatim>\<open>kernel/sysproc.c\<close> and the functions of \<^verbatim>\<open>syscall.c\<close> that fetch arguments: the trapframe of the current
  process is in physical memory, so an argument is a read of memory. The locked sections of the
  producer-consumer calls are those of the theory of the shared buffer.
\<close>

subsection \<open>Arguments\<close>

record ksys = kfile +
  shbuf :: sharedbuf

definition fetchaddr :: "u64 \<Rightarrow> 'a kproc_scheme \<Rightarrow> (cint \<times> u64 \<times> 'a kproc_scheme) option" where
  "fetchaddr addr s =
     (case myproc s of None \<Rightarrow> panic ''kerneltrap''
      | Some i \<Rightarrow>
        let n = sz (procs s ! i) in
        if addr \<ge> n \<or> addr + 8 > n then Some (- 1, 0, s)
        else do {
          (r, bs, s) \<leftarrow> copyin (pagetable (procs s ! i)) addr 8 s;
          Some (if r \<noteq> 0 then - 1 else 0, le_word bs, s) })"

text \<open>The string is returned with the length; the state does not change.\<close>

definition fetchstr :: "u64 \<Rightarrow> nat \<Rightarrow> 'a kproc_scheme \<Rightarrow> (cint \<times> u8 list) option" where
  "fetchstr addr mx s =
     (case myproc s of None \<Rightarrow> panic ''kerneltrap''
      | Some i \<Rightarrow> do {
          (r, str) \<leftarrow> copyinstr (pagetable (procs s ! i)) addr mx s;
          Some (if r <s 0 then - 1 else of_nat (length str), str) })"

definition argraw :: "nat \<Rightarrow> 'a kproc_scheme \<Rightarrow> u64 option" where
  "argraw n s =
     (case myproc s of None \<Rightarrow> panic ''kerneltrap''
      | Some i \<Rightarrow>
        if n = 0 then Some (tf_get s i A0) else if n = 1 then Some (tf_get s i A1) else if n = 2 then Some (tf_get s i A2)
        else if n = 3 then Some (tf_get s i A3) else if n = 4 then Some (tf_get s i A4) else if n = 5 then Some (tf_get s i A5)
        else panic ''argraw'')"

definition argint :: "nat \<Rightarrow> 'a kproc_scheme \<Rightarrow> cint option" where
  "argint n s = map_option ucast (argraw n s)"

definition argaddr :: "nat \<Rightarrow> 'a kproc_scheme \<Rightarrow> u64 option" where
  "argaddr n s = argraw n s"

definition argstr :: "nat \<Rightarrow> nat \<Rightarrow> 'a kproc_scheme \<Rightarrow> (cint \<times> u8 list) option" where
  "argstr n mx s = do { addr \<leftarrow> argaddr n s; fetchstr addr mx s }"

text \<open>
  The result of a system call: the value for register \<^verbatim>\<open>a0\<close>, or the channel it sleeps on and what it
  continues with, or the switch to the scheduler of a process that has exited.
\<close>

datatype slocals = LWait | LPause u32 cint | LFile nat u64 cint flocals

datatype sysres = Ret u64 | Wait chan slocals | Gone

definition ret_int :: "cint \<Rightarrow> sysres" where
  "ret_int r = Ret (scast r)"

subsection \<open>Processes\<close>

definition sys_exit :: "swtch_context \<Rightarrow> 'a ksys_scheme \<Rightarrow> (sysres \<times> 'a ksys_scheme) option" where
  "sys_exit regs s = do { n \<leftarrow> argint 0 s; (_, _, s) \<leftarrow> kexit n regs s; Some (Gone, s) }"

definition sys_getpid :: "'a ksys_scheme \<Rightarrow> (sysres \<times> 'a ksys_scheme) option" where
  "sys_getpid s = (case myproc s of None \<Rightarrow> panic ''kerneltrap'' | Some i \<Rightarrow> Some (ret_int (pid (procs s ! i)), s))"

definition sys_fork :: "u64 \<Rightarrow> u64 \<Rightarrow> 'a ksys_scheme \<Rightarrow> (sysres \<times> 'a ksys_scheme) option" where
  "sys_fork tramp fkret s = do { (r, s) \<leftarrow> kfork tramp fkret s; Some (ret_int r, s) }"

definition sys_wait :: "'a ksys_scheme \<Rightarrow> (sysres \<times> 'a ksys_scheme) option" where
  "sys_wait s = do {
     p \<leftarrow> argaddr 0 s;
     (w, s) \<leftarrow> kwait p s;
     Some (case w of Returns r \<Rightarrow> ret_int r | Sleeps ch \<Rightarrow> Wait ch LWait, s) }"

definition sys_sbrk :: "'a ksys_scheme \<Rightarrow> (sysres \<times> 'a ksys_scheme) option" where
  "sys_sbrk s = do {
     n \<leftarrow> argint 0 s;
     t \<leftarrow> argint 1 s;
     case myproc s of None \<Rightarrow> panic ''kerneltrap''
     | Some i \<Rightarrow>
       let addr = sz (procs s ! i) in
       if t = 1 \<or> n <s 0 then do {
         (r, s) \<leftarrow> growproc n s;
         Some (if r <s 0 then Ret (- 1) else Ret addr, s) }
       else if addr + scast n < addr then Some (Ret (- 1), s)
       else if addr + scast n > TRAPFRAME then Some (Ret (- 1), s)
       else Some (Ret addr, upd_proc i (\<lambda>p. p\<lparr>sz := sz p + scast n\<rparr>) s) }"

text \<open>The loop of \<^verbatim>\<open>sys_pause\<close>, also after the process has been woken up.\<close>

definition pause_from :: "u32 \<Rightarrow> cint \<Rightarrow> 'a ksys_scheme \<Rightarrow> (sysres \<times> 'a ksys_scheme) option" where
  "pause_from ticks0 n s =
     (if ticks s - ticks0 < n then
        case myproc s of None \<Rightarrow> panic ''kerneltrap''
        | Some i \<Rightarrow> if is_killed i s \<noteq> 0 then Some (Ret (- 1), s) else Some (Wait ChTicks (LPause ticks0 n), s)
      else Some (Ret 0, s))"

definition sys_pause :: "'a ksys_scheme \<Rightarrow> (sysres \<times> 'a ksys_scheme) option" where
  "sys_pause s = do { n \<leftarrow> argint 0 s; pause_from (ticks s) (if n <s 0 then 0 else n) s }"

definition sys_kill :: "'a ksys_scheme \<Rightarrow> (sysres \<times> 'a ksys_scheme) option" where
  "sys_kill s = do { p \<leftarrow> argint 0 s; let (r, s) = kkill p s; Some (ret_int r, s) }"

definition sys_uptime :: "'a ksys_scheme \<Rightarrow> (sysres \<times> 'a ksys_scheme) option" where
  "sys_uptime s = Some (Ret (ucast (ticks s)), s)"

definition sys_settickets_call :: "'a ksys_scheme \<Rightarrow> (sysres \<times> 'a ksys_scheme) option" where
  "sys_settickets_call s = do { n \<leftarrow> argint 0 s; (r, s) \<leftarrow> sys_settickets n s; Some (Ret r, s) }"

subsection \<open>Memory statistics\<close>

definition sys_freemem :: "'a ksys_scheme \<Rightarrow> (sysres \<times> 'a ksys_scheme) option" where
  "sys_freemem s = Some (Ret (getfreepages s * PGSIZE), s)"

text \<open>Copying values to user addresses one after the other, up to the first failure.\<close>

fun copyout_all :: "nat \<Rightarrow> (u64 \<times> u8 list) list \<Rightarrow> 'a kproc_scheme \<Rightarrow> (cint \<times> 'a kproc_scheme) option" where
  "copyout_all i [] s = Some (0, s)"
| "copyout_all i ((a, bs) # xs) s = do {
     (r, s) \<leftarrow> copyout (pagetable (procs s ! i)) a bs s;
     if r <s 0 then Some (- 1, s) else copyout_all i xs s }"

definition sys_memstat :: "'a ksys_scheme \<Rightarrow> (sysres \<times> 'a ksys_scheme) option" where
  "sys_memstat s = do {
     fa \<leftarrow> argaddr 0 s;
     ta \<leftarrow> argaddr 1 s;
     let (freepages, totalalloc) = getmemstat s;
     case myproc s of None \<Rightarrow> panic ''kerneltrap''
     | Some i \<Rightarrow> do {
         (r, s) \<leftarrow> copyout_all i [(fa, le_bytes 8 freepages), (ta, le_bytes 8 totalalloc)] s;
         Some (ret_int r, s) } }"

subsection \<open>Encryption\<close>

abbreviation ENCRYPT_KEY :: u8 where "ENCRYPT_KEY \<equiv> 0x5A"

text \<open>The loop of \<^verbatim>\<open>sys_encrypt\<close> with \<open>left\<close> bytes to go at address \<open>addr\<close>; the result tells whether all were done.\<close>

function encrypt_loop :: "u64 \<Rightarrow> u64 \<Rightarrow> nat \<Rightarrow> 'a kproc_scheme \<Rightarrow> (bool \<times> 'a kproc_scheme) option" where
  "encrypt_loop pt addr left s =
     (if left = 0 then Some (True, s)
      else do {
        let chunk = min left 512;
        (r, buf, s) \<leftarrow> copyin pt addr chunk s;
        if r <s 0 then Some (False, s)
        else do {
          (r, s) \<leftarrow> copyout pt addr (map (\<lambda>c. c XOR ENCRYPT_KEY) buf) s;
          if r <s 0 then Some (False, s)
          else encrypt_loop pt (addr + of_nat chunk) (left - chunk) s } })"
  by pat_completeness auto
termination
  by (relation "measure (\<lambda>(pt, addr, left, s). left)") auto

declare encrypt_loop.simps [simp del]

text \<open>The call after its arguments have been fetched.\<close>

definition encrypt :: "u64 \<Rightarrow> cint \<Rightarrow> 'a kproc_scheme \<Rightarrow> (u64 \<times> 'a kproc_scheme) option" where
  "encrypt addr len s =
     (if len \<le>s 0 \<or> 4096 <s len then Some (- 1, s)
      else case myproc s of None \<Rightarrow> panic ''kerneltrap''
      | Some i \<Rightarrow> do {
          (all, s) \<leftarrow> encrypt_loop (pagetable (procs s ! i)) addr (nat (sint len)) s;
          Some (if all then scast len else - 1, s) })"

definition sys_encrypt :: "'a ksys_scheme \<Rightarrow> (sysres \<times> 'a ksys_scheme) option" where
  "sys_encrypt s = do { addr \<leftarrow> argaddr 0 s; len \<leftarrow> argint 1 s; (r, s) \<leftarrow> encrypt addr len s; Some (Ret r, s) }"

definition sys_decrypt :: "'a ksys_scheme \<Rightarrow> (sysres \<times> 'a ksys_scheme) option" where
  "sys_decrypt s = sys_encrypt s"

subsection \<open>The shared buffer\<close>

definition sys_buffer_init :: "'a ksys_scheme \<Rightarrow> (sysres \<times> 'a ksys_scheme) option" where
  "sys_buffer_init s = (let (r, b) = buffer_init (shbuf s) in Some (Ret r, s\<lparr>shbuf := b\<rparr>))"

definition sys_produce :: "'a ksys_scheme \<Rightarrow> (sysres \<times> 'a ksys_scheme) option" where
  "sys_produce s = do { item \<leftarrow> argint 0 s; let (r, b) = produce item (shbuf s); Some (Ret r, s\<lparr>shbuf := b\<rparr>) }"

definition sys_consume :: "'a ksys_scheme \<Rightarrow> (sysres \<times> 'a ksys_scheme) option" where
  "sys_consume s = do {
     addr \<leftarrow> argaddr 0 s;
     let (r, b) = consume (shbuf s);
     let s = s\<lparr>shbuf := b\<rparr>;
     case r of
       Inl e \<Rightarrow> Some (Ret e, s)
     | Inr item \<Rightarrow>
         (case myproc s of None \<Rightarrow> panic ''kerneltrap''
          | Some i \<Rightarrow> do {
              (r, s) \<leftarrow> copyout (pagetable (procs s ! i)) addr (le_bytes 4 item) s;
              Some (if r <s 0 then Ret (- 3) else Ret 0, s) }) }"

definition sys_buffer_status :: "'a ksys_scheme \<Rightarrow> (sysres \<times> 'a ksys_scheme) option" where
  "sys_buffer_status s = do {
     ca \<leftarrow> argaddr 0 s;
     pa \<leftarrow> argaddr 1 s;
     na \<leftarrow> argaddr 2 s;
     let (count, produced, consumed) = buffer_status (shbuf s);
     case myproc s of None \<Rightarrow> panic ''kerneltrap''
     | Some i \<Rightarrow> do {
         (r, s) \<leftarrow> copyout_all i [(ca, le_bytes 4 count), (pa, le_bytes 4 produced), (na, le_bytes 4 consumed)] s;
         Some (ret_int r, s) } }"

subsection \<open>What encryption does to user memory\<close>

text \<open>The view with \<open>k\<close> bytes at \<open>a\<close> encrypted.\<close>

definition enc_step ::
  "u64 \<Rightarrow> u64 \<Rightarrow> u64 \<Rightarrow> 'a machine_scheme \<Rightarrow> nodes \<Rightarrow> 'a machine_scheme \<Rightarrow> u64 list \<Rightarrow> nodes \<Rightarrow> u64 \<Rightarrow> nat \<Rightarrow> bool" where
  "enc_step e r n s nd s' fl' nd' a k \<longleftrightarrow>
     uspace_inv e s' fl' nd' r \<and> machine.more s' = machine.more s \<and>
     (\<forall>x. lview n (mem s') nd' x =
        (if in_range x a k then map_option (\<lambda>c. c XOR ENCRYPT_KEY) (lview n (mem s) nd x) else lview n (mem s) nd x)) \<and>
     (\<forall>va. PGROUNDDOWN va < MAXVA \<longrightarrow> wview (mem s') nd' va = wview (mem s) nd va) \<and>
     (\<forall>va. present (mem s) nd va \<longrightarrow> present (mem s') nd' va)"

lemma enc_step_rw: "enc_step e r n s nd s' fl' nd' a k \<Longrightarrow> rw_range n (mem s) nd b len \<Longrightarrow> rw_range n (mem s') nd' b len"
  by (rule rw_range_keep) (auto simp: enc_step_def)

lemma enc_step_trans:
  assumes 1: "enc_step e r n s nd s1 fl1 nd1 a i" and 2: "enc_step e r n s1 nd1 s2 fl2 nd2 (a + of_nat i) k" and "i + k < 2 ^ 64"
  shows "enc_step e r n s nd s2 fl2 nd2 a (i + k)"
proof -
  have "lview n (mem s2) nd2 x =
      (if in_range x a (i + k) then map_option (\<lambda>c. c XOR ENCRYPT_KEY) (lview n (mem s) nd x) else lview n (mem s) nd x)" for x
  proof -
    note sp = in_range_split [OF assms(3), of x a]
    have "\<not> (in_range x a i \<and> in_range x (a + of_nat i) k)" using sp(2) by (auto simp: in_range_def)
    then show ?thesis using 1 2 sp(1) unfolding enc_step_def by auto
  qed
  then show ?thesis using 1 2 unfolding enc_step_def by auto
qed

lemma encrypt_chunk:
  assumes inv: "uspace_inv e s fl nd r" "cur_space s r n" and rw: "rw_range n (mem s) nd a len" and len: "len < 2 ^ 64"
  shows "\<exists>bs s1 s2 fl2 nd2. copyin r a len s = Some (0, bs, s1) \<and> copyout r a (map (\<lambda>c. c XOR ENCRYPT_KEY) bs) s1 = Some (0, s2) \<and>
    enc_step e r n s nd s2 fl2 nd2 a len"
proof -
  obtain bs s1 fl1 nd1 where c: "copyin r a len s = Some (0, bs, s1)" "us_step e r n s fl nd s1 fl1 nd1" "length bs = len"
    "\<forall>k < len. lview n (mem s) nd (a + of_nat k) = Some (bs ! k)"
    using copyin_rw [OF inv rw] by blast
  let ?x = "map (\<lambda>c. c XOR ENCRYPT_KEY) bs"
  have i1: "uspace_inv e s1 fl1 nd1 r" "cur_space s1 r n" "rw_range n (mem s1) nd1 a (length ?x)" "length ?x < 2 ^ 64"
    using c(2,3) inv(2) cur_space_more [of s1 s] len us_step_rw [OF c(2) rw] by (auto simp: us_step_def)
  obtain s2 fl2 nd2 where o: "copyout r a ?x s1 = Some (0, s2)" "out_step e r n s1 fl1 nd1 s2 fl2 nd2 a ?x len"
    using copyout_rw [OF i1] c(3) by auto
  have "lview n (mem s2) nd2 x =
      (if in_range x a len then map_option (\<lambda>c. c XOR ENCRYPT_KEY) (lview n (mem s) nd x) else lview n (mem s) nd x)" for x
  proof (cases "in_range x a len")
    case True
    let ?k = "unat (x - a)"
    have k: "?k < len" "a + of_nat ?k = x" using True by (simp_all add: in_range_def)
    then have "lview n (mem s) nd x = Some (bs ! ?k)" using c(4) by auto
    then show ?thesis using o(2) True k(1) c(3) unfolding out_step_def by auto
  next
    case False
    then show ?thesis using o(2) c(2) unfolding out_step_def us_step_def by auto
  qed
  then have "enc_step e r n s nd s2 fl2 nd2 a len"
    using o(2) c(2) unfolding enc_step_def out_step_def us_step_def by auto
  then show ?thesis using c(1) o(1) by blast
qed

lemma encrypt_loop_correct:
  assumes "uspace_inv e s fl nd r" "cur_space s r n" "rw_range n (mem s) nd a len" "len < 2 ^ 64"
  shows "\<exists>s' fl' nd'. encrypt_loop r a len s = Some (True, s') \<and> enc_step e r n s nd s' fl' nd' a len"
  using assms
proof (induction len arbitrary: a s fl nd rule: less_induct)
  case (less len)
  show ?case
  proof (cases "len = 0")
    case True
    then have "enc_step e r n s nd s fl nd a len" using less.prems(1) by (simp add: enc_step_def in_range_def)
    then show ?thesis using True by (subst encrypt_loop.simps) auto
  next
    case False
    let ?c = "min len 512"
    have rw: "rw_range n (mem s) nd a ?c" using less.prems(3) by (simp add: rw_range_def)
    obtain bs s1 s2 fl2 nd2 where c: "copyin r a ?c s = Some (0, bs, s1)" "copyout r a (map (\<lambda>c. c XOR ENCRYPT_KEY) bs) s1 = Some (0, s2)"
      "enc_step e r n s nd s2 fl2 nd2 a ?c"
      using encrypt_chunk [OF less.prems(1,2) rw le_less_trans [OF min.cobounded1 less.prems(4)]] by blast
    have i2: "uspace_inv e s2 fl2 nd2 r" "cur_space s2 r n" using c(3) less.prems(2) cur_space_more [of s2 s] by (auto simp: enc_step_def)
    have rest: "rw_range n (mem s) nd (a + of_nat ?c) (len - ?c)" by (rule rw_range_sub [OF less.prems(3)]) simp
    obtain s' fl' nd' where l: "encrypt_loop r (a + of_nat ?c) (len - ?c) s2 = Some (True, s')"
      "enc_step e r n s2 nd2 s' fl' nd' (a + of_nat ?c) (len - ?c)"
      using less.IH [OF _ i2 enc_step_rw [OF c(3) rest] le_less_trans [OF diff_le_self less.prems(4)]] False by auto
    have "?c + (len - ?c) = len" by simp
    then have "enc_step e r n s nd s' fl' nd' a len" using enc_step_trans [OF c(3) l(2)] less.prems(4) by simp
    moreover have "encrypt_loop r a len s = Some (True, s')" using False c(1,2) l(1) by (subst encrypt_loop.simps) (simp add: Let_def)
    ultimately show ?thesis by blast
  qed
qed



end
