(* ===== verification/Exec.thy ===== *)
theory Exec
  imports Proc_Life
begin

section \<open>Executing a program\<close>

text \<open>
  \<^verbatim>\<open>kernel/exec.c\<close> with the structures of \<^verbatim>\<open>elf.h\<close>. The headers are read into local variables, so they are
  decoded from the bytes that \<^verbatim>\<open>readi\<close> returns; a segment is read straight into the physical pages of the new
  page table. The argument strings are the bytes before the NUL.
\<close>

subsection \<open>ELF headers\<close>

abbreviation ELF_MAGIC :: u32 where "ELF_MAGIC \<equiv> 0x464C457F"
abbreviation ELF_PROG_LOAD :: u32 where "ELF_PROG_LOAD \<equiv> 1"
abbreviation MAXARG :: nat where "MAXARG \<equiv> 32"
abbreviation USERSTACK :: u64 where "USERSTACK \<equiv> 1"

definition get64 :: "u8 list \<Rightarrow> nat \<Rightarrow> u64" where
  "get64 bs off = le_word (take 8 (drop off bs))"

record elfhdr =
  eh_magic :: u32
  eh_elf :: "u8 list"
  eh_type :: u16
  eh_machine :: u16
  eh_version :: u32
  eh_entry :: u64
  eh_phoff :: u64
  eh_shoff :: u64
  eh_flags :: u32
  eh_ehsize :: u16
  eh_phentsize :: u16
  eh_phnum :: u16
  eh_shentsize :: u16
  eh_shnum :: u16
  eh_shstrndx :: u16

definition elfhdr_of :: "u8 list \<Rightarrow> elfhdr" where
  "elfhdr_of bs = \<lparr>eh_magic = get32 bs 0, eh_elf = take 12 (drop 4 bs), eh_type = get16 bs 16, eh_machine = get16 bs 18,
     eh_version = get32 bs 20, eh_entry = get64 bs 24, eh_phoff = get64 bs 32, eh_shoff = get64 bs 40, eh_flags = get32 bs 48,
     eh_ehsize = get16 bs 52, eh_phentsize = get16 bs 54, eh_phnum = get16 bs 56, eh_shentsize = get16 bs 58,
     eh_shnum = get16 bs 60, eh_shstrndx = get16 bs 62\<rparr>"

record proghdr =
  ph_type :: u32
  ph_flags :: u32
  ph_off :: u64
  ph_vaddr :: u64
  ph_paddr :: u64
  ph_filesz :: u64
  ph_memsz :: u64
  ph_align :: u64

definition proghdr_of :: "u8 list \<Rightarrow> proghdr" where
  "proghdr_of bs = \<lparr>ph_type = get32 bs 0, ph_flags = get32 bs 4, ph_off = get64 bs 8, ph_vaddr = get64 bs 16,
     ph_paddr = get64 bs 24, ph_filesz = get64 bs 32, ph_memsz = get64 bs 40, ph_align = get64 bs 48\<rparr>"

definition flags2perm :: "cint \<Rightarrow> u64" where
  "flags2perm flags =
     (let perm = (if flags AND 1 \<noteq> 0 then PTE_X else 0)
      in if flags AND 2 \<noteq> 0 then perm OR PTE_W else perm)"

subsection \<open>Loading the segments\<close>

text \<open>
  The loop of \<^verbatim>\<open>loadseg\<close> from offset \<open>i\<close> on, where \<open>i\<close> is a 32-bit counter that can wrap around for a segment of
  almost 4 GB.
\<close>

partial_function (option) loadseg_from ::
  "u64 \<Rightarrow> u64 \<Rightarrow> nat \<Rightarrow> u32 \<Rightarrow> u32 \<Rightarrow> u32 \<Rightarrow> 'a kfs_scheme \<Rightarrow> (cint \<times> 'a kfs_scheme) option" where
  "loadseg_from pt va ip offset n i s =
     (if i < n then do {
        pa \<leftarrow> walkaddr pt (va + ucast i) s;
        if pa = 0 then panic ''loadseg: address should exist''
        else do {
          let m = (if n - i < ucast PGSIZE then n - i else ucast PGSIZE);
          (r, _, s) \<leftarrow> readi ip (KernDst pa) (offset + i) m s;
          if r \<noteq> m then Some (- 1, s)
          else loadseg_from pt va ip offset n (i + ucast PGSIZE) s } }
      else Some (0, s))"

definition loadseg :: "u64 \<Rightarrow> u64 \<Rightarrow> nat \<Rightarrow> u32 \<Rightarrow> u32 \<Rightarrow> 'a kfs_scheme \<Rightarrow> (cint \<times> 'a kfs_scheme) option" where
  "loadseg pt va ip offset n s = loadseg_from pt va ip offset n 0 s"

text \<open>
  The loop over the program headers, with \<open>k\<close> of them to go. The result tells whether the loop ran to its end,
  and has the size of the image so far in both cases.
\<close>

fun load_segments :: "u64 \<Rightarrow> nat \<Rightarrow> nat \<Rightarrow> u32 \<Rightarrow> u64 \<Rightarrow> 'a kfs_scheme \<Rightarrow> (bool \<times> u64 \<times> 'a kfs_scheme) option" where
  "load_segments pt ip 0 off n s = Some (True, n, s)"
| "load_segments pt ip (Suc k) off n s = do {
     (r, bs, s) \<leftarrow> readi ip LocalDst off 56 s;
     if r \<noteq> 56 then Some (False, n, s)
     else
       let ph = proghdr_of bs in
       if ph_type ph \<noteq> ELF_PROG_LOAD then load_segments pt ip k (off + 56) n s
       else if ph_memsz ph < ph_filesz ph then Some (False, n, s)
       else if ph_vaddr ph + ph_memsz ph < ph_vaddr ph then Some (False, n, s)
       else if ph_vaddr ph mod PGSIZE \<noteq> 0 then Some (False, n, s)
       else do {
         (sz1, s) \<leftarrow> uvmalloc pt n (ph_vaddr ph + ph_memsz ph) (flags2perm (ph_flags ph)) s;
         if sz1 = 0 then Some (False, n, s)
         else do {
           (r, s) \<leftarrow> loadseg pt (ph_vaddr ph) ip (ucast (ph_off ph)) (ucast (ph_filesz ph)) s;
           if r <s 0 then Some (False, sz1, s) else load_segments pt ip k (off + 56) sz1 s } } }"

subsection \<open>The stack\<close>

text \<open>\<^verbatim>\<open>sp -= n; sp -= sp % 16\<close>\<close>

definition push_sp :: "u64 \<Rightarrow> nat \<Rightarrow> u64" where
  "push_sp sp n = (let sp = sp - of_nat n in sp - sp mod 16)"

text \<open>
  The loop that copies the argument strings, with the entries of \<^verbatim>\<open>ustack\<close> so far. The result is \<^const>\<open>None\<close> inside
  when the code goes to \<^verbatim>\<open>bad\<close>. At the end of the loop the code stores a null pointer behind the entries, which
  is outside of the array when there are \<^verbatim>\<open>MAXARG\<close> arguments.
\<close>

fun push_args :: "u64 \<Rightarrow> u64 \<Rightarrow> u8 list list \<Rightarrow> u64 \<Rightarrow> u64 list \<Rightarrow> 'a kproc_scheme \<Rightarrow> ((u64 \<times> u64 list) option \<times> 'a kproc_scheme) option" where
  "push_args pt stackbase [] sp ustack s =
     (if length ustack \<ge> MAXARG then panic ''kerneltrap'' else Some (Some (sp, ustack @ [0]), s))"
| "push_args pt stackbase (a # as) sp ustack s =
     (if length ustack \<ge> MAXARG then Some (None, s)
      else
        let sp = push_sp sp (length a + 1) in
        if sp < stackbase then Some (None, s)
        else do {
          (r, s) \<leftarrow> copyout pt sp (a @ [0]) s;
          if r <s 0 then Some (None, s) else push_args pt stackbase as sp (ustack @ [sp]) s })"

text \<open>
  The strings and then the array of pointers to them, below \<open>sp\<close>. The result has the stack pointer and the number
  of arguments, or nothing when the code goes to \<^verbatim>\<open>bad\<close>.
\<close>

definition push_argv ::
  "u64 \<Rightarrow> u64 \<Rightarrow> u8 list list \<Rightarrow> u64 \<Rightarrow> 'a kproc_scheme \<Rightarrow> ((u64 \<times> nat) option \<times> 'a kproc_scheme) option" where
  "push_argv pt stackbase argv sp s = do {
     (r, s) \<leftarrow> push_args pt stackbase argv sp [] s;
     case r of None \<Rightarrow> Some (None, s)
     | Some (sp, ustack) \<Rightarrow>
         let sp = push_sp sp (length ustack * 8) in
         if sp < stackbase then Some (None, s)
         else do {
           (r, s) \<leftarrow> copyout pt sp (concat (map (le_bytes 8) ustack)) s;
           Some (if r <s 0 then None else Some (sp, length ustack - 1), s) } }"

text \<open>
  \<^verbatim>\<open>kexec\<close> after the program is loaded, up to the point where it commits. The result also has the new size of
  the image.
\<close>

definition build_stack ::
  "u64 \<Rightarrow> u64 \<Rightarrow> u8 list list \<Rightarrow> 'a kproc_scheme \<Rightarrow> (u64 \<times> (u64 \<times> nat) option \<times> 'a kproc_scheme) option" where
  "build_stack pt n argv s = do {
     let n = PGROUNDUP n;
     (sz1, s) \<leftarrow> uvmalloc pt n (n + (USERSTACK + 1) * PGSIZE) PTE_W s;
     if sz1 = 0 then Some (n, None, s)
     else do {
       s \<leftarrow> uvmclear pt (sz1 - (USERSTACK + 1) * PGSIZE) s;
       (r, s) \<leftarrow> push_argv pt (sz1 - USERSTACK * PGSIZE) argv sz1 s;
       Some (sz1, r, s) } }"

text \<open>The program name: what follows the last slash of the path.\<close>

fun last_elem :: "u8 list \<Rightarrow> u8 list \<Rightarrow> u8 list" where
  "last_elem lst [] = lst"
| "last_elem lst (c # cs) = last_elem (if c = slash then cs else lst) cs"

subsection \<open>kexec\<close>

definition kexec :: "u64 \<Rightarrow> u8 list \<Rightarrow> u8 list list \<Rightarrow> 'a kfs_scheme \<Rightarrow> (cint \<times> 'a kfs_scheme) option" where
  "kexec tramp pth argv s =
     (case myproc s of None \<Rightarrow> panic ''kerneltrap''
      | Some p \<Rightarrow> do {
          s \<leftarrow> begin_op s;
          (r, s) \<leftarrow> namei pth s;
          case r of
            None \<Rightarrow> do { s \<leftarrow> end_op s; Some (- 1, s) }
          | Some ip \<Rightarrow> do {
              let close = (\<lambda>s. do { s \<leftarrow> iunlockput ip s; end_op s });
              s \<leftarrow> ilock ip s;
              (r, bs, s) \<leftarrow> readi ip LocalDst 0 64 s;
              let elf = elfhdr_of bs;
              if r \<noteq> 64 then do { s \<leftarrow> close s; Some (- 1, s) }
              else if eh_magic elf \<noteq> ELF_MAGIC then do { s \<leftarrow> close s; Some (- 1, s) }
              else do {
                (pt, s) \<leftarrow> proc_pagetable tramp (trapframe (procs s ! p)) s;
                if pt = 0 then do { s \<leftarrow> close s; Some (- 1, s) }
                else do {
                  (ok, n, s) \<leftarrow> load_segments pt ip (unat (eh_phnum elf)) (ucast (eh_phoff elf)) 0 s;
                  if \<not> ok then do { s \<leftarrow> proc_freepagetable pt n s; s \<leftarrow> close s; Some (- 1, s) }
                  else do {
                    s \<leftarrow> close s;
                    let oldsz = sz (procs s ! p);
                    (n, r, s) \<leftarrow> build_stack pt n argv s;
                    case r of
                      None \<Rightarrow> do { s \<leftarrow> proc_freepagetable pt n s; Some (- 1, s) }
                    | Some (sp, argc) \<Rightarrow> do {
                        let s = tf_set p A1 sp s;
                        let s = upd_proc p (\<lambda>q. q\<lparr>name := safestrcpy_arr (name q) (last_elem pth pth) 16\<rparr>) s;
                        let oldpt = pagetable (procs s ! p);
                        let s = upd_proc p (\<lambda>q. q\<lparr>pagetable := pt, sz := n\<rparr>) s;
                        let s = tf_set p Epc (eh_entry elf) s;
                        let s = tf_set p Sp sp s;
                        s \<leftarrow> proc_freepagetable oldpt oldsz s;
                        Some (of_nat argc, s) } } } } } })"

subsection \<open>The layout of the stack\<close>

lemma push_sp_nat:
  assumes "n \<le> unat sp"
  shows "unat (push_sp sp n) = (unat sp - n) div 16 * 16"
proof -
  have n: "unat (of_nat n :: u64) = n"
    using le_less_trans [OF assms unsigned_less [of sp]] by (simp add: unat_of_nat take_bit_nat_eq_self)
  then have d: "unat (sp - of_nat n) = unat sp - n" using assms by (simp add: unat_sub word_le_nat_alt)
  have "(sp - of_nat n) mod 16 \<le> sp - of_nat n" by (simp add: word_le_nat_alt unat_mod)
  then have "unat (push_sp sp n) = unat sp - n - (unat sp - n) mod 16"
    by (simp add: push_sp_def Let_def unat_sub unat_mod d)
  then show ?thesis by (simp add: minus_mod_eq_div_mult)
qed

text \<open>Each string starts at a multiple of 16 and ends below the string before it; the first one ends below \<open>hi\<close>.\<close>

fun args_placed :: "u64 \<Rightarrow> u64 \<Rightarrow> u8 list list \<Rightarrow> u64 list \<Rightarrow> bool" where
  "args_placed base hi [] ps \<longleftrightarrow> ps = []"
| "args_placed base hi (a # as) [] \<longleftrightarrow> False"
| "args_placed base hi (a # as) (p # ps) \<longleftrightarrow>
     16 dvd unat p \<and> base \<le> p \<and> unat p + length a + 1 \<le> unat hi \<and> args_placed base p as ps"

lemma args_placed_length: "args_placed base hi as ps \<Longrightarrow> length ps = length as"
  by (induction base hi as ps rule: args_placed.induct) auto

lemma push_args_placed:
  assumes "push_args pt base as sp us s = Some (Some (sp', us'), s')" "\<forall>a \<in> set as. length a < unat base" "base \<le> sp"
  shows "\<exists>ps. us' = us @ ps @ [0] \<and> args_placed base sp as ps \<and> length us' \<le> MAXARG \<and> base \<le> sp' \<and> sp' \<le> sp \<and> (\<forall>p \<in> set ps. sp' \<le> p)"
  using assms
proof (induction pt base as sp us s rule: push_args.induct)
  case (1 pt base sp us s)
  then show ?case by (auto split: if_splits)
next
  case (2 pt base a as sp us s)
  let ?p = "push_sp sp (length a + 1)"
  from 2(2) obtain s1 r where c: "\<not> MAXARG \<le> length us" "\<not> ?p < base" "copyout pt ?p (a @ [0]) s = Some (r, s1)" "\<not> r <s 0"
    "push_args pt base as ?p (us @ [?p]) s1 = Some (Some (sp', us'), s')"
    by (auto simp: Let_def bind_Some_iff split: if_splits)
  have le: "length a + 1 \<le> unat sp" using 2(3,4) by (auto simp: word_le_nat_alt)
  have p: "16 dvd unat ?p" "unat ?p + (length a + 1) \<le> unat sp"
    using push_sp_nat [OF le] le by (simp, metis le_diff_conv2 div_times_less_eq_dividend)
  have "base \<le> ?p" using c(2) by simp
  then obtain ps where i: "us' = (us @ [?p]) @ ps @ [0]" "args_placed base ?p as ps" "length us' \<le> MAXARG" "base \<le> sp'" "sp' \<le> ?p" "\<forall>p \<in> set ps. sp' \<le> p"
    using 2(1) [OF c(1) refl c(2,3) refl c(4) c(5)] 2(3) by auto
  moreover have "?p \<le> sp" using p(2) by (simp add: word_le_nat_alt)
  ultimately show ?case using p \<open>base \<le> ?p\<close> by (intro exI [of _ "?p # ps"]) auto
qed



end
