(* ===== verification/Sysfile.thy ===== *)
theory Sysfile
  imports Sysproc Exec
begin

section \<open>System calls on files\<close>

text \<open>
  \<^verbatim>\<open>kernel/sysfile.c\<close>: the calls fetch their arguments, and work on the file table, the inodes and the open files of
  the current process. A path is the string that \<^verbatim>\<open>argstr\<close> copies into a buffer of \<^verbatim>\<open>MAXPATH\<close> bytes.
\<close>

abbreviation MAXPATH :: nat where "MAXPATH \<equiv> 128"
abbreviation O_RDONLY :: cint where "O_RDONLY \<equiv> 0x000"
abbreviation O_WRONLY :: cint where "O_WRONLY \<equiv> 0x001"
abbreviation O_RDWR :: cint where "O_RDWR \<equiv> 0x002"
abbreviation O_CREATE :: cint where "O_CREATE \<equiv> 0x200"
abbreviation O_TRUNC :: cint where "O_TRUNC \<equiv> 0x400"

subsection \<open>File descriptors\<close>

text \<open>The descriptor and the file, or \<^const>\<open>None\<close> inside for the result -1.\<close>

definition argfd :: "nat \<Rightarrow> 'a kproc_scheme \<Rightarrow> (nat \<times> nat) option option" where
  "argfd n s = do {
     fd \<leftarrow> argint n s;
     if fd <s 0 \<or> of_nat NOFILE \<le>s fd then Some None
     else case myproc s of
       None \<Rightarrow> panic ''kerneltrap''
     | Some i \<Rightarrow> Some (case ofile (procs s ! i) ! unat fd of None \<Rightarrow> None | Some f \<Rightarrow> Some (unat fd, f)) }"

fun first_free :: "nat option list \<Rightarrow> nat \<Rightarrow> nat option" where
  "first_free [] fd = None"
| "first_free (x # xs) fd = (if x = None then Some fd else first_free xs (Suc fd))"

definition set_ofile :: "nat \<Rightarrow> nat \<Rightarrow> nat option \<Rightarrow> 'a kproc_scheme \<Rightarrow> 'a kproc_scheme" where
  "set_ofile i fd x s = upd_proc i (\<lambda>p. p\<lparr>ofile := (ofile p)[fd := x]\<rparr>) s"

definition fdalloc :: "nat \<Rightarrow> 'a kproc_scheme \<Rightarrow> (cint \<times> 'a kproc_scheme) option" where
  "fdalloc f s =
     (case myproc s of None \<Rightarrow> panic ''kerneltrap''
      | Some i \<Rightarrow> Some (case first_free (ofile (procs s ! i)) 0 of
            None \<Rightarrow> (- 1, s)
          | Some fd \<Rightarrow> (of_nat fd, set_ofile i fd (Some f) s)))"

definition sys_dup :: "'a ksys_scheme \<Rightarrow> (sysres \<times> 'a ksys_scheme) option" where
  "sys_dup s = do {
     r \<leftarrow> argfd 0 s;
     case r of
       None \<Rightarrow> Some (Ret (- 1), s)
     | Some (_, f) \<Rightarrow> do {
         (fd, s) \<leftarrow> fdalloc f s;
         if fd <s 0 then Some (Ret (- 1), s)
         else do { s \<leftarrow> filedup f s; Some (ret_int fd, s) } } }"

text \<open>A transfer that has to wait keeps its arguments for the time after it.\<close>

definition file_result :: "nat \<Rightarrow> u64 \<Rightarrow> cint \<Rightarrow> flocals blocking \<Rightarrow> sysres" where
  "file_result f p n b = (case b of Done r \<Rightarrow> ret_int r | Blocked ch l \<Rightarrow> Wait ch (LFile f p n l))"

definition sys_read :: "'a ksys_scheme \<Rightarrow> (sysres \<times> 'a ksys_scheme) option" where
  "sys_read s = do {
     p \<leftarrow> argaddr 1 s;
     n \<leftarrow> argint 2 s;
     r \<leftarrow> argfd 0 s;
     case r of
       None \<Rightarrow> Some (Ret (- 1), s)
     | Some (_, f) \<Rightarrow> do { (b, s) \<leftarrow> fileread f p n s; Some (file_result f p n b, s) } }"

definition sys_write :: "'a ksys_scheme \<Rightarrow> (sysres \<times> 'a ksys_scheme) option" where
  "sys_write s = do {
     p \<leftarrow> argaddr 1 s;
     n \<leftarrow> argint 2 s;
     r \<leftarrow> argfd 0 s;
     case r of
       None \<Rightarrow> Some (Ret (- 1), s)
     | Some (_, f) \<Rightarrow> do { (b, s) \<leftarrow> filewrite f p n s; Some (file_result f p n b, s) } }"

definition sys_close :: "'a ksys_scheme \<Rightarrow> (sysres \<times> 'a ksys_scheme) option" where
  "sys_close s = do {
     r \<leftarrow> argfd 0 s;
     case r of
       None \<Rightarrow> Some (Ret (- 1), s)
     | Some (fd, f) \<Rightarrow> (case myproc s of
           None \<Rightarrow> panic ''kerneltrap''
         | Some i \<Rightarrow> do { s \<leftarrow> fileclose f (set_ofile i fd None s); Some (Ret 0, s) }) }"

text \<open>\<open>pad\<close> stands for the uninitialised bytes of the structure, as in \<^verbatim>\<open>filestat\<close>.\<close>

definition sys_fstat :: "u8 list \<Rightarrow> 'a ksys_scheme \<Rightarrow> (sysres \<times> 'a ksys_scheme) option" where
  "sys_fstat pad s = do {
     st \<leftarrow> argaddr 1 s;
     r \<leftarrow> argfd 0 s;
     case r of
       None \<Rightarrow> Some (Ret (- 1), s)
     | Some (_, f) \<Rightarrow> do { (r, s) \<leftarrow> filestat pad f st s; Some (ret_int r, s) } }"

subsection \<open>Links\<close>

definition add_nlink :: "nat \<Rightarrow> u16 \<Rightarrow> 'a kfs_scheme \<Rightarrow> 'a kfs_scheme option" where
  "add_nlink i d s = iupdate i (upd_inode i (\<lambda>ip. ip\<lparr>i_nlink := i_nlink ip + d\<rparr>) s)"

text \<open>\<^verbatim>\<open>sys_link\<close> after the arguments are fetched; \<open>bad\<close> is the code at the label of that name.\<close>

definition link :: "u8 list \<Rightarrow> u8 list \<Rightarrow> 'a kfs_scheme \<Rightarrow> (u64 \<times> 'a kfs_scheme) option" where
  "link old new s = do {
     s \<leftarrow> begin_op s;
     (r, s) \<leftarrow> namei old s;
     case r of
       None \<Rightarrow> do { s \<leftarrow> end_op s; Some (- 1, s) }
     | Some ip \<Rightarrow> do {
         s \<leftarrow> ilock ip s;
         if i_type (itable s ! ip) = T_DIR then do { s \<leftarrow> iunlockput ip s; s \<leftarrow> end_op s; Some (- 1, s) }
         else do {
           s \<leftarrow> add_nlink ip 1 s;
           s \<leftarrow> iunlock ip s;
           let bad = (\<lambda>s. do {
             s \<leftarrow> ilock ip s;
             s \<leftarrow> add_nlink ip (- 1) s;
             s \<leftarrow> iunlockput ip s;
             s \<leftarrow> end_op s;
             Some (- 1, s) });
           (r, nm, s) \<leftarrow> nameiparent new s;
           case r of
             None \<Rightarrow> bad s
           | Some dp \<Rightarrow> do {
               s \<leftarrow> ilock dp s;
               if i_dev (itable s ! dp) \<noteq> i_dev (itable s ! ip) then do { s \<leftarrow> iunlockput dp s; bad s }
               else do {
                 (r, s) \<leftarrow> dirlink dp nm (i_inum (itable s ! ip)) s;
                 s \<leftarrow> iunlockput dp s;
                 if r <s 0 then bad s
                 else do { s \<leftarrow> iput ip s; s \<leftarrow> end_op s; Some (0, s) } } } } } }"

definition sys_link :: "'a ksys_scheme \<Rightarrow> (sysres \<times> 'a ksys_scheme) option" where
  "sys_link s = do {
     (r, old) \<leftarrow> argstr 0 MAXPATH s;
     if r <s 0 then Some (Ret (- 1), s)
     else do {
       (r, new) \<leftarrow> argstr 1 MAXPATH s;
       if r <s 0 then Some (Ret (- 1), s)
       else do { (r, s) \<leftarrow> link old new s; Some (Ret r, s) } } }"

partial_function (option) isdirempty_from :: "nat \<Rightarrow> u32 \<Rightarrow> 'a kfs_scheme \<Rightarrow> (bool \<times> 'a kfs_scheme) option" where
  "isdirempty_from dp off s =
     (if off < i_size (itable s ! dp) then do {
        (r, bs, s) \<leftarrow> readi dp LocalDst off 16 s;
        if r \<noteq> 16 then panic ''isdirempty: readi''
        else if de_inum (dirent_of bs) \<noteq> 0 then Some (False, s)
        else isdirempty_from dp (off + 16) s }
      else Some (True, s))"

definition isdirempty :: "nat \<Rightarrow> 'a kfs_scheme \<Rightarrow> (bool \<times> 'a kfs_scheme) option" where
  "isdirempty dp s = isdirempty_from dp (2 * 16) s"

text \<open>\<^verbatim>\<open>sys_unlink\<close> after the path is fetched.\<close>

definition unlink :: "u8 list \<Rightarrow> 'a kfs_scheme \<Rightarrow> (u64 \<times> 'a kfs_scheme) option" where
  "unlink pth s = do {
     s \<leftarrow> begin_op s;
     (r, nm, s) \<leftarrow> nameiparent pth s;
     case r of
       None \<Rightarrow> do { s \<leftarrow> end_op s; Some (- 1, s) }
     | Some dp \<Rightarrow> do {
         s \<leftarrow> ilock dp s;
         let bad = (\<lambda>s. do { s \<leftarrow> iunlockput dp s; s \<leftarrow> end_op s; Some (- 1, s) });
         if namecmp nm (bytes ''.'') = 0 \<or> namecmp nm (bytes ''..'') = 0 then bad s
         else do {
           (r, s) \<leftarrow> dirlookup dp nm s;
           case r of
             None \<Rightarrow> bad s
           | Some (ip, off) \<Rightarrow> do {
               s \<leftarrow> ilock ip s;
               if i_nlink (itable s ! ip) <s 1 then panic ''unlink: nlink < 1''
               else do {
                 (empty, s) \<leftarrow> (if i_type (itable s ! ip) = T_DIR then isdirempty ip s else Some (True, s));
                 if \<not> empty then do { s \<leftarrow> iunlockput ip s; bad s }
                 else do {
                   (r, s) \<leftarrow> writei dp (LocalSrc (replicate 16 0)) off 16 s;
                   if r \<noteq> 16 then panic ''unlink: writei''
                   else do {
                     s \<leftarrow> (if i_type (itable s ! ip) = T_DIR then add_nlink dp (- 1) s else Some s);
                     s \<leftarrow> iunlockput dp s;
                     s \<leftarrow> add_nlink ip (- 1) s;
                     s \<leftarrow> iunlockput ip s;
                     s \<leftarrow> end_op s;
                     Some (0, s) } } } } } } }"

definition sys_unlink :: "'a ksys_scheme \<Rightarrow> (sysres \<times> 'a ksys_scheme) option" where
  "sys_unlink s = do {
     (r, pth) \<leftarrow> argstr 0 MAXPATH s;
     if r <s 0 then Some (Ret (- 1), s)
     else do { (r, s) \<leftarrow> unlink pth s; Some (Ret r, s) } }"

subsection \<open>Creating and opening\<close>

text \<open>The new inode is returned locked.\<close>

definition create :: "u8 list \<Rightarrow> u16 \<Rightarrow> u16 \<Rightarrow> u16 \<Rightarrow> 'a kfs_scheme \<Rightarrow> (nat option \<times> 'a kfs_scheme) option" where
  "create pth type major minor s = do {
     (r, nm, s) \<leftarrow> nameiparent pth s;
     case r of
       None \<Rightarrow> Some (None, s)
     | Some dp \<Rightarrow> do {
         s \<leftarrow> ilock dp s;
         (r, s) \<leftarrow> dirlookup dp nm s;
         case r of
           Some (ip, _) \<Rightarrow> do {
             s \<leftarrow> iunlockput dp s;
             s \<leftarrow> ilock ip s;
             if type = T_FILE \<and> (i_type (itable s ! ip) = T_FILE \<or> i_type (itable s ! ip) = T_DEVICE) then Some (Some ip, s)
             else do { s \<leftarrow> iunlockput ip s; Some (None, s) } }
         | None \<Rightarrow> do {
             (r, s) \<leftarrow> ialloc (i_dev (itable s ! dp)) type s;
             case r of
               None \<Rightarrow> do { s \<leftarrow> iunlockput dp s; Some (None, s) }
             | Some ip \<Rightarrow> do {
                 s \<leftarrow> ilock ip s;
                 s \<leftarrow> iupdate ip (upd_inode ip (\<lambda>i. i\<lparr>i_major := major, i_minor := minor, i_nlink := 1\<rparr>) s);
                 let fail = (\<lambda>s. do {
                   s \<leftarrow> iupdate ip (upd_inode ip (\<lambda>i. i\<lparr>i_nlink := 0\<rparr>) s);
                   s \<leftarrow> iunlockput ip s;
                   s \<leftarrow> iunlockput dp s;
                   Some (None, s) });
                 (r, s) \<leftarrow> (if type = T_DIR then do {
                     (r, s) \<leftarrow> dirlink ip (bytes ''.'') (i_inum (itable s ! ip)) s;
                     if r <s 0 then Some (r, s) else dirlink ip (bytes ''..'') (i_inum (itable s ! dp)) s }
                   else Some (0, s));
                 if r <s 0 then fail s
                 else do {
                   (r, s) \<leftarrow> dirlink dp nm (i_inum (itable s ! ip)) s;
                   if r <s 0 then fail s
                   else do {
                     s \<leftarrow> (if type = T_DIR then add_nlink dp 1 s else Some s);
                     s \<leftarrow> iunlockput dp s;
                     Some (Some ip, s) } } } } } }"

text \<open>\<^verbatim>\<open>sys_open\<close>: finding or creating the inode, which is then locked.\<close>

definition open_inode :: "u8 list \<Rightarrow> cint \<Rightarrow> 'a kfs_scheme \<Rightarrow> (nat option \<times> 'a kfs_scheme) option" where
  "open_inode pth omode s =
     (if omode AND O_CREATE \<noteq> 0 then create pth T_FILE 0 0 s
      else do {
        (r, s) \<leftarrow> namei pth s;
        case r of
          None \<Rightarrow> Some (None, s)
        | Some ip \<Rightarrow> do {
            s \<leftarrow> ilock ip s;
            if i_type (itable s ! ip) = T_DIR \<and> omode \<noteq> O_RDONLY then do { s \<leftarrow> iunlockput ip s; Some (None, s) }
            else Some (Some ip, s) } })"

text \<open>The fields of the new open file.\<close>

definition init_file :: "inode \<Rightarrow> nat \<Rightarrow> cint \<Rightarrow> openfile \<Rightarrow> openfile" where
  "init_file ip i omode f =
     (let f = (if i_type ip = T_DEVICE then f\<lparr>f_type := FD_DEVICE, f_major := i_major ip\<rparr> else f\<lparr>f_type := FD_INODE, f_off := 0\<rparr>)
      in f\<lparr>f_ip := i, f_readable := omode AND O_WRONLY = 0, f_writable := omode AND O_WRONLY \<noteq> 0 \<or> omode AND O_RDWR \<noteq> 0\<rparr>)"

text \<open>\<^verbatim>\<open>sys_open\<close> after the arguments are fetched.\<close>

definition open_file :: "u8 list \<Rightarrow> cint \<Rightarrow> 'a kfile_scheme \<Rightarrow> (cint \<times> 'a kfile_scheme) option" where
  "open_file pth omode s = do {
     s \<leftarrow> begin_op s;
     (r, s) \<leftarrow> open_inode pth omode s;
     case r of
       None \<Rightarrow> do { s \<leftarrow> end_op s; Some (- 1, s) }
     | Some ip \<Rightarrow> do {
         let bad = (\<lambda>s. do { s \<leftarrow> iunlockput ip s; s \<leftarrow> end_op s; Some (- 1, s) });
         if i_type (itable s ! ip) = T_DEVICE \<and> bad_major (i_major (itable s ! ip)) then bad s
         else do {
           let (r, s) = filealloc s;
           case r of
             None \<Rightarrow> bad s
           | Some f \<Rightarrow> do {
               (fd, s) \<leftarrow> fdalloc f s;
               if fd <s 0 then do { s \<leftarrow> fileclose f s; bad s }
               else do {
                 let s = upd_file f (init_file (itable s ! ip) ip omode) s;
                 s \<leftarrow> (if omode AND O_TRUNC \<noteq> 0 \<and> i_type (itable s ! ip) = T_FILE then itrunc ip s else Some s);
                 s \<leftarrow> iunlock ip s;
                 s \<leftarrow> end_op s;
                 Some (fd, s) } } } } }"

definition sys_open :: "'a ksys_scheme \<Rightarrow> (sysres \<times> 'a ksys_scheme) option" where
  "sys_open s = do {
     omode \<leftarrow> argint 1 s;
     (n, pth) \<leftarrow> argstr 0 MAXPATH s;
     if n <s 0 then Some (Ret (- 1), s)
     else do { (fd, s) \<leftarrow> open_file pth omode s; Some (ret_int fd, s) } }"

text \<open>The common end of \<^verbatim>\<open>sys_mkdir\<close> and \<^verbatim>\<open>sys_mknod\<close>.\<close>

definition make_node :: "u16 \<Rightarrow> u16 \<Rightarrow> u16 \<Rightarrow> 'a ksys_scheme \<Rightarrow> (sysres \<times> 'a ksys_scheme) option" where
  "make_node type major minor s = do {
     (n, pth) \<leftarrow> argstr 0 MAXPATH s;
     (r, s) \<leftarrow> (if n <s 0 then Some (None, s) else create pth type major minor s);
     case r of
       None \<Rightarrow> do { s \<leftarrow> end_op s; Some (Ret (- 1), s) }
     | Some ip \<Rightarrow> do { s \<leftarrow> iunlockput ip s; s \<leftarrow> end_op s; Some (Ret 0, s) } }"

definition sys_mkdir :: "'a ksys_scheme \<Rightarrow> (sysres \<times> 'a ksys_scheme) option" where
  "sys_mkdir s = do { s \<leftarrow> begin_op s; make_node T_DIR 0 0 s }"

definition sys_mknod :: "'a ksys_scheme \<Rightarrow> (sysres \<times> 'a ksys_scheme) option" where
  "sys_mknod s = do {
     s \<leftarrow> begin_op s;
     major \<leftarrow> argint 1 s;
     minor \<leftarrow> argint 2 s;
     make_node T_DEVICE (ucast major) (ucast minor) s }"

definition sys_chdir :: "'a ksys_scheme \<Rightarrow> (sysres \<times> 'a ksys_scheme) option" where
  "sys_chdir s =
     (case myproc s of None \<Rightarrow> panic ''kerneltrap''
      | Some p \<Rightarrow> do {
          s \<leftarrow> begin_op s;
          (n, pth) \<leftarrow> argstr 0 MAXPATH s;
          (r, s) \<leftarrow> (if n <s 0 then Some (None, s) else namei pth s);
          case r of
            None \<Rightarrow> do { s \<leftarrow> end_op s; Some (Ret (- 1), s) }
          | Some ip \<Rightarrow> do {
              s \<leftarrow> ilock ip s;
              if i_type (itable s ! ip) \<noteq> T_DIR then do { s \<leftarrow> iunlockput ip s; s \<leftarrow> end_op s; Some (Ret (- 1), s) }
              else do {
                s \<leftarrow> iunlock ip s;
                s \<leftarrow> (case cwd (procs s ! p) of None \<Rightarrow> panic ''kerneltrap'' | Some c \<Rightarrow> iput c s);
                s \<leftarrow> end_op s;
                Some (Ret 0, upd_proc p (\<lambda>q. q\<lparr>cwd := Some ip\<rparr>) s) } } })"

subsection \<open>exec and pipe\<close>

text \<open>
  The loop of \<^verbatim>\<open>sys_exec\<close> with \<open>k\<close> entries of \<^verbatim>\<open>argv\<close> to go: the pages allocated so far and, when the end of the user's array
  was found, the strings in them.
\<close>

fun exec_args :: "nat \<Rightarrow> u64 \<Rightarrow> u64 list \<Rightarrow> u8 list list \<Rightarrow> 'a kproc_scheme \<Rightarrow> (u64 list \<times> u8 list list option \<times> 'a kproc_scheme) option" where
  "exec_args 0 ua pages argv s = Some (pages, None, s)"
| "exec_args (Suc k) ua pages argv s = do {
     (r, uarg, s) \<leftarrow> fetchaddr ua s;
     if r <s 0 then Some (pages, None, s)
     else if uarg = 0 then Some (pages, Some argv, s)
     else
       let (pa, s) = kalloc s in
       if pa = 0 then Some (pages, None, s)
       else do {
         (n, str) \<leftarrow> fetchstr uarg 4096 s;
         let s = s\<lparr>mem := write_bytes (mem s) pa (if n <s 0 then str else str @ [0])\<rparr>;
         if n <s 0 then Some (pages @ [pa], None, s)
         else exec_args k (ua + 8) (pages @ [pa]) (argv @ [str]) s } }"

fun free_pages :: "u64 list \<Rightarrow> 'a machine_scheme \<Rightarrow> 'a machine_scheme option" where
  "free_pages [] s = Some s"
| "free_pages (pa # pas) s = do { s \<leftarrow> kfree pa s; free_pages pas s }"

definition sys_exec :: "u64 \<Rightarrow> 'a ksys_scheme \<Rightarrow> (sysres \<times> 'a ksys_scheme) option" where
  "sys_exec tramp s = do {
     uargv \<leftarrow> argaddr 1 s;
     (n, pth) \<leftarrow> argstr 0 MAXPATH s;
     if n <s 0 then Some (Ret (- 1), s)
     else do {
       (pages, argv, s) \<leftarrow> exec_args MAXARG uargv [] [] s;
       (ret, s) \<leftarrow> (case argv of None \<Rightarrow> Some (- 1, s) | Some argv \<Rightarrow> kexec tramp pth argv s);
       s \<leftarrow> free_pages pages s;
       Some (ret_int ret, s) } }"

text \<open>The end of \<^verbatim>\<open>sys_pipe\<close> on an error.\<close>

definition close_pair :: "nat \<Rightarrow> nat \<Rightarrow> 'a ksys_scheme \<Rightarrow> (sysres \<times> 'a ksys_scheme) option" where
  "close_pair rdf wrf s = do { s \<leftarrow> fileclose rdf s; s \<leftarrow> fileclose wrf s; Some (Ret (- 1), s) }"

definition sys_pipe :: "'a ksys_scheme \<Rightarrow> (sysres \<times> 'a ksys_scheme) option" where
  "sys_pipe s =
     (case myproc s of None \<Rightarrow> panic ''kerneltrap''
      | Some p \<Rightarrow> do {
          fdarray \<leftarrow> argaddr 0 s;
          (r, (rdf, wrf), s) \<leftarrow> pipealloc s;
          if r <s 0 then Some (Ret (- 1), s)
          else do {
            (fd0, s) \<leftarrow> fdalloc rdf s;
            if fd0 <s 0 then close_pair rdf wrf s
            else do {
              (fd1, s) \<leftarrow> fdalloc wrf s;
              if fd1 <s 0 then close_pair rdf wrf (set_ofile p (unat fd0) None s)
              else do {
                (r, s) \<leftarrow> copyout_all p [(fdarray, le_bytes 4 fd0), (fdarray + 4, le_bytes 4 fd1)] s;
                if r <s 0 then close_pair rdf wrf (set_ofile p (unat fd1) None (set_ofile p (unat fd0) None s))
                else Some (Ret 0, s) } } } })"

end
