(* ===== verification/User_Text.thy ===== *)
theory User_Text
  imports Printf
begin

section \<open>User programs that read text\<close>

text \<open>
  \<^verbatim>\<open>user/grep.c\<close>, \<^verbatim>\<open>wc.c\<close>, \<^verbatim>\<open>cat.c\<close> and \<^verbatim>\<open>echo.c\<close>, with \<^verbatim>\<open>strchr\<close>, \<^verbatim>\<open>gets\<close> and \<^verbatim>\<open>atoi\<close> of \<^verbatim>\<open>ulib.c\<close>. A string is the list of the bytes before
  the NUL. What a program reads is a list of pieces: a read returns bytes of one piece, at most as many as it asks for,
  as a pipe or the console does; a file is one piece. What it writes is a list of pairs of descriptor and bytes.
\<close>

subsection \<open>Input and output\<close>

datatype piece = Avail "u8 list" | Broken

type_synonym uinput = "piece list"

text \<open>The result of \<^verbatim>\<open>read\<close> with \<open>room\<close> bytes: \<^const>\<open>None\<close> is -1.\<close>

fun read_in :: "nat \<Rightarrow> uinput \<Rightarrow> u8 list option \<times> uinput" where
  "read_in room [] = (Some [], [])"
| "read_in room (Broken # xs) = (None, xs)"
| "read_in room (Avail c # xs) = (Some (take room c), if length c \<le> room then xs else Avail (drop room c) # xs)"

fun input_size :: "uinput \<Rightarrow> nat" where
  "input_size [] = 0"
| "input_size (Broken # xs) = Suc (input_size xs)"
| "input_size (Avail c # xs) = Suc (length c) + input_size xs"

lemma read_in_shorter: "read_in room inp = (Some (b # bs), inp') \<Longrightarrow> input_size inp' < input_size inp"
  by (cases "room = 0"; induction room inp rule: read_in.induct) (auto split: if_splits)

type_synonym uoutput = "(nat \<times> u8 list) list"

abbreviation newline :: u8 where "newline \<equiv> 10"

definition strchr :: "u8 list \<Rightarrow> u8 \<Rightarrow> nat option" where
  "strchr s c = (let k = length (takeWhile (\<lambda>x. x \<noteq> 0 \<and> x \<noteq> c) s) in if k < length s \<and> s ! k = c \<and> c \<noteq> 0 then Some k else None)"

text \<open>The loop of \<^verbatim>\<open>gets\<close> with room for \<open>left\<close> more characters: the string and the rest of the input.\<close>

fun gets_loop :: "nat \<Rightarrow> uinput \<Rightarrow> u8 list \<times> uinput" where
  "gets_loop 0 inp = ([], inp)"
| "gets_loop (Suc left) inp = (case read_in 1 inp of
      (Some [c], inp) \<Rightarrow> if c = newline \<or> c = 13 then ([c], inp) else (let (s, inp) = gets_loop left inp in (c # s, inp))
    | (_, inp) \<Rightarrow> ([], inp))"

definition gets :: "nat \<Rightarrow> uinput \<Rightarrow> u8 list \<times> uinput" where
  "gets mx inp = gets_loop (mx - 1) inp"

fun atoi_from :: "cint \<Rightarrow> u8 list \<Rightarrow> cint" where
  "atoi_from n [] = n"
| "atoi_from n (c # s) = (if byte CHR ''0'' \<le> c \<and> c \<le> byte CHR ''9'' then atoi_from (n * 10 + ucast c - ucast (byte CHR ''0'')) s else n)"

definition atoi :: "u8 list \<Rightarrow> cint" where
  "atoi s = atoi_from 0 s"

subsection \<open>The matcher of grep\<close>

abbreviation caret :: u8 where "caret \<equiv> 94"
abbreviation star :: u8 where "star \<equiv> 42"
abbreviation dollar :: u8 where "dollar \<equiv> 36"
abbreviation dot :: u8 where "dot \<equiv> 46"

function matchhere :: "u8 list \<Rightarrow> u8 list \<Rightarrow> bool" and matchstar :: "u8 \<Rightarrow> u8 list \<Rightarrow> u8 list \<Rightarrow> bool" where
  "matchhere [] tx = True"
| "matchhere (c # re) tx =
     (if re \<noteq> [] \<and> hd re = star then matchstar c (tl re) tx
      else if c = dollar \<and> re = [] then tx = []
      else case tx of [] \<Rightarrow> False | t # ts \<Rightarrow> (c = dot \<or> c = t) \<and> matchhere re ts)"
| "matchstar c re tx =
     (matchhere re tx \<or> (case tx of [] \<Rightarrow> False | t # ts \<Rightarrow> (t = c \<or> c = dot) \<and> matchstar c re ts))"
  by pat_completeness auto
termination
  by (relation "measures [\<lambda>x. case x of Inl (re, t) \<Rightarrow> length re | Inr (c, re, t) \<Rightarrow> length re,
      \<lambda>x. case x of Inl (re, t) \<Rightarrow> length t | Inr (c, re, t) \<Rightarrow> length t, \<lambda>x. case x of Inl _ \<Rightarrow> 0 | Inr _ \<Rightarrow> 1]") auto

fun match_from :: "u8 list \<Rightarrow> u8 list \<Rightarrow> bool" where
  "match_from re [] = matchhere re []"
| "match_from re (t # ts) = (matchhere re (t # ts) \<or> match_from re ts)"

definition match :: "u8 list \<Rightarrow> u8 list \<Rightarrow> bool" where
  "match re tx = (if re \<noteq> [] \<and> hd re = caret then matchhere (tl re) tx else match_from re tx)"

subsection \<open>grep\<close>

text \<open>The loop over the lines in the buffer: what is printed, and what is left without a newline.\<close>

function grep_lines :: "u8 list \<Rightarrow> u8 list \<Rightarrow> uoutput \<times> u8 list" where
  "grep_lines re p = (case strchr p newline of
      None \<Rightarrow> ([], p)
    | Some k \<Rightarrow>
        let (out, rest) = grep_lines re (drop (Suc k) p)
        in (if match re (take k p) then (1, take (Suc k) p) # out else out, rest))"
  by pat_completeness auto
termination
  by (relation "measure (\<lambda>(re, p). length p)") (auto simp: strchr_def Let_def split: if_splits)

declare grep_lines.simps [simp del]

text \<open>The outer loop with the first \<^verbatim>\<open>m\<close> bytes of the buffer, which has 1024 bytes with the final NUL.\<close>

function grep :: "u8 list \<Rightarrow> u8 list \<Rightarrow> uinput \<Rightarrow> uoutput" where
  "grep re buf inp = (case read_in (1024 - length buf - 1) inp of
      (Some (b # bs), inp) \<Rightarrow> (let (out, rest) = grep_lines re (buf @ b # bs) in out @ grep re rest inp)
    | _ \<Rightarrow> [])"
  by pat_completeness auto
termination
  by (relation "measure (\<lambda>(re, buf, inp). input_size inp)") (auto dest: read_in_shorter [OF sym])

declare grep.simps [simp del]

text \<open>
  The programs: \<open>fs\<close> gives what a read of the named file returns, or \<^const>\<open>None\<close> when it cannot be opened. The result is the
  exit status with the output. \<^const>\<open>None\<close> is a call of \<^verbatim>\<open>printf\<close> with arguments that do not fit the format, which
  does not happen.
\<close>

definition fprintf :: "nat \<Rightarrow> string \<Rightarrow> va list \<Rightarrow> uoutput option" where
  "fprintf fd fmt ap = map_option (\<lambda>bs. [(fd, bs)]) (vprintf False (bytes fmt) ap)"

definition after :: "uoutput \<Rightarrow> (cint \<times> uoutput) option \<Rightarrow> (cint \<times> uoutput) option" where
  "after out r = map_option (\<lambda>(st, out'). (st, out @ out')) r"

fun grep_files :: "(u8 list \<Rightarrow> uinput option) \<Rightarrow> u8 list \<Rightarrow> u8 list list \<Rightarrow> (cint \<times> uoutput) option" where
  "grep_files fs re [] = Some (0, [])"
| "grep_files fs re (f # args) = (case fs f of
      None \<Rightarrow> map_option (Pair 1) (fprintf 1 ''grep: cannot open %s\<newline>'' [VStr (Some f)])
    | Some inp \<Rightarrow> after (grep re [] inp) (grep_files fs re args))"

definition grep_main :: "(u8 list \<Rightarrow> uinput option) \<Rightarrow> uinput \<Rightarrow> u8 list list \<Rightarrow> (cint \<times> uoutput) option" where
  "grep_main fs inp argv =
     (if length argv \<le> 1 then map_option (Pair 1) (fprintf 2 ''usage: grep pattern [file ...]\<newline>'' [])
      else if length argv \<le> 2 then Some (0, grep (argv ! 1) [] inp)
      else grep_files fs (argv ! 1) (drop 2 argv))"

subsection \<open>wc\<close>

record counts =
  lines :: cint
  words :: cint
  chars :: cint
  inword :: bool

definition wc_space :: "u8 list" where
  "wc_space = [32, 13, 9, 10, 11]"

definition wc_char :: "u8 \<Rightarrow> counts \<Rightarrow> counts" where
  "wc_char b s =
     (let s = s\<lparr>chars := chars s + 1\<rparr>;
          s = (if b = newline then s\<lparr>lines := lines s + 1\<rparr> else s)
      in if strchr wc_space b \<noteq> None then s\<lparr>inword := False\<rparr>
         else if \<not> inword s then s\<lparr>words := words s + 1, inword := True\<rparr>
         else s)"

text \<open>The loop; the result is \<^const>\<open>None\<close> after a read error.\<close>

function wc_loop :: "counts \<Rightarrow> uinput \<Rightarrow> counts option" where
  "wc_loop s inp = (case read_in 512 inp of
      (Some (b # bs), inp) \<Rightarrow> wc_loop (fold wc_char (b # bs) s) inp
    | (Some [], _) \<Rightarrow> Some s
    | (None, _) \<Rightarrow> None)"
  by pat_completeness auto
termination
  by (relation "measure (\<lambda>(s, inp). input_size inp)") (auto dest: read_in_shorter [OF sym])

declare wc_loop.simps [simp del]

definition wc_start :: counts where
  "wc_start = \<lparr>lines = 0, words = 0, chars = 0, inword = False\<rparr>"

definition wc :: "u8 list \<Rightarrow> uinput \<Rightarrow> (cint \<times> uoutput) option" where
  "wc nm inp = (case wc_loop wc_start inp of
      None \<Rightarrow> map_option (Pair 1) (fprintf 1 ''wc: read error\<newline>'' [])
    | Some s \<Rightarrow> map_option (Pair 0)
        (fprintf 1 ''%d %d %d %s\<newline>'' [VNum (scast (lines s)), VNum (scast (words s)), VNum (scast (chars s)), VStr (Some nm)]))"

fun wc_files :: "(u8 list \<Rightarrow> uinput option) \<Rightarrow> u8 list list \<Rightarrow> (cint \<times> uoutput) option" where
  "wc_files fs [] = Some (0, [])"
| "wc_files fs (f # args) = (case fs f of
      None \<Rightarrow> map_option (Pair 1) (fprintf 1 ''wc: cannot open %s\<newline>'' [VStr (Some f)])
    | Some inp \<Rightarrow> do { (st, out) \<leftarrow> wc f inp; if st \<noteq> 0 then Some (st, out) else after out (wc_files fs args) })"

definition wc_main :: "(u8 list \<Rightarrow> uinput option) \<Rightarrow> uinput \<Rightarrow> u8 list list \<Rightarrow> (cint \<times> uoutput) option" where
  "wc_main fs inp argv = (if length argv \<le> 1 then wc [] inp else wc_files fs (drop 1 argv))"

subsection \<open>cat and echo\<close>

text \<open>
  The loop of \<^verbatim>\<open>cat\<close>: \<open>wr\<close> is what \<^verbatim>\<open>write\<close> returns for the bytes it is given. The status is \<^const>\<open>None\<close> when the loop ends at the end
  of the input, and otherwise the message the program exits with.
\<close>

function cat :: "(u8 list \<Rightarrow> cint) \<Rightarrow> uinput \<Rightarrow> uoutput \<times> string option" where
  "cat wr inp = (case read_in 512 inp of
      (Some (b # bs), inp) \<Rightarrow>
        if wr (b # bs) \<noteq> of_nat (length (b # bs)) then ([(1, b # bs)], Some ''cat: write error\<newline>'')
        else (let (out, st) = cat wr inp in ((1, b # bs) # out, st))
    | (Some [], _) \<Rightarrow> ([], None)
    | (None, _) \<Rightarrow> ([], Some ''cat: read error\<newline>''))"
  by pat_completeness auto
termination
  by (relation "measure (\<lambda>(wr, inp). input_size inp)") (auto dest: read_in_shorter [OF sym])

declare cat.simps [simp del]

fun cat_files :: "(u8 list \<Rightarrow> cint) \<Rightarrow> (u8 list \<Rightarrow> uinput option) \<Rightarrow> u8 list list \<Rightarrow> (cint \<times> uoutput) option" where
  "cat_files wr fs [] = Some (0, [])"
| "cat_files wr fs (f # args) = (case fs f of
      None \<Rightarrow> map_option (Pair 1) (fprintf 2 ''cat: cannot open %s\<newline>'' [VStr (Some f)])
    | Some inp \<Rightarrow> (case cat wr inp of
          (out, Some msg) \<Rightarrow> after out (map_option (Pair 1) (fprintf 2 msg []))
        | (out, None) \<Rightarrow> after out (cat_files wr fs args)))"

definition cat_main :: "(u8 list \<Rightarrow> cint) \<Rightarrow> (u8 list \<Rightarrow> uinput option) \<Rightarrow> uinput \<Rightarrow> u8 list list \<Rightarrow> (cint \<times> uoutput) option" where
  "cat_main wr fs inp argv =
     (if length argv \<le> 1 then cat_files wr (\<lambda>_. Some inp) [[]] else cat_files wr fs (drop 1 argv))"

fun echo_args :: "u8 list list \<Rightarrow> uoutput" where
  "echo_args [] = []"
| "echo_args (a # as) = (1, a) # (1, if as \<noteq> [] then [32] else [newline]) # echo_args as"

definition echo_main :: "u8 list list \<Rightarrow> cint \<times> uoutput" where
  "echo_main argv = (0, echo_args (drop 1 argv))"

subsection \<open>What the matcher accepts\<close>

text \<open>
  The reference: a pattern is a sequence of items, and the text must split into segments, one for each item, with
  nothing behind them if the pattern ends in a dollar sign.
\<close>

datatype item = One u8 | Many u8 | Eol

fun items :: "u8 list \<Rightarrow> item list" where
  "items [] = []"
| "items [c] = (if c = dollar then [Eol] else [One c])"
| "items (c # d # re) = (if d = star then Many c # items re else One c # items (d # re))"

definition fits :: "u8 \<Rightarrow> u8 \<Rightarrow> bool" where
  "fits p c \<longleftrightarrow> p = dot \<or> p = c"

fun segment :: "item \<Rightarrow> u8 list \<Rightarrow> bool" where
  "segment (One p) u \<longleftrightarrow> (\<exists>c. u = [c] \<and> fits p c)"
| "segment (Many p) u \<longleftrightarrow> list_all (fits p) u"
| "segment Eol u \<longleftrightarrow> u = []"

definition at_start :: "item list \<Rightarrow> u8 list \<Rightarrow> bool" where
  "at_start is tx \<longleftrightarrow> (\<exists>us rest. tx = concat us @ rest \<and> list_all2 segment is us \<and> (Eol \<in> set is \<longrightarrow> rest = []))"

lemma at_start_Nil [simp]: "at_start [] tx"
  by (simp add: at_start_def)

lemma at_start_Eol: "at_start [Eol] tx \<longleftrightarrow> tx = []"
  by (auto simp: at_start_def list_all2_Cons1)

lemma at_start_One:
  "at_start (One p # is) tx \<longleftrightarrow> (case tx of [] \<Rightarrow> False | t # ts \<Rightarrow> fits p t \<and> at_start is ts)"
proof (cases tx)
  case (Cons t ts)
  show ?thesis
  proof
    assume "at_start (One p # is) tx"
    then show "case tx of [] \<Rightarrow> False | t # ts \<Rightarrow> fits p t \<and> at_start is ts"
      using Cons by (fastforce simp: at_start_def list_all2_Cons1)
  next
    assume "case tx of [] \<Rightarrow> False | t # ts \<Rightarrow> fits p t \<and> at_start is ts"
    then obtain us rest where "fits p t" "ts = concat us @ rest" "list_all2 segment is us" "Eol \<in> set is \<longrightarrow> rest = []"
      using Cons by (auto simp: at_start_def)
    then show "at_start (One p # is) tx" using Cons unfolding at_start_def
      by (intro exI [of _ "[t] # us"] exI [of _ rest]) auto
  qed
qed (auto simp: at_start_def list_all2_Cons1)

lemma at_start_Many_ex:
  "at_start (Many p # is) tx \<longleftrightarrow>
     (\<exists>u us rest. tx = u @ concat us @ rest \<and> list_all (fits p) u \<and> list_all2 segment is us \<and> (Eol \<in> set is \<longrightarrow> rest = []))"
  unfolding at_start_def list_all2_Cons1 by (auto; metis append.assoc append_Nil2 concat.simps(2) segment.simps(2))

lemma at_start_Many:
  "at_start (Many p # is) tx \<longleftrightarrow> at_start is tx \<or> (case tx of [] \<Rightarrow> False | t # ts \<Rightarrow> fits p t \<and> at_start (Many p # is) ts)"
proof
  assume "at_start (Many p # is) tx"
  then obtain u us rest where u: "tx = u @ concat us @ rest" "list_all (fits p) u" "list_all2 segment is us" "Eol \<in> set is \<longrightarrow> rest = []"
    unfolding at_start_Many_ex by blast
  show "at_start is tx \<or> (case tx of [] \<Rightarrow> False | t # ts \<Rightarrow> fits p t \<and> at_start (Many p # is) ts)"
  proof (cases u)
    case Nil
    then show ?thesis using u by (auto simp: at_start_def)
  next
    case (Cons t v)
    then have "at_start (Many p # is) (v @ concat us @ rest)" using u unfolding at_start_Many_ex
      by (intro exI [of _ v] exI [of _ us] exI [of _ rest]) auto
    then show ?thesis using Cons u by auto
  qed
next
  have nil: "at_start (Many p # is) tx" if "at_start is tx" for tx
  proof -
    from that obtain us rest where "tx = concat us @ rest" "list_all2 segment is us" "Eol \<in> set is \<longrightarrow> rest = []"
      by (auto simp: at_start_def)
    then show ?thesis unfolding at_start_def by (intro exI [of _ "[] # us"] exI [of _ rest]) auto
  qed
  have cons: "at_start (Many p # is) (t # ts)" if f: "fits p t" and "at_start (Many p # is) ts" for t ts
  proof -
    from that(2) obtain u us rest where "ts = u @ concat us @ rest" "list_all (fits p) u" "list_all2 segment is us"
      "Eol \<in> set is \<longrightarrow> rest = []" unfolding at_start_Many_ex by blast
    then show ?thesis using f unfolding at_start_Many_ex by (intro exI [of _ "t # u"] exI [of _ us] exI [of _ rest]) auto
  qed
  assume "at_start is tx \<or> (case tx of [] \<Rightarrow> False | t # ts \<Rightarrow> fits p t \<and> at_start (Many p # is) ts)"
  then show "at_start (Many p # is) tx" using nil cons by (auto split: list.splits)
qed

lemma matchhere_items:
  "matchhere re tx \<longleftrightarrow> at_start (items re) tx" "matchstar c re tx \<longleftrightarrow> at_start (Many c # items re) tx"
proof (induction re tx and c re tx rule: matchhere_matchstar.induct)
  case (2 c re tx)
  show ?case
  proof (cases re)
    case Nil
    then show ?thesis using 2(2) by (auto simp: at_start_Eol at_start_One fits_def split: list.splits)
  next
    case (Cons d re')
    then show ?thesis using 2 by (auto simp: at_start_One fits_def split: list.splits)
  qed
next
  case (3 c re tx)
  show ?case using 3 by (subst at_start_Many) (auto simp: fits_def split: list.splits)
qed simp

lemma match_from_suffix: "match_from re tx \<longleftrightarrow> (\<exists>pre suf. tx = pre @ suf \<and> matchhere re suf)"
proof (induction tx)
  case (Cons t ts)
  have "(\<exists>pre suf. t # ts = pre @ suf \<and> matchhere re suf) \<longleftrightarrow> matchhere re (t # ts) \<or> (\<exists>pre suf. ts = pre @ suf \<and> matchhere re suf)"
    by (auto simp: Cons_eq_append_conv)
  then show ?case using Cons by simp
qed simp

text \<open>
  C30. The matcher of \<^verbatim>\<open>grep\<close> accepts a line exactly if the pattern occurs in it: some part of the line (a prefix of the line,
  if the pattern begins with a caret) splits into segments for the items of the pattern, where a character stands for
  itself, a dot for any character and a star for any number of repetitions, and a dollar sign at the end asks
  for the end of the line. The recursion of the three functions ends for every pattern and every line.
\<close>

theorem match_pattern:
  "match re tx \<longleftrightarrow>
     (if re \<noteq> [] \<and> hd re = caret then at_start (items (tl re)) tx
      else \<exists>pre suf. tx = pre @ suf \<and> at_start (items re) suf)"
  by (simp add: match_def match_from_suffix matchhere_items)

subsection \<open>The programs do not depend on how the input is cut\<close>

text \<open>The bytes of an input, and the inputs without read errors and without an end in the middle.\<close>

fun input_data :: "uinput \<Rightarrow> u8 list" where
  "input_data [] = []"
| "input_data (Broken # xs) = input_data xs"
| "input_data (Avail c # xs) = c @ input_data xs"

definition plain :: "uinput \<Rightarrow> bool" where
  "plain inp \<longleftrightarrow> (\<forall>x \<in> set inp. \<exists>c. x = Avail c \<and> c \<noteq> [])"

lemma plain_read:
  assumes "plain inp" "inp \<noteq> []" "0 < room"
  obtains b bs inp' where "read_in room inp = (Some (b # bs), inp')" "input_data inp = b # bs @ input_data inp'" "plain inp'"
    "length (b # bs) \<le> room"
proof -
  obtain c xs where i: "inp = Avail c # xs" "c \<noteq> []" using assms(1,2) by (cases inp) (auto simp: plain_def)
  obtain b bs where t: "take room c = b # bs" using i(2) assms(3) by (cases "take room c") auto
  define d where "d = drop room c"
  define inp' where "inp' = (if length c \<le> room then xs else Avail d # xs)"
  have len: "length (b # bs) \<le> room" using arg_cong [OF t, of length] by simp
  have c: "c = b # bs @ d" using append_take_drop_id [of room c] t by (simp add: d_def)
  have r: "read_in room inp = (Some (b # bs), inp')" using i(1) t by (simp add: inp'_def d_def)
  have nil: "d = [] \<longleftrightarrow> length c \<le> room" by (simp add: d_def)
  have "input_data inp' = d @ input_data xs" "plain inp'" using nil assms(1) i(1) by (auto simp: inp'_def plain_def)
  then show thesis using that [OF r _ _ len] i(1) c by simp
qed

text \<open>The lines that end in a newline, and what follows the last one.\<close>

fun split_lines :: "u8 list \<Rightarrow> u8 list list \<times> u8 list" where
  "split_lines [] = ([], [])"
| "split_lines (c # cs) = (let (ls, r) = split_lines cs in
     if c = newline then ([] # ls, r) else case ls of [] \<Rightarrow> ([], c # r) | l # ls' \<Rightarrow> ((c # l) # ls', r))"

lemma split_lines_none [simp]: "newline \<notin> set p \<Longrightarrow> split_lines p = ([], p)"
  by (induction p) auto

lemma split_lines_first: "newline \<notin> set l \<Longrightarrow> split_lines (l @ newline # q) = (l # fst (split_lines q), snd (split_lines q))"
  by (induction l) (auto split: prod.splits)

lemma split_lines_rest: "newline \<notin> set (snd (split_lines p))" "length (snd (split_lines p)) \<le> length p"
  by (induction p) (auto split: prod.splits list.splits)

lemma split_lines_rest_set: "set (snd (split_lines p)) \<subseteq> set p"
  by (induction p) (auto split: prod.splits list.splits)

lemma first_newline:
  assumes "newline \<in> set p"
  obtains l q where "p = l @ newline # q" "newline \<notin> set l" "takeWhile (\<lambda>x. x \<noteq> newline) p = l"
  using split_list_first [OF assms] by (metis (mono_tags, lifting) takeWhile_append2 takeWhile.simps(2) append_Nil2)

lemma strchr_newline:
  assumes "0 \<notin> set p"
  shows "strchr p newline = (if newline \<in> set p then Some (length (takeWhile (\<lambda>x. x \<noteq> newline) p)) else None)"
proof -
  have t: "takeWhile (\<lambda>x. x \<noteq> 0 \<and> x \<noteq> newline) p = takeWhile (\<lambda>x. x \<noteq> newline) p" using assms by (intro takeWhile_cong) auto
  show ?thesis
  proof (cases "newline \<in> set p")
    case True
    then obtain l q where p: "p = l @ newline # q" "newline \<notin> set l" "takeWhile (\<lambda>x. x \<noteq> newline) p = l" by (rule first_newline)
    have "p ! length l = newline" "length l < length p" using p(1) by simp_all
    then show ?thesis unfolding strchr_def t p(3) using True by simp
  next
    case False
    then have w: "takeWhile (\<lambda>x. x \<noteq> newline) p = p" by (auto simp: takeWhile_eq_all_conv)
    show ?thesis unfolding strchr_def t w using False by simp
  qed
qed

definition matching :: "u8 list \<Rightarrow> u8 list list \<Rightarrow> uoutput" where
  "matching re ls = map (\<lambda>l. (1, l @ [newline])) (filter (match re) ls)"

lemma grep_lines_split:
  "0 \<notin> set p \<Longrightarrow> grep_lines re p = (matching re (fst (split_lines p)), snd (split_lines p))"
proof (induction "length p" arbitrary: p rule: less_induct)
  case less
  show ?case
  proof (cases "newline \<in> set p")
    case False
    then show ?thesis using less.prems by (simp add: grep_lines.simps strchr_newline matching_def)
  next
    case True
    then obtain l q where p: "p = l @ newline # q" "newline \<notin> set l" "takeWhile (\<lambda>x. x \<noteq> newline) p = l" by (rule first_newline)
    have "grep_lines re q = (matching re (fst (split_lines q)), snd (split_lines q))" using less p(1) by simp
    then show ?thesis using True p less.prems split_lines_first [OF p(2), of q]
      by (subst grep_lines.simps) (simp add: strchr_newline matching_def)
  qed
qed

lemma split_lines_append:
  "split_lines (x @ y) = (fst (split_lines x) @ fst (split_lines (snd (split_lines x) @ y)), snd (split_lines (snd (split_lines x) @ y)))"
proof (induction "length x" arbitrary: x rule: less_induct)
  case less
  show ?case
  proof (cases "newline \<in> set x")
    case True
    then obtain l q where p: "x = l @ newline # q" "newline \<notin> set l" by (rule first_newline)
    show ?thesis using less [of q] split_lines_first [OF p(2), of q] split_lines_first [OF p(2), of "q @ y"] p(1) by simp
  qed simp
qed

lemma long_buffer_no_line:
  assumes "\<forall>l \<in> set (fst (split_lines (buf @ y))). length l < length buf" "newline \<notin> set buf"
  shows "fst (split_lines (buf @ y)) = []"
proof (cases "newline \<in> set (buf @ y)")
  case True
  then obtain l q where p: "buf @ y = l @ newline # q" "newline \<notin> set l" by (rule first_newline)
  then have "length l < length buf" using assms(1) split_lines_first [OF p(2), of q] by simp
  then have "newline \<in> set buf" using arg_cong [OF p(1), of "\<lambda>xs. xs ! length l"] by (simp add: nth_append) (metis nth_mem)
  then show ?thesis using assms(2) by simp
qed simp

lemma grep_buffer:
  assumes "plain inp" "newline \<notin> set buf" "length buf \<le> 1023" "0 \<notin> set (buf @ input_data inp)"
    "\<forall>l \<in> set (fst (split_lines (buf @ input_data inp))). length l < 1023"
  shows "grep re buf inp = matching re (fst (split_lines (buf @ input_data inp)))"
  using assms
proof (induction "input_size inp" arbitrary: inp buf rule: less_induct)
  case less
  consider (full) "length buf = 1023" | (empty) "inp = []" | (some) "length buf < 1023" "inp \<noteq> []" using less.prems(3) by linarith
  then show ?case
  proof cases
    case full
    then have "fst (split_lines (buf @ input_data inp)) = []" using long_buffer_no_line [OF _ less.prems(2)] less.prems(5) by simp
    moreover have "\<exists>r. read_in 0 inp = (Some [], r)" using less.prems(1) by (cases inp) (auto simp: plain_def)
    ultimately show ?thesis using full by (auto simp: grep.simps [of re buf inp] matching_def)
  next
    case empty
    then show ?thesis using less.prems(2) by (simp add: grep.simps [of re buf "[]"] matching_def)
  next
    case some
    have room: "0 < 1024 - length buf - 1" using some(1) by simp
    obtain b bs inp' where r: "read_in (1024 - length buf - 1) inp = (Some (b # bs), inp')"
      "input_data inp = b # bs @ input_data inp'" "plain inp'" "length (b # bs) \<le> 1024 - length buf - 1"
      by (rule plain_read [OF less.prems(1) some(2) room])
    let ?x = "buf @ b # bs" and ?r = "snd (split_lines (buf @ b # bs))"
    have sp: "split_lines (buf @ input_data inp) =
        (fst (split_lines ?x) @ fst (split_lines (?r @ input_data inp')), snd (split_lines (?r @ input_data inp')))"
      using split_lines_append [of ?x "input_data inp'"] r(2) by simp
    have nz: "0 \<notin> set ?x" "0 \<notin> set (?r @ input_data inp')"
      using less.prems(4) r(2) split_lines_rest_set [of ?x] by auto
    have "length ?r \<le> 1023" using split_lines_rest(2) [of ?x] r(4) some(1) by simp
    then have "grep re ?r inp' = matching re (fst (split_lines (?r @ input_data inp')))"
      using less.hyps [OF read_in_shorter [OF r(1)] r(3) split_lines_rest(1)] nz(2) less.prems(5) sp by simp
    then show ?thesis using r(1) grep_lines_split [OF nz(1)] sp by (simp add: grep.simps [of re buf inp] matching_def)
  qed
qed

text \<open>
  C31. \<^verbatim>\<open>grep\<close> prints exactly the matching lines: however the reads cut the input into pieces, and wherever a line
  crosses the end of its buffer, it prints the lines of the input that match, in order and each with its newline, if the input has
  no NUL and no line of more than 1022 characters. A last line without a newline is not printed.
\<close>

theorem grep_prints_matches:
  assumes "plain inp" "0 \<notin> set (input_data inp)" "\<forall>l \<in> set (fst (split_lines (input_data inp))). length l < 1023"
  shows "grep re [] inp = map (\<lambda>l. (1, l @ [newline])) (filter (match re) (fst (split_lines (input_data inp))))"
  using grep_buffer [of inp "[]" re] assms by (simp add: matching_def)

theorem grep_prints_matches_witness:
  "grep (bytes ''b*c'') [] [Avail (bytes ''ab''), Avail (bytes ''bc\<newline>xy\<newline>''), Avail (bytes ''c'')] = [(1, bytes ''abbc\<newline>'')]"
proof -
  have s: "split_lines (bytes ''abbc\<newline>xy\<newline>c'') = ([bytes ''abbc'', bytes ''xy''], bytes ''c'')" by simp
  have m: "match (bytes ''b*c'') (bytes ''abbc'')" "\<not> match (bytes ''b*c'') (bytes ''xy'')" by (simp_all add: match_def)
  show ?thesis
    using grep_prints_matches [of "[Avail (bytes ''ab''), Avail (bytes ''bc\<newline>xy\<newline>''), Avail (bytes ''c'')]" "bytes ''b*c''"] s m
    by (simp add: plain_def)
qed

subsection \<open>wc counts lines, words and characters\<close>

definition is_space :: "u8 \<Rightarrow> bool" where
  "is_space b \<longleftrightarrow> b \<in> {32, 13, 9, 10, 11}"

text \<open>The reference: the words are the longest parts without white space.\<close>

function words_of :: "u8 list \<Rightarrow> u8 list list" where
  "words_of bs = (let bs = dropWhile is_space bs in
     if bs = [] then [] else takeWhile (\<lambda>b. \<not> is_space b) bs # words_of (dropWhile (\<lambda>b. \<not> is_space b) bs))"
  by pat_completeness auto

lemma words_of_shorter:
  assumes "dropWhile is_space bs \<noteq> []"
  shows "length (dropWhile (\<lambda>b. \<not> is_space b) (dropWhile is_space bs)) < length bs"
proof -
  obtain c cs where d: "dropWhile is_space bs = c # cs" using assms by (cases "dropWhile is_space bs") auto
  then have "\<not> is_space c" by (metis hd_dropWhile list.sel(1) list.distinct(1))
  then show ?thesis
    using d length_dropWhile_le [of "\<lambda>b. \<not> is_space b" cs] length_dropWhile_le [of is_space bs] by simp
qed

termination words_of
  by (relation "measure length") (auto intro: words_of_shorter)

declare words_of.simps [simp del]

lemma words_of_space [simp]: "is_space b \<Longrightarrow> words_of (b # bs) = words_of bs"
  by (simp add: words_of.simps [of "b # bs"] words_of.simps [of bs])

lemma words_of_char: "\<not> is_space b \<Longrightarrow> length (words_of (b # bs)) = Suc (length (words_of (dropWhile (\<lambda>b. \<not> is_space b) bs)))"
  by (simp add: words_of.simps [of "b # bs"])

lemma words_of_Nil [simp]: "words_of [] = []"
  by (simp add: words_of.simps)

lemma strchr_space: "strchr wc_space b \<noteq> None \<longleftrightarrow> is_space b"
  by (auto simp: strchr_def wc_space_def is_space_def)

lemma wc_char_eq:
  "wc_char b s = \<lparr>lines = lines s + (if b = newline then 1 else 0), words = words s + (if is_space b \<or> inword s then 0 else 1),
     chars = chars s + 1, inword = (\<not> is_space b)\<rparr>"
  unfolding wc_char_def strchr_space Let_def by (cases s) (auto simp: is_space_def)

lemma wc_fold:
  "fold wc_char bs s = \<lparr>lines = lines s + of_nat (count_list bs newline),
     words = words s + of_nat (length (words_of (if inword s then dropWhile (\<lambda>b. \<not> is_space b) bs else bs))),
     chars = chars s + of_nat (length bs), inword = (if bs = [] then inword s else \<not> is_space (last bs))\<rparr>"
proof (induction bs arbitrary: s)
  case (Cons b bs)
  have e: "fold wc_char (b # bs) s = fold wc_char bs (wc_char b s)" by simp
  have n: "is_space newline" by (simp add: is_space_def)
  show ?case
  proof (cases "is_space b")
    case True
    then show ?thesis using n unfolding e Cons.IH [of "wc_char b s"] unfolding wc_char_eq [of b s] by (simp add: add.assoc)
  next
    case False
    then have "b \<noteq> newline" using n by auto
    then show ?thesis using False unfolding e Cons.IH [of "wc_char b s"] unfolding wc_char_eq [of b s] by (simp add: words_of_char)
  qed
qed simp

lemma wc_loop_data: "plain inp \<Longrightarrow> wc_loop s inp = Some (fold wc_char (input_data inp) s)"
proof (induction "input_size inp" arbitrary: inp s rule: less_induct)
  case less
  show ?case
  proof (cases "inp = []")
    case False
    obtain b bs inp' where r: "read_in 512 inp = (Some (b # bs), inp')"
      "input_data inp = b # bs @ input_data inp'" "plain inp'" "length (b # bs) \<le> 512"
      by (rule plain_read [OF less.prems False, of 512]) auto
    then show ?thesis using less.hyps [OF read_in_shorter [OF r(1)] r(3)] by (simp add: wc_loop.simps [of s inp])
  qed (simp add: wc_loop.simps)
qed

text \<open>
  C32. \<^verbatim>\<open>wc\<close> counts the newlines, the words and the characters of its input, up to the size of an \<^verbatim>\<open>int\<close>, however the reads cut
  the input into pieces: a word that crosses the end of a piece is counted once.
\<close>

theorem wc_counts:
  assumes "plain inp"
  shows "\<exists>s. wc_loop wc_start inp = Some s \<and> lines s = of_nat (count_list (input_data inp) newline) \<and>
    words s = of_nat (length (words_of (input_data inp))) \<and> chars s = of_nat (length (input_data inp))"
  using wc_loop_data [OF assms, of wc_start] by (simp add: wc_fold wc_start_def)

theorem wc_counts_witness:
  "\<exists>s. wc_loop wc_start [Avail (bytes ''a b''), Avail (bytes ''c d\<newline>'')] = Some s \<and> words s = 3 \<and> lines s = 1 \<and> chars s = 7"
proof -
  have "words_of (bytes ''a bc d\<newline>'') = [bytes ''a'', bytes ''bc'', bytes ''d'']"
    by (simp add: words_of.simps is_space_def)
  then show ?thesis using wc_counts [of "[Avail (bytes ''a b''), Avail (bytes ''c d\<newline>'')]"] by (auto simp: plain_def)
qed

end
