(* ===== verification/Shell.thy ===== *)
theory Shell
  imports Sysfile User_Text
begin

section \<open>The shell\<close>

text \<open>
  \<^verbatim>\<open>user/sh.c\<close>. The parser works on positions in the command line \<open>b\<close>, as the code works on pointers into its buffer:
  \<^verbatim>\<open>es\<close> is the end of the line, where the NUL is. A parsed command refers to its words by pairs of positions until
  \<^verbatim>\<open>nulterminate\<close> stores NULs behind them. A call of \<^verbatim>\<open>panic\<close> is the left value with the message.

  The functions that run commands are modelled as the tree of system calls that they make, with the branches that
  the results select.
\<close>

subsection \<open>Commands\<close>

abbreviation MAXARGS :: nat where "MAXARGS \<equiv> 10"

text \<open>The file of a redirection, with the mode of \<^verbatim>\<open>open\<close> and the descriptor, is part of its command.\<close>

datatype cmd =
    EXEC "(nat \<times> nat) list"
  | REDIR cmd "nat \<times> nat" cint nat
  | PIPE cmd cmd
  | LIST cmd cmd
  | BACK cmd

subsection \<open>Tokens\<close>

definition whitespace :: "u8 list" where
  "whitespace = [32, 9, 13, 10, 11]"

definition symbols :: "u8 list" where
  "symbols = bytes ''<|>&;()''"

text \<open>The character at a position; behind the end it is the NUL.\<close>

definition chr_at :: "u8 list \<Rightarrow> nat \<Rightarrow> u8" where
  "chr_at b s = (if s < length b then b ! s else 0)"

function skip_while :: "(u8 \<Rightarrow> bool) \<Rightarrow> u8 list \<Rightarrow> nat \<Rightarrow> nat" where
  "skip_while P b s = (if s < length b \<and> P (b ! s) then skip_while P b (Suc s) else s)"
  by pat_completeness auto
termination
  by (relation "measure (\<lambda>(P, b, s). length b - s)") auto

declare skip_while.simps [simp del]

definition is_white :: "u8 \<Rightarrow> bool" where
  "is_white c \<longleftrightarrow> strchr whitespace c \<noteq> None"

definition is_symbol :: "u8 \<Rightarrow> bool" where
  "is_symbol c \<longleftrightarrow> strchr symbols c \<noteq> None"

definition in_word :: "u8 \<Rightarrow> bool" where
  "in_word c \<longleftrightarrow> \<not> is_white c \<and> \<not> is_symbol c"

text \<open>The token, the positions of its first character and behind its last one, and the position after white space.\<close>

definition gettoken :: "u8 list \<Rightarrow> nat \<Rightarrow> u8 \<times> nat \<times> nat \<times> nat" where
  "gettoken b s =
     (let q = skip_while is_white b s;
          c = chr_at b q;
          (ret, eq) =
            (if c = 0 then (0, q)
             else if c \<in> set (bytes ''|();&<'') then (c, Suc q)
             else if c = byte CHR ''>'' then
               (if chr_at b (Suc q) = byte CHR ''>'' then (byte CHR ''+'', Suc (Suc q)) else (c, Suc q))
             else (byte CHR ''a'', skip_while in_word b q))
      in (ret, q, eq, skip_while is_white b eq))"

definition peek :: "u8 list \<Rightarrow> nat \<Rightarrow> string \<Rightarrow> bool \<times> nat" where
  "peek b s toks = (let s = skip_while is_white b s; c = chr_at b s in (c \<noteq> 0 \<and> strchr (bytes toks) c \<noteq> None, s))"

subsection \<open>Where the tokens are\<close>

lemma skip_while_ge: "s \<le> skip_while P b s"
proof (induction P b s rule: skip_while.induct)
  case (1 P b s)
  then show ?case by (subst skip_while.simps) force
qed

lemma skip_while_le: "s \<le> length b \<Longrightarrow> skip_while P b s \<le> length b"
proof (induction P b s rule: skip_while.induct)
  case (1 P b s)
  then show ?case by (subst skip_while.simps) auto
qed

lemma skip_while_all: "s \<le> k \<Longrightarrow> k < skip_while P b s \<Longrightarrow> k < length b \<and> P (b ! k)"
proof (induction P b s rule: skip_while.induct)
  case (1 P b s)
  show ?case
  proof (cases "s < length b \<and> P (b ! s)")
    case True
    then show ?thesis using 1 by (cases "k = s") (auto simp: skip_while.simps [of P b s])
  next
    case False
    then have "skip_while P b s = s" by (subst skip_while.simps) auto
    then show ?thesis using "1.prems" by simp
  qed
qed

lemma skip_while_end: "skip_while P b s < length b \<Longrightarrow> \<not> P (b ! skip_while P b s)"
proof (induction P b s rule: skip_while.induct)
  case (1 P b s)
  then show ?case by (cases "s < length b \<and> P (b ! s)") (auto simp: skip_while.simps [of P b s])
qed

lemma strchr_list: "0 \<notin> set xs \<Longrightarrow> strchr xs c \<noteq> None \<longleftrightarrow> c \<in> set xs"
proof
  assume "strchr xs c \<noteq> None"
  then show "c \<in> set xs" by (auto simp: strchr_def Let_def split: if_splits) (metis nth_mem)
next
  assume z: "0 \<notin> set xs" and c: "c \<in> set xs"
  obtain l q where x: "xs = l @ c # q" "c \<notin> set l" using split_list_first [OF c] by blast
  have "\<And>x. x \<in> set l \<Longrightarrow> x \<noteq> 0 \<and> x \<noteq> c" using x z by auto
  then have "takeWhile (\<lambda>x. x \<noteq> 0 \<and> x \<noteq> c) xs = l" unfolding x(1) by (subst takeWhile_append2) auto
  moreover have "c \<noteq> 0" using z c by auto
  ultimately show "strchr xs c \<noteq> None" by (simp add: strchr_def x(1))
qed

lemma is_white_iff: "is_white c \<longleftrightarrow> c \<in> {32, 9, 13, 10, 11}"
  unfolding is_white_def by (subst strchr_list) (auto simp: whitespace_def)

lemma is_symbol_iff: "is_symbol c \<longleftrightarrow> c \<in> {60, 124, 62, 38, 59, 40, 41}"
  unfolding is_symbol_def by (subst strchr_list) (auto simp: symbols_def)

lemma gettoken_pos:
  assumes "gettoken b s = (ret, q, eq, s')" "s \<le> length b"
  shows "s \<le> q" "q \<le> eq" "eq \<le> s'" "s' \<le> length b" "ret \<noteq> 0 \<Longrightarrow> q < eq"
proof -
  let ?q = "skip_while is_white b s"
  have q: "s \<le> ?q" "?q \<le> length b" using skip_while_ge skip_while_le assms(2) by blast+
  have e: "q = ?q" "s' = skip_while is_white b eq" using assms(1) by (auto simp: gettoken_def Let_def split: if_splits)
  have c: "chr_at b k \<noteq> 0 \<Longrightarrow> k < length b" for k by (auto simp: chr_at_def split: if_splits)
  have w: "?q < skip_while in_word b ?q \<and> skip_while in_word b ?q \<le> length b"
    if "chr_at b ?q \<noteq> 0" "\<not> is_symbol (chr_at b ?q)"
  proof -
    have lt: "?q < length b" using that(1) by (rule c)
    then have "in_word (b ! ?q)" using that(2) skip_while_end [OF lt] by (simp add: in_word_def chr_at_def)
    then have "skip_while in_word b ?q = skip_while in_word b (Suc ?q)" using lt by (subst skip_while.simps) simp
    then show ?thesis using skip_while_ge [of "Suc ?q" in_word b] skip_while_le [of "Suc ?q" b in_word] lt by simp
  qed
  have eq: "eq \<le> length b \<and> ?q \<le> eq \<and> (ret \<noteq> 0 \<longrightarrow> ?q < eq)"
    using assms(1) q(2) w c [of ?q] c [of "Suc ?q"]
    by (auto simp: gettoken_def Let_def is_symbol_iff split: if_splits)
  show "s \<le> q" "q \<le> eq" "eq \<le> s'" "s' \<le> length b" "ret \<noteq> 0 \<Longrightarrow> q < eq"
    using q e eq skip_while_ge [of eq] skip_while_le [of eq b] by auto
qed

lemma peek_pos:
  assumes "peek b s toks = (r, s')"
  shows "s \<le> s'" "s \<le> length b \<Longrightarrow> s' \<le> length b" "r \<Longrightarrow> s' < length b \<and> chr_at b s' \<noteq> 0 \<and> \<not> is_white (chr_at b s')"
  using assms skip_while_ge [of s is_white b] skip_while_le [of s b is_white] skip_while_end [of is_white b s]
  by (auto simp: peek_def Let_def chr_at_def split: if_splits)

lemma gettoken_peek:
  assumes "peek b s toks = (True, s1)" "gettoken b s1 = (ret, q, eq, s2)"
  shows "s1 < s2" "s2 \<le> length b"
proof -
  note p = peek_pos(3) [OF assms(1)]
  have le: "s1 \<le> length b" using p by simp
  have "skip_while is_white b s1 = s1" using p by (subst skip_while.simps) (auto simp: chr_at_def)
  then have "ret \<noteq> 0" using assms(2) p by (auto simp: gettoken_def Let_def split: if_splits)
  then show "s1 < s2" "s2 \<le> length b" using gettoken_pos [OF assms(2) le] by simp_all
qed

lemma peek_step:
  assumes "peek b s toks = (True, s1)" "gettoken b s1 = (tok, q, eq, s2)"
  shows "length b - s2 < length b - s" "s < s2" "s2 \<le> length b"
  using peek_pos(1) [OF assms(1)] gettoken_peek [OF assms] by simp_all

lemma redirs_step:
  assumes p: "peek b s toks = (True, s1)" and g: "gettoken b s1 = (tok, q', e', s2)" and g2: "gettoken b s2 = (tok2, q, eq, s3)"
  shows "length b - s3 < length b - s" "s \<le> s3" "s3 \<le> length b"
  using peek_pos(1) [OF p] gettoken_peek [OF p g] gettoken_pos(1-4) [OF g2] by simp_all

subsection \<open>The parser\<close>

definition redir_cmd :: "u8 \<Rightarrow> cmd \<Rightarrow> nat \<times> nat \<Rightarrow> cmd" where
  "redir_cmd tok c w =
     (if tok = byte CHR ''<'' then REDIR c w O_RDONLY 0
      else if tok = byte CHR ''>'' then REDIR c w (O_WRONLY OR O_CREATE OR O_TRUNC) 1
      else if tok = byte CHR ''+'' then REDIR c w (O_WRONLY OR O_CREATE) 1
      else c)"

function parseredirs :: "u8 list \<Rightarrow> cmd \<Rightarrow> nat \<Rightarrow> string + cmd \<times> nat" where
  "parseredirs b c s = (case peek b s ''<>'' of
      (False, s1) \<Rightarrow> Inr (c, s1)
    | (True, s1) \<Rightarrow> (case gettoken b s1 of (tok, _, _, s2) \<Rightarrow>
        (case gettoken b s2 of (tok2, q, eq, s3) \<Rightarrow>
          if tok2 \<noteq> byte CHR ''a'' then Inl ''missing file for redirection''
          else parseredirs b (redir_cmd tok c (q, eq)) s3)))"
  by pat_completeness auto
termination
  by (relation "measure (\<lambda>(b, c, s). length b - s)") (auto intro: redirs_step [OF sym sym sym])

declare parseredirs.simps [simp del]

text \<open>Storing an argument through the pointer to the command inside the redirections.\<close>

fun add_arg :: "nat \<times> nat \<Rightarrow> cmd \<Rightarrow> cmd" where
  "add_arg w (EXEC ws) = EXEC (ws @ [w])"
| "add_arg w (REDIR c f m d) = REDIR (add_arg w c) f m d"
| "add_arg w c = c"

function parseargs :: "u8 list \<Rightarrow> cmd \<Rightarrow> nat \<Rightarrow> nat \<Rightarrow> string + cmd \<times> nat" where
  "parseargs b ret argc s = (case peek b s ''|)&;'' of
      (True, s) \<Rightarrow> Inr (ret, s)
    | (False, s) \<Rightarrow> (case gettoken b s of (tok, q, eq, s) \<Rightarrow>
        if tok = 0 then Inr (ret, s)
        else if tok \<noteq> byte CHR ''a'' then Inl ''syntax''
        else if Suc argc \<ge> MAXARGS then Inl ''too many args''
        else (case parseredirs b (add_arg (q, eq) ret) s of
            Inl e \<Rightarrow> Inl e
          | Inr (ret, s) \<Rightarrow> parseargs b ret (Suc argc) s)))"
  by pat_completeness auto
termination
  by (relation "measure (\<lambda>(b, ret, argc, s). MAXARGS - argc)") auto

declare parseargs.simps [simp del]

function parsebacks :: "u8 list \<Rightarrow> cmd \<Rightarrow> nat \<Rightarrow> cmd \<times> nat" where
  "parsebacks b c s = (case peek b s ''&'' of
      (False, s) \<Rightarrow> (c, s)
    | (True, s) \<Rightarrow> (case gettoken b s of (_, _, _, s) \<Rightarrow> parsebacks b (BACK c) s))"
  by pat_completeness auto
termination
  by (relation "measure (\<lambda>(b, c, s). length b - s)") (auto dest!: sym [of "(True, _)"] sym [of "(_, _, _, _)"] intro: peek_step)

declare parsebacks.simps [simp del]

text \<open>A panic ends the parse; \<^const>\<open>None\<close> is the fuel that has run out.\<close>

type_synonym 'a parse = "(string + 'a) option"

definition andthen :: "'a parse \<Rightarrow> ('a \<Rightarrow> 'b parse) \<Rightarrow> 'b parse" where
  "andthen r f = (case r of None \<Rightarrow> None | Some (Inl e) \<Rightarrow> Some (Inl e) | Some (Inr x) \<Rightarrow> f x)"

fun parseline :: "nat \<Rightarrow> u8 list \<Rightarrow> nat \<Rightarrow> (cmd \<times> nat) parse"
  and parsepipe :: "nat \<Rightarrow> u8 list \<Rightarrow> nat \<Rightarrow> (cmd \<times> nat) parse"
  and parseexec :: "nat \<Rightarrow> u8 list \<Rightarrow> nat \<Rightarrow> (cmd \<times> nat) parse"
  and parseblock :: "nat \<Rightarrow> u8 list \<Rightarrow> nat \<Rightarrow> (cmd \<times> nat) parse" where
  "parseline 0 b s = None"
| "parseline (Suc n) b s = andthen (parsepipe n b s) (\<lambda>(c, s).
     case parsebacks b c s of (c, s) \<Rightarrow>
     case peek b s '';'' of
       (False, s) \<Rightarrow> Some (Inr (c, s))
     | (True, s) \<Rightarrow> (case gettoken b s of (_, _, _, s) \<Rightarrow>
         andthen (parseline n b s) (\<lambda>(r, s). Some (Inr (LIST c r, s)))))"
| "parsepipe 0 b s = None"
| "parsepipe (Suc n) b s = andthen (parseexec n b s) (\<lambda>(c, s).
     case peek b s ''|'' of
       (False, s) \<Rightarrow> Some (Inr (c, s))
     | (True, s) \<Rightarrow> (case gettoken b s of (_, _, _, s) \<Rightarrow>
         andthen (parsepipe n b s) (\<lambda>(r, s). Some (Inr (PIPE c r, s)))))"
| "parseexec 0 b s = None"
| "parseexec (Suc n) b s = (case peek b s ''('' of
      (True, s) \<Rightarrow> parseblock n b s
    | (False, s) \<Rightarrow> (case parseredirs b (EXEC []) s of
          Inl e \<Rightarrow> Some (Inl e)
        | Inr (ret, s) \<Rightarrow> Some (parseargs b ret 0 s)))"
| "parseblock 0 b s = None"
| "parseblock (Suc n) b s = (case peek b s ''('' of
      (False, s) \<Rightarrow> Some (Inl ''parseblock'')
    | (True, s) \<Rightarrow> (case gettoken b s of (_, _, _, s) \<Rightarrow>
        andthen (parseline n b s) (\<lambda>(c, s).
          case peek b s '')'' of
            (False, s) \<Rightarrow> Some (Inl ''syntax - missing )'')
          | (True, s) \<Rightarrow> (case gettoken b s of (_, _, _, s) \<Rightarrow> Some (parseredirs b c s)))))"

text \<open>The stores of \<^verbatim>\<open>nulterminate\<close> into the buffer, which has one byte more than the line.\<close>

fun nulterminate :: "cmd \<Rightarrow> u8 list \<Rightarrow> u8 list" where
  "nulterminate (EXEC ws) buf = fold (\<lambda>w buf. buf[snd w := 0]) ws buf"
| "nulterminate (REDIR c f m d) buf = (nulterminate c buf)[snd f := 0]"
| "nulterminate (PIPE l r) buf = nulterminate r (nulterminate l buf)"
| "nulterminate (LIST l r) buf = nulterminate r (nulterminate l buf)"
| "nulterminate (BACK c) buf = nulterminate c buf"

text \<open>
  The result is the command with the buffer. Four levels of recursion consume at least one character of the line, so the fuel is
  enough.
\<close>

definition parsecmd :: "u8 list \<Rightarrow> (cmd \<times> u8 list) parse" where
  "parsecmd b = andthen (parseline (4 * length b + 4) b 0) (\<lambda>(c, s).
     case peek b s '''' of (_, s) \<Rightarrow>
     if s \<noteq> length b then Some (Inl ''syntax'') else Some (Inr (c, nulterminate c (b @ [0]))))"

subsection \<open>Parsing ends, and the words of a command are words of the line\<close>

text \<open>A word of the line: characters that are no white space and no symbol, up to the first one that is or to the end.\<close>

definition word_at :: "u8 list \<Rightarrow> nat \<times> nat \<Rightarrow> bool" where
  "word_at b w \<longleftrightarrow> fst w < snd w \<and> snd w \<le> length b \<and> (\<forall>k. fst w \<le> k \<and> k < snd w \<longrightarrow> in_word (b ! k)) \<and>
     (snd w < length b \<longrightarrow> \<not> in_word (b ! snd w))"

fun cmd_ok :: "u8 list \<Rightarrow> cmd \<Rightarrow> bool" where
  "cmd_ok b (EXEC ws) \<longleftrightarrow> length ws < MAXARGS \<and> list_all (word_at b) ws"
| "cmd_ok b (REDIR c f m d) \<longleftrightarrow> cmd_ok b c \<and> word_at b f"
| "cmd_ok b (PIPE l r) \<longleftrightarrow> cmd_ok b l \<and> cmd_ok b r"
| "cmd_ok b (LIST l r) \<longleftrightarrow> cmd_ok b l \<and> cmd_ok b r"
| "cmd_ok b (BACK c) \<longleftrightarrow> cmd_ok b c"

text \<open>The command that arguments are added to: how many it has.\<close>

fun argcount :: "cmd \<Rightarrow> nat option" where
  "argcount (EXEC ws) = Some (length ws)"
| "argcount (REDIR c f m d) = argcount c"
| "argcount c = None"

lemma add_arg_ok:
  "argcount c = Some n \<Longrightarrow> Suc n < MAXARGS \<Longrightarrow> cmd_ok b c \<Longrightarrow> word_at b w \<Longrightarrow> cmd_ok b (add_arg w c) \<and> argcount (add_arg w c) = Some (Suc n)"
  by (induction w c rule: add_arg.induct) auto

lemma gettoken_word:
  assumes "gettoken b s = (byte CHR ''a'', q, eq, s')" "s \<le> length b"
  shows "word_at b (q, eq)"
proof -
  have q: "q = skip_while is_white b s" and e: "eq = skip_while in_word b q"
    using assms(1) by (auto simp: gettoken_def Let_def split: if_splits)
  have "q < eq" "eq \<le> length b" using gettoken_pos [OF assms] by simp_all
  moreover have "in_word (b ! k)" if "q \<le> k" "k < eq" for k using skip_while_all [of q k in_word b] that e by simp
  moreover have "\<not> in_word (b ! eq)" if "eq < length b" using skip_while_end [of in_word b q] that e by simp
  ultimately show ?thesis by (simp add: word_at_def)
qed

text \<open>What the functions of the parser return from position \<open>s\<close>: a command of the line and a later position.\<close>

definition good_parse :: "u8 list \<Rightarrow> nat \<Rightarrow> (cmd \<times> nat) parse \<Rightarrow> bool" where
  "good_parse b s r \<longleftrightarrow> (case r of None \<Rightarrow> False | Some (Inl _) \<Rightarrow> True | Some (Inr (c, s')) \<Rightarrow> cmd_ok b c \<and> s \<le> s' \<and> s' \<le> length b)"

lemma good_parse_simps [simp]:
  "good_parse b s (Some (Inl e))" "good_parse b s (Some (Inr (c, s'))) \<longleftrightarrow> cmd_ok b c \<and> s \<le> s' \<and> s' \<le> length b" "\<not> good_parse b s None"
  by (simp_all add: good_parse_def)

lemma good_parse_le: "good_parse b s' r \<Longrightarrow> s \<le> s' \<Longrightarrow> good_parse b s r"
  by (auto simp: good_parse_def split: option.splits sum.splits)

lemma good_andthen:
  assumes "good_parse b s r" "\<And>c s'. r = Some (Inr (c, s')) \<Longrightarrow> cmd_ok b c \<Longrightarrow> s \<le> s' \<Longrightarrow> s' \<le> length b \<Longrightarrow> good_parse b s (f (c, s'))"
  shows "good_parse b s (andthen r f)"
  using assms by (auto simp: good_parse_def andthen_def split: option.splits sum.splits)

lemma parseredirs_good:
  "s \<le> length b \<Longrightarrow> cmd_ok b c \<Longrightarrow> good_parse b s (Some (parseredirs b c s)) \<and>
     (\<forall>c' s'. parseredirs b c s = Inr (c', s') \<longrightarrow> argcount c' = argcount c)"
proof (induction "length b - s" arbitrary: c s rule: less_induct)
  case less
  obtain r s1 where p: "peek b s ''<>'' = (r, s1)" by (cases "peek b s ''<>''")
  show ?case
  proof (cases r)
    case False
    then show ?thesis using p peek_pos [OF p] less.prems by (simp add: parseredirs.simps [of b c s])
  next
    case True
    obtain tok q' e' s2 where g: "gettoken b s1 = (tok, q', e', s2)" by (cases "gettoken b s1")
    obtain tok2 q eq s3 where g2: "gettoken b s2 = (tok2, q, eq, s3)" by (cases "gettoken b s2")
    have p': "peek b s ''<>'' = (True, s1)" using p True by simp
    note st = redirs_step [OF p' g g2]
    show ?thesis
    proof (cases "tok2 = byte CHR ''a''")
      case ok: True
      have s2: "s2 \<le> length b" using peek_step(3) [OF p' g] .
      have w: "word_at b (q, eq)" using gettoken_word [of b s2 q eq s3] g2 ok s2 by simp
      have c: "cmd_ok b (redir_cmd tok c (q, eq))" "argcount (redir_cmd tok c (q, eq)) = argcount c"
        using w less.prems(2) by (simp_all add: redir_cmd_def)
      have e: "parseredirs b c s = parseredirs b (redir_cmd tok c (q, eq)) s3"
        using p' g g2 ok by (simp add: parseredirs.simps [of b c s])
      show ?thesis using less.hyps [OF st(1,3) c(1)] good_parse_le [OF _ st(2)] c(2) by (simp add: e)
    next
      case False
      then show ?thesis using p' g g2 by (simp add: parseredirs.simps [of b c s])
    qed
  qed
qed

lemma parseargs_good:
  "s \<le> length b \<Longrightarrow> cmd_ok b c \<Longrightarrow> argcount c = Some argc \<Longrightarrow> good_parse b s (Some (parseargs b c argc s))"
proof (induction "MAXARGS - argc" arbitrary: argc c s rule: less_induct)
  case less
  obtain r s1 where p: "peek b s ''|)&;'' = (r, s1)" by (cases "peek b s ''|)&;''")
  obtain tok q eq s2 where g: "gettoken b s1 = (tok, q, eq, s2)" by (cases "gettoken b s1")
  have s1: "s \<le> s1" "s1 \<le> length b" using peek_pos [OF p] less.prems(1) by simp_all
  have s2: "s1 \<le> s2" "s2 \<le> length b" using gettoken_pos [OF g s1(2)] by simp_all
  note e = parseargs.simps [of b c argc s]
  show ?case
  proof (cases "\<not> r \<and> tok = byte CHR ''a'' \<and> Suc argc < MAXARGS")
    case True
    then have w: "word_at b (q, eq)" using gettoken_word [of b s1 q eq s2] g s1(2) by simp
    have a: "cmd_ok b (add_arg (q, eq) c)" "argcount (add_arg (q, eq) c) = Some (Suc argc)"
      using add_arg_ok less.prems(2,3) w True by blast+
    note pr = parseredirs_good [OF s2(2) a(1)]
    show ?thesis
    proof (cases "parseredirs b (add_arg (q, eq) c) s2")
      case (Inl m)
      then show ?thesis using True p g by (simp add: e)
    next
      case (Inr x)
      then obtain c' s' where x: "parseredirs b (add_arg (q, eq) c) s2 = Inr (c', s')" by (cases x) auto
      have c': "cmd_ok b c'" "s2 \<le> s'" "s' \<le> length b" "argcount c' = Some (Suc argc)" using pr x a(2) by auto
      have "MAXARGS - Suc argc < MAXARGS - argc" using True by linarith
      then have "good_parse b s' (Some (parseargs b c' (Suc argc) s'))" by (rule less.hyps [OF _ c'(3,1,4)])
      moreover have "parseargs b c argc s = parseargs b c' (Suc argc) s'" using True p g x by (simp add: e)
      ultimately show ?thesis using good_parse_le s1(1) s2(1) c'(2) by (metis order_trans)
    qed
  next
    case False
    then show ?thesis using p g s1 s2 less.prems by (auto simp: e split: bool.splits)
  qed
qed

lemma parsebacks_good:
  "s \<le> length b \<Longrightarrow> cmd_ok b c \<Longrightarrow> parsebacks b c s = (c', s') \<Longrightarrow> cmd_ok b c' \<and> s \<le> s' \<and> s' \<le> length b"
proof (induction "length b - s" arbitrary: c s rule: less_induct)
  case less
  obtain r s1 where p: "peek b s ''&'' = (r, s1)" by (cases "peek b s ''&''")
  obtain tok q eq s2 where g: "gettoken b s1 = (tok, q, eq, s2)" by (cases "gettoken b s1")
  show ?case
  proof (cases r)
    case True
    then have p': "peek b s ''&'' = (True, s1)" using p by simp
    note st = peek_step [OF p' g]
    have "parsebacks b (BACK c) s2 = (c', s')" using less.prems(3) p' g by (simp add: parsebacks.simps [of b c s])
    then show ?thesis using less.hyps [of s2 "BACK c"] st less.prems(2) by simp
  next
    case False
    then show ?thesis using less.prems p peek_pos [OF p] by (simp add: parsebacks.simps [of b c s])
  qed
qed

lemma parseline_step:
  assumes pipe: "\<And>s. s \<le> length b \<Longrightarrow> 4 * (length b - s) + 3 \<le> n \<Longrightarrow> good_parse b s (parsepipe n b s)"
    and line: "\<And>s. s \<le> length b \<Longrightarrow> 4 * (length b - s) + 4 \<le> n \<Longrightarrow> good_parse b s (parseline n b s)"
    and s: "s \<le> length b" "4 * (length b - s) + 4 \<le> Suc n"
  shows "good_parse b s (parseline (Suc n) b s)"
  unfolding parseline.simps
proof (rule good_andthen [OF pipe [OF s(1)]])
  show "4 * (length b - s) + 3 \<le> n" using s(2) by simp
next
  fix c s' assume c: "cmd_ok b c" "s \<le> s'" "s' \<le> length b"
  obtain c1 s1 where k: "parsebacks b c s' = (c1, s1)" by (cases "parsebacks b c s'")
  obtain r s2 where p: "peek b s1 '';'' = (r, s2)" by (cases "peek b s1 '';''")
  obtain tok q eq s3 where g: "gettoken b s2 = (tok, q, eq, s3)" by (cases "gettoken b s2")
  have k1: "cmd_ok b c1" "s' \<le> s1" "s1 \<le> length b" using parsebacks_good [OF c(3,1) k] by simp_all
  show "good_parse b s (case (c, s') of (c, s) \<Rightarrow> case parsebacks b c s of (c, s) \<Rightarrow> case peek b s '';'' of
      (False, s) \<Rightarrow> Some (Inr (c, s))
    | (True, s) \<Rightarrow> (case gettoken b s of (_, _, _, s) \<Rightarrow> andthen (parseline n b s) (\<lambda>(r, s). Some (Inr (LIST c r, s)))))"
  proof (cases r)
    case True
    then have p': "peek b s1 '';'' = (True, s2)" using p by simp
    note st = peek_step [OF p' g]
    have l: "good_parse b s3 (parseline n b s3)" using line st(3) s(2) st(2) c(2) k1(2) by simp
    have "good_parse b s3 (andthen (parseline n b s3) (\<lambda>(r, s). Some (Inr (LIST c1 r, s))))"
      by (rule good_andthen [OF l]) (use k1(1) in simp)
    then have "good_parse b s (andthen (parseline n b s3) (\<lambda>(r, s). Some (Inr (LIST c1 r, s))))"
      by (rule good_parse_le) (use st c(2) k1(2) in simp)
    then show ?thesis using k p' g by simp
  next
    case False
    then show ?thesis using k p k1 c peek_pos [OF p] by simp
  qed
qed

lemma parsepipe_step:
  assumes exec: "\<And>s. s \<le> length b \<Longrightarrow> 4 * (length b - s) + 2 \<le> n \<Longrightarrow> good_parse b s (parseexec n b s)"
    and pipe: "\<And>s. s \<le> length b \<Longrightarrow> 4 * (length b - s) + 3 \<le> n \<Longrightarrow> good_parse b s (parsepipe n b s)"
    and s: "s \<le> length b" "4 * (length b - s) + 3 \<le> Suc n"
  shows "good_parse b s (parsepipe (Suc n) b s)"
  unfolding parsepipe.simps
proof (rule good_andthen [OF exec [OF s(1)]])
  show "4 * (length b - s) + 2 \<le> n" using s(2) by simp
next
  fix c s1 assume c: "cmd_ok b c" "s \<le> s1" "s1 \<le> length b"
  obtain r s2 where p: "peek b s1 ''|'' = (r, s2)" by (cases "peek b s1 ''|''")
  obtain tok q eq s3 where g: "gettoken b s2 = (tok, q, eq, s3)" by (cases "gettoken b s2")
  show "good_parse b s (case (c, s1) of (c, s) \<Rightarrow> case peek b s ''|'' of
      (False, s) \<Rightarrow> Some (Inr (c, s))
    | (True, s) \<Rightarrow> (case gettoken b s of (_, _, _, s) \<Rightarrow> andthen (parsepipe n b s) (\<lambda>(r, s). Some (Inr (PIPE c r, s)))))"
  proof (cases r)
    case True
    then have p': "peek b s1 ''|'' = (True, s2)" using p by simp
    note st = peek_step [OF p' g]
    have l: "good_parse b s3 (parsepipe n b s3)" using pipe st(3) s(2) st(2) c(2) by simp
    have "good_parse b s3 (andthen (parsepipe n b s3) (\<lambda>(r, s). Some (Inr (PIPE c r, s))))"
      by (rule good_andthen [OF l]) (use c(1) in simp)
    then have "good_parse b s (andthen (parsepipe n b s3) (\<lambda>(r, s). Some (Inr (PIPE c r, s))))"
      by (rule good_parse_le) (use st c(2) in simp)
    then show ?thesis using p' g by simp
  next
    case False
    then show ?thesis using p c peek_pos [OF p] by simp
  qed
qed

lemma parseexec_step:
  assumes block: "\<And>s. s \<le> length b \<Longrightarrow> 4 * (length b - s) + 1 \<le> n \<Longrightarrow> good_parse b s (parseblock n b s)"
    and s: "s \<le> length b" "4 * (length b - s) + 2 \<le> Suc n"
  shows "good_parse b s (parseexec (Suc n) b s)"
proof -
  obtain r s1 where p: "peek b s ''('' = (r, s1)" by (cases "peek b s ''(''")
  have s1: "s \<le> s1" "s1 \<le> length b" using peek_pos [OF p] s(1) by simp_all
  note pr = parseredirs_good [OF s1(2), of "EXEC []"]
  show ?thesis
  proof (cases "r \<or> (\<exists>m. parseredirs b (EXEC []) s1 = Inl m)")
    case True
    then show ?thesis using p s1 s(2) good_parse_le [OF block [OF s1(2)] s1(1)] by (cases r) auto
  next
    case False
    then obtain c s2 where x: "parseredirs b (EXEC []) s1 = Inr (c, s2)" by (cases "parseredirs b (EXEC []) s1") auto
    then have "cmd_ok b c" "s1 \<le> s2" "s2 \<le> length b" "argcount c = Some 0" using pr by auto
    then have "good_parse b s2 (Some (parseargs b c 0 s2))" "s \<le> s2" using parseargs_good s1(1) by simp_all
    then have "good_parse b s (Some (parseargs b c 0 s2))" by (rule good_parse_le)
    then show ?thesis using False p x by simp
  qed
qed

lemma parseblock_step:
  assumes line: "\<And>s. s \<le> length b \<Longrightarrow> 4 * (length b - s) + 4 \<le> n \<Longrightarrow> good_parse b s (parseline n b s)"
    and s: "s \<le> length b" "4 * (length b - s) + 1 \<le> Suc n"
  shows "good_parse b s (parseblock (Suc n) b s)"
proof -
  obtain r s1 where p: "peek b s ''('' = (r, s1)" by (cases "peek b s ''(''")
  obtain tok q eq s2 where g: "gettoken b s1 = (tok, q, eq, s2)" by (cases "gettoken b s1")
  let ?f = "\<lambda>(c, s). case peek b s '')'' of (False, s) \<Rightarrow> Some (Inl ''syntax - missing )'')
    | (True, s) \<Rightarrow> (case gettoken b s of (_, _, _, s) \<Rightarrow> Some (parseredirs b c s))"
  show ?thesis
  proof (cases r)
    case True
    then have p': "peek b s ''('' = (True, s1)" using p by simp
    note st = peek_step [OF p' g]
    have l: "good_parse b s2 (parseline n b s2)" using line st s(2) by simp
    have "good_parse b s2 (andthen (parseline n b s2) ?f)"
    proof (rule good_andthen [OF l])
      fix c s3 assume c: "cmd_ok b c" "s2 \<le> s3" "s3 \<le> length b"
      obtain r s4 where p4: "peek b s3 '')'' = (r, s4)" by (cases "peek b s3 '')''")
      obtain tok q eq s5 where g4: "gettoken b s4 = (tok, q, eq, s5)" by (cases "gettoken b s4")
      have s4: "s3 \<le> s4" "s4 \<le> length b" using peek_pos [OF p4] c(3) by simp_all
      have s5: "s2 \<le> s5" "s5 \<le> length b" using gettoken_pos [OF g4 s4(2)] s4(1) c(2) by simp_all
      have "good_parse b s2 (Some (parseredirs b c s5))" using parseredirs_good [OF s5(2) c(1)] good_parse_le [OF _ s5(1)] by blast
      then show "good_parse b s2 (?f (c, s3))" using p4 g4 by (cases r) simp_all
    qed
    then have "good_parse b s (andthen (parseline n b s2) ?f)" by (rule good_parse_le) (use st in simp)
    then show ?thesis using p' g by simp
  next
    case False
    then show ?thesis using p by simp
  qed
qed

lemma parse_good:
  "(\<forall>s \<le> length b. (4 * (length b - s) + 4 \<le> n \<longrightarrow> good_parse b s (parseline n b s)) \<and>
     (4 * (length b - s) + 3 \<le> n \<longrightarrow> good_parse b s (parsepipe n b s)) \<and>
     (4 * (length b - s) + 2 \<le> n \<longrightarrow> good_parse b s (parseexec n b s)) \<and>
     (4 * (length b - s) + 1 \<le> n \<longrightarrow> good_parse b s (parseblock n b s)))"
proof (induction n)
  case (Suc n)
  then have IH: "\<And>s. s \<le> length b \<Longrightarrow> 4 * (length b - s) + 4 \<le> n \<Longrightarrow> good_parse b s (parseline n b s)"
    "\<And>s. s \<le> length b \<Longrightarrow> 4 * (length b - s) + 3 \<le> n \<Longrightarrow> good_parse b s (parsepipe n b s)"
    "\<And>s. s \<le> length b \<Longrightarrow> 4 * (length b - s) + 2 \<le> n \<Longrightarrow> good_parse b s (parseexec n b s)"
    "\<And>s. s \<le> length b \<Longrightarrow> 4 * (length b - s) + 1 \<le> n \<Longrightarrow> good_parse b s (parseblock n b s)" by simp_all
  show ?case using parseline_step [OF IH(2,1)] parsepipe_step [OF IH(3,2)] parseexec_step [OF IH(4)] parseblock_step [OF IH(1)] by blast
qed simp

lemma parsecmd_good:
  "\<exists>r. parsecmd b = Some r \<and> (\<forall>c buf. r = Inr (c, buf) \<longrightarrow> cmd_ok b c \<and> buf = nulterminate c (b @ [0]))"
proof -
  have "good_parse b 0 (parseline (4 * length b + 4) b 0)" using parse_good [of b "4 * length b + 4"] by simp
  then show ?thesis
    by (auto simp: parsecmd_def good_parse_def andthen_def split: option.splits sum.splits prod.splits)
qed

text \<open>
  C33. The parser of the shell ends on every line: the recursive descent through lists, pipelines, blocks and simple
  commands uses at most four levels of recursion for each character of the line, so that the fuel of the model never
  runs out and every line is either parsed or refused with a message.
\<close>

theorem parsecmd_total: "\<exists>r. parsecmd b = Some r"
  using parsecmd_good by blast

subsection \<open>The strings of a command\<close>

fun cmd_words :: "cmd \<Rightarrow> (nat \<times> nat) list" where
  "cmd_words (EXEC ws) = ws"
| "cmd_words (REDIR c f m d) = cmd_words c @ [f]"
| "cmd_words (PIPE l r) = cmd_words l @ cmd_words r"
| "cmd_words (LIST l r) = cmd_words l @ cmd_words r"
| "cmd_words (BACK c) = cmd_words c"

lemma cmd_ok_words: "cmd_ok b c \<Longrightarrow> w \<in> set (cmd_words c) \<Longrightarrow> word_at b w"
  by (induction b c rule: cmd_ok.induct) (auto simp: list_all_iff)

lemma nulterminate_fold: "nulterminate c buf = fold (\<lambda>w buf. buf[snd w := 0]) (cmd_words c) buf"
  by (induction c arbitrary: buf) simp_all

lemma fold_nul:
  "length (fold (\<lambda>w buf. buf[snd w := 0]) ws buf) = length buf \<and>
   (k < length buf \<longrightarrow> fold (\<lambda>w buf. buf[snd w := 0]) ws buf ! k = (if k \<in> snd ` set ws then 0 else buf ! k))"
  by (induction ws arbitrary: buf) (auto simp: nth_list_update)

text \<open>The C string at a position of a buffer.\<close>

definition cstr :: "u8 list \<Rightarrow> nat \<Rightarrow> u8 list" where
  "cstr buf q = takeWhile (\<lambda>c. c \<noteq> 0) (drop q buf)"

lemma cstr_upto:
  assumes "q \<le> eq" "eq < length xs" "xs ! eq = 0" "\<And>k. q \<le> k \<Longrightarrow> k < eq \<Longrightarrow> xs ! k \<noteq> 0"
  shows "cstr xs q = take (eq - q) (drop q xs)"
proof -
  have "drop q xs = take (eq - q) (drop q xs) @ xs ! eq # drop (Suc eq) xs"
    using assms(1,2) by (metis Cons_nth_drop_Suc append_take_drop_id drop_drop le_add_diff_inverse2)
  moreover have "\<forall>x \<in> set (take (eq - q) (drop q xs)). x \<noteq> 0"
    using assms by (auto simp: in_set_conv_nth)
  ultimately obtain u v where d: "drop q xs = u @ xs ! eq # v" "\<forall>x \<in> set u. x \<noteq> 0" "u = take (eq - q) (drop q xs)" by blast
  have "takeWhile (\<lambda>c. c \<noteq> 0) (u @ 0 # v) = u" using d(2) by (simp add: takeWhile_append2)
  then have "cstr xs q = u" unfolding cstr_def d(1) assms(3) .
  then show ?thesis using d(3) by simp
qed

lemma word_intact:
  assumes "0 \<notin> set b" "cmd_ok b c" "(q, eq) \<in> set (cmd_words c)"
  shows "cstr (nulterminate c (b @ [0])) q = take (eq - q) (drop q b)"
proof -
  let ?x = "nulterminate c (b @ [0])"
  have w: "q < eq" "eq \<le> length b" "\<And>k. q \<le> k \<Longrightarrow> k < eq \<Longrightarrow> in_word (b ! k)"
    using cmd_ok_words [OF assms(2,3)] by (auto simp: word_at_def)
  have x: "length ?x = Suc (length b)" "\<And>k. k \<le> length b \<Longrightarrow> ?x ! k = (if k \<in> snd ` set (cmd_words c) then 0 else (b @ [0]) ! k)"
    using fold_nul [of "cmd_words c" "b @ [0]"] by (simp_all add: nulterminate_fold)
  have keep: "?x ! k = b ! k" if k: "q \<le> k" "k < eq" for k
  proof -
    have "k \<notin> snd ` set (cmd_words c)"
    proof
      assume "k \<in> snd ` set (cmd_words c)"
      then obtain v where v: "v \<in> set (cmd_words c)" "k = snd v" by blast
      from cmd_ok_words [OF assms(2) v(1)] have "k < length b \<longrightarrow> \<not> in_word (b ! k)" using v(2) by (simp add: word_at_def)
      then show False using w(2,3) k by simp
    qed
    then show ?thesis using x(2) [of k] k w(2) by (simp add: nth_append)
  qed
  have "?x ! eq = 0" using x(2) [OF w(2)] assms(3) by force
  moreover have "?x ! k \<noteq> 0" if "q \<le> k" "k < eq" for k
    using keep [OF that] assms(1) that w(2) by (metis nth_mem order_less_le_trans)
  ultimately have "cstr ?x q = take (eq - q) (drop q ?x)" using w(1,2) x(1) by (intro cstr_upto) auto
  also have "\<dots> = take (eq - q) (drop q b)"
  proof (rule nth_equalityI)
    show "length (take (eq - q) (drop q ?x)) = length (take (eq - q) (drop q b))" using w(1,2) by (simp only: length_take length_drop x(1))
    fix i assume "i < length (take (eq - q) (drop q ?x))"
    then have i: "i < eq - q" by simp
    then have "?x ! (q + i) = b ! (q + i)" by (intro keep) simp_all
    moreover have "q + i < length ?x" "q + i < length b" using i w(1,2) x(1) by linarith+
    ultimately show "take (eq - q) (drop q ?x) ! i = take (eq - q) (drop q b) ! i" using i by (simp del: nulterminate.simps)
  qed
  finally show ?thesis .
qed

lemma ls_f_parse:
  "parsecmd [108, 115, 62, 102] = Some (Inr (REDIR (EXEC [(0, 2)]) (3, 4) 0x601 1, [108, 115, 0, 102, 0]))"
  by code_simp

text \<open>
  C34. The strings of a parsed command: after the NULs are stored, every argument and every file name of the command is, as a C string,
  exactly the word of the line it came from. No NUL hits another word, although all of them stay in the one
  buffer, and every simple command has fewer than \<^verbatim>\<open>MAXARGS\<close> words, so that the null pointer behind them fits the array.
\<close>

theorem parsecmd_words:
  assumes "0 \<notin> set b" "parsecmd b = Some (Inr (c, buf))"
  shows "cmd_ok b c \<and> (\<forall>q eq. (q, eq) \<in> set (cmd_words c) \<longrightarrow> cstr buf q = take (eq - q) (drop q b))"
  using parsecmd_good [of b] word_intact [OF assms(1)] assms(2) by auto

theorem parsecmd_words_witness:
  "\<exists>c buf. parsecmd (bytes ''ls>f'') = Some (Inr (c, buf)) \<and> cstr buf 0 = bytes ''ls'' \<and> cstr buf 3 = bytes ''f''"
proof -
  have p: "parsecmd (bytes ''ls>f'') = Some (Inr (REDIR (EXEC [(0, 2)]) (3, 4) 0x601 1, [108, 115, 0, 102, 0]))"
    using ls_f_parse by simp
  have "0 \<notin> set (bytes ''ls>f'')" by simp
  from parsecmd_words [OF this p] show ?thesis unfolding p by auto
qed

subsection \<open>Running commands\<close>

text \<open>
  The system calls of a process, with what follows on the result: \<^verbatim>\<open>exec\<close> goes on only if it fails, \<^verbatim>\<open>open\<close> has a branch
  for failure and one for the new descriptor, \<^verbatim>\<open>fork\<close> one for failure, the child and the parent, \<^verbatim>\<open>pipe\<close> hands over the two descriptors.
\<close>

datatype act =
    SExit cint
  | SExec "u8 list" "u8 list list" act
  | SClose nat act
  | SOpen "u8 list" cint act "nat \<Rightarrow> act"
  | SFork act act act
  | SWait act
  | SPipe act "nat \<Rightarrow> nat \<Rightarrow> act"
  | SDup nat act
  | SPrint nat string "va list" act
  | SChdir "u8 list" act act

definition sh_panic :: "string \<Rightarrow> act" where
  "sh_panic msg = SPrint 2 ''%s\<newline>'' [VStr (Some (bytes msg))] (SExit 1)"

definition fork1 :: "act \<Rightarrow> act \<Rightarrow> act" where
  "fork1 child par = SFork (sh_panic ''fork'') child par"

fun runcmd :: "u8 list \<Rightarrow> cmd \<Rightarrow> act" where
  "runcmd buf (EXEC ws) =
     (case map (\<lambda>w. cstr buf (fst w)) ws of
        [] \<Rightarrow> SExit 1
      | a # as \<Rightarrow> SExec a (a # as) (SPrint 2 ''exec %s failed\<newline>'' [VStr (Some a)] (SExit 0)))"
| "runcmd buf (REDIR c f m d) =
     SClose d (SOpen (cstr buf (fst f)) m
       (SPrint 2 ''open %s failed\<newline>'' [VStr (Some (cstr buf (fst f)))] (SExit 1))
       (\<lambda>_. runcmd buf c))"
| "runcmd buf (LIST l r) = fork1 (runcmd buf l) (SWait (runcmd buf r))"
| "runcmd buf (PIPE l r) = SPipe (sh_panic ''pipe'') (\<lambda>p0 p1.
     fork1 (SClose 1 (SDup p1 (SClose p0 (SClose p1 (runcmd buf l)))))
       (fork1 (SClose 0 (SDup p0 (SClose p0 (SClose p1 (runcmd buf r)))))
         (SClose p0 (SClose p1 (SWait (SWait (SExit 0)))))))"
| "runcmd buf (BACK c) = fork1 (runcmd buf c) (SExit 0)"

text \<open>The prompt and the line: \<^const>\<open>None\<close> at the end of the input.\<close>

definition getcmd :: "nat \<Rightarrow> uinput \<Rightarrow> u8 list option \<times> uinput" where
  "getcmd nbuf inp = (let (s, inp) = gets nbuf inp in (if chr_at s 0 = 0 then None else Some s, inp))"

text \<open>
  One round of the main loop on a line: nothing for a blank line, \<^verbatim>\<open>chdir\<close> in the shell itself for \<^verbatim>\<open>cd\<close>, and a child for
  everything else. \<open>k\<close> is the rest of the loop. The line is the string up to the first NUL; the text of left over
  characters is not printed.
\<close>

definition sh_round :: "u8 list \<Rightarrow> act \<Rightarrow> act" where
  "sh_round b k =
     (let b = dropWhile (\<lambda>c. c = 32 \<or> c = 9) b in
      if chr_at b 0 = newline then k
      else if take 3 b = bytes ''cd '' then
        let dir = drop 3 (butlast b) in
        SChdir dir (SPrint 2 ''cannot cd %s\<newline>'' [VStr (Some dir)] k) k
      else fork1 (case parsecmd b of
          None \<Rightarrow> SExit 1
        | Some (Inl msg) \<Rightarrow> sh_panic msg
        | Some (Inr (c, buf)) \<Rightarrow> runcmd buf c) (SWait k))"

text \<open>The main loop for \<open>n\<close> more lines.\<close>

fun sh_loop :: "nat \<Rightarrow> uinput \<Rightarrow> act" where
  "sh_loop 0 inp = SExit 0"
| "sh_loop (Suc n) inp = SPrint 2 ''$ '' [] (case getcmd 100 inp of
      (None, _) \<Rightarrow> SExit 0
    | (Some s, inp) \<Rightarrow> sh_round (takeWhile (\<lambda>c. c \<noteq> 0) s) (sh_loop n inp))"

text \<open>
  The start of \<^verbatim>\<open>main\<close>: every successful \<^verbatim>\<open>open\<close> takes a descriptor that was free, so that at most three of them are below 3 and four
  rounds are enough.
\<close>

fun open_console :: "nat \<Rightarrow> act \<Rightarrow> act" where
  "open_console 0 k = k"
| "open_console (Suc n) k =
     SOpen (bytes ''console'') O_RDWR k (\<lambda>fd. if 3 \<le> fd then SClose fd k else open_console n k)"

definition sh_main :: "nat \<Rightarrow> uinput \<Rightarrow> act" where
  "sh_main n inp = open_console 4 (sh_loop n inp)"

subsection \<open>The descriptors of a pipeline\<close>

text \<open>
  The effect of the calls of \<^verbatim>\<open>close\<close> and \<^verbatim>\<open>dup\<close> at the start of a process on its table of open files, where \<^verbatim>\<open>dup\<close> takes the first free
  descriptor, as \<^verbatim>\<open>fdalloc\<close> does, up to the first other call.
\<close>

fun run_fds :: "act \<Rightarrow> nat option list \<Rightarrow> act \<times> nat option list" where
  "run_fds (SClose fd k) t = run_fds k (t[fd := None])"
| "run_fds (SDup fd k) t = (case first_free t 0 of None \<Rightarrow> run_fds k t | Some n \<Rightarrow> run_fds k (t[n := t ! fd]))"
| "run_fds a t = (a, t)"

text \<open>
  C35. The plumbing of a pipeline: whatever the two descriptors of the new pipe are, the left command starts with the write end as
  its standard output and the right command with the read end as its standard input, each with the rest of the open files of the
  shell and without the two descriptors of the pipe; the shell itself keeps neither, so that the readers see the end of the
  input, and waits for both children.
\<close>

theorem pipeline_plumbing:
  assumes "p0 \<noteq> p1" "2 \<le> p0" "2 \<le> p1" "p0 < length t" "p1 < length t" "t ! 0 = Some i" "t ! 1 = Some j"
  shows "\<exists>L R P. runcmd buf (PIPE l r) = SPipe (sh_panic ''pipe'') (\<lambda>p0 p1. fork1 (L p0 p1) (fork1 (R p0 p1) (P p0 p1))) \<and>
    run_fds (L p0 p1) t = run_fds (runcmd buf l) (t[p0 := None, p1 := None, 1 := t ! p1]) \<and>
    run_fds (R p0 p1) t = run_fds (runcmd buf r) (t[p0 := None, p1 := None, 0 := t ! p0]) \<and>
    run_fds (P p0 p1) t = (SWait (SWait (SExit 0)), t[p0 := None, p1 := None])"
proof -
  obtain x y zs where t: "t = x # y # zs" using assms(2,4) by (cases t; cases "tl t") auto
  obtain a b where ab: "p0 = Suc (Suc a)" "p1 = Suc (Suc b)" using assms(2,3) by (metis One_nat_def Suc_1 add_2_eq_Suc le_Suc_ex)
  have f: "first_free (t[1 := None]) 0 = Some 1" "first_free (t[0 := None]) 0 = Some 0"
    using assms(6) by (simp_all add: t)
  show ?thesis unfolding runcmd.simps
    by (intro exI [of _ "\<lambda>p0 p1. SClose 1 (SDup p1 (SClose p0 (SClose p1 (runcmd buf l))))"]
        exI [of _ "\<lambda>p0 p1. SClose 0 (SDup p0 (SClose p0 (SClose p1 (runcmd buf r))))"]
        exI [of _ "\<lambda>p0 p1. SClose p0 (SClose p1 (SWait (SWait (SExit 0))))"] conjI)
      (use f assms(1) in \<open>simp_all add: t ab\<close>)
qed

theorem pipeline_plumbing_witness:
  "\<exists>L R P. runcmd [] (PIPE (EXEC []) (EXEC [])) = SPipe (sh_panic ''pipe'') (\<lambda>p0 p1. fork1 (L p0 p1) (fork1 (R p0 p1) (P p0 p1))) \<and>
    run_fds (L 3 4) [Some 7, Some 8, Some 9, Some 20, Some 21] = (SExit 1, [Some 7, Some 21, Some 9, None, None]) \<and>
    run_fds (R 3 4) [Some 7, Some 8, Some 9, Some 20, Some 21] = (SExit 1, [Some 20, Some 8, Some 9, None, None])"
proof -
  let ?t = "[Some 7, Some 8, Some 9, Some 20, Some 21] :: nat option list"
  have "(3 :: nat) \<noteq> 4" "(2 :: nat) \<le> 3" "(2 :: nat) \<le> 4" "3 < length ?t" "4 < length ?t" "?t ! 0 = Some 7" "?t ! 1 = Some 8" by simp_all
  from pipeline_plumbing [OF this, of "[]" "EXEC []" "EXEC []"] obtain L R P where
    "runcmd [] (PIPE (EXEC []) (EXEC [])) = SPipe (sh_panic ''pipe'') (\<lambda>p0 p1. fork1 (L p0 p1) (fork1 (R p0 p1) (P p0 p1)))"
    "run_fds (L 3 4) ?t = run_fds (runcmd [] (EXEC [])) (?t[3 := None, 4 := None, 1 := ?t ! 4])"
    "run_fds (R 3 4) ?t = run_fds (runcmd [] (EXEC [])) (?t[3 := None, 4 := None, 0 := ?t ! 3])" by blast
  then show ?thesis by (intro exI [of _ L] exI [of _ R] exI [of _ P]) (simp add: eval_nat_numeral)
qed

end
