(* ===== verification/Virtio.thy ===== *)
theory Virtio
  imports Sysproc
begin

section \<open>The disk driver\<close>

text \<open>
  \<^verbatim>\<open>kernel/virtio_disk.c\<close> and \<^verbatim>\<open>virtio.h\<close>. The descriptor table and the two rings that the driver shares with the device are fields of
  the state. The addresses stored in descriptors are those of the driver's own structures, so they are symbolic: a command
  header, the data of a buffer or a status byte. A call of \<^verbatim>\<open>virtio_disk_rw\<close> is two steps, up to the point where it waits for
  the device and after the interrupt handler has cleared \<^verbatim>\<open>b->disk\<close>.

  The device itself is not part of the repository. What the driver relies on is the predicate \<open>served\<close>: the device takes the
  chain of descriptors, transfers the block, stores 0 in the status byte and adds the chain to the used ring.
\<close>

subsection \<open>State\<close>

abbreviation NUM :: nat where "NUM \<equiv> 8"
abbreviation VRING_DESC_F_NEXT :: u16 where "VRING_DESC_F_NEXT \<equiv> 1"
abbreviation VRING_DESC_F_WRITE :: u16 where "VRING_DESC_F_WRITE \<equiv> 2"
abbreviation VIRTIO_BLK_T_IN :: u32 where "VIRTIO_BLK_T_IN \<equiv> 0"
abbreviation VIRTIO_BLK_T_OUT :: u32 where "VIRTIO_BLK_T_OUT \<equiv> 1"

datatype daddr = NoAddr | OpAddr nat | DataAddr nat | StatusAddr nat

record virtq_desc =
  vd_addr :: daddr
  vd_len :: u32
  vd_flags :: u16
  vd_next :: u16

record virtio_blk_req =
  rq_type :: u32
  rq_reserved :: u32
  rq_sector :: u64

record kvirt = ksys +
  v_desc :: "virtq_desc list"
  v_avail_ring :: "u16 list"
  v_avail_idx :: u16
  v_used_ring :: "u32 list"
  v_used_idx :: u16
  v_free :: "bool list"
  v_seen :: u16
  v_info_b :: "nat option list"
  v_status :: "u8 list"
  v_ops :: "virtio_blk_req list"

definition desc_zero :: virtq_desc where
  "desc_zero = \<lparr>vd_addr = NoAddr, vd_len = 0, vd_flags = 0, vd_next = 0\<rparr>"

subsection \<open>Descriptors\<close>

fun find_desc :: "bool list \<Rightarrow> nat \<Rightarrow> nat option" where
  "find_desc [] i = None"
| "find_desc (f # fs) i = (if f then Some i else find_desc fs (Suc i))"

definition alloc_desc :: "'a kvirt_scheme \<Rightarrow> nat option \<times> 'a kvirt_scheme" where
  "alloc_desc s = (case find_desc (v_free s) 0 of
     None \<Rightarrow> (None, s) | Some i \<Rightarrow> (Some i, s\<lparr>v_free := (v_free s)[i := False]\<rparr>))"

definition free_desc :: "nat \<Rightarrow> 'a kvirt_scheme \<Rightarrow> 'a kvirt_scheme option" where
  "free_desc i s =
     (if i \<ge> NUM then panic ''free_desc 1''
      else if v_free s ! i then panic ''free_desc 2''
      else Some (wakeup ChDisk (s\<lparr>v_desc := (v_desc s)[i := desc_zero], v_free := (v_free s)[i := True]\<rparr>)))"

partial_function (option) free_chain :: "nat \<Rightarrow> 'a kvirt_scheme \<Rightarrow> 'a kvirt_scheme option" where
  "free_chain i s =
     (if i \<ge> NUM then panic ''free_desc 1''
      else do {
        let flag = vd_flags (v_desc s ! i);
        let nxt = vd_next (v_desc s ! i);
        s \<leftarrow> free_desc i s;
        if flag AND VRING_DESC_F_NEXT \<noteq> 0 then free_chain (unat nxt) s else Some s })"

fun free_descs :: "nat list \<Rightarrow> 'a kvirt_scheme \<Rightarrow> 'a kvirt_scheme option" where
  "free_descs [] s = Some s"
| "free_descs (i # is) s = do { s \<leftarrow> free_desc i s; free_descs is s }"

text \<open>The loop of \<^verbatim>\<open>alloc3_desc\<close> with \<open>k\<close> descriptors to go; \<^const>\<open>None\<close> inside is the result -1.\<close>

fun alloc_descs :: "nat \<Rightarrow> nat list \<Rightarrow> 'a kvirt_scheme \<Rightarrow> (nat list option \<times> 'a kvirt_scheme) option" where
  "alloc_descs 0 idx s = Some (Some idx, s)"
| "alloc_descs (Suc k) idx s = (case alloc_desc s of
      (Some i, s) \<Rightarrow> alloc_descs k (idx @ [i]) s
    | (None, s) \<Rightarrow> do { s \<leftarrow> free_descs idx s; Some (None, s) })"

definition alloc3_desc :: "'a kvirt_scheme \<Rightarrow> (nat list option \<times> 'a kvirt_scheme) option" where
  "alloc3_desc s = alloc_descs 3 [] s"

subsection \<open>Requests\<close>

text \<open>The stores of \<^verbatim>\<open>virtio_disk_rw\<close> that describe the request to the device and hand it over.\<close>

definition submit :: "nat \<Rightarrow> bool \<Rightarrow> nat \<Rightarrow> nat \<Rightarrow> nat \<Rightarrow> 'a kvirt_scheme \<Rightarrow> 'a kvirt_scheme" where
  "submit b write i0 i1 i2 s =
     (let sector = ucast (b_blockno (bcache s ! b) * 2);
          s = s\<lparr>v_ops := (v_ops s)[i0 := \<lparr>rq_type = if write then VIRTIO_BLK_T_OUT else VIRTIO_BLK_T_IN, rq_reserved = 0, rq_sector = sector\<rparr>]\<rparr>;
          s = s\<lparr>v_desc := (v_desc s)[i0 := \<lparr>vd_addr = OpAddr i0, vd_len = 16, vd_flags = VRING_DESC_F_NEXT, vd_next = of_nat i1\<rparr>]\<rparr>;
          s = s\<lparr>v_desc := (v_desc s)[i1 := \<lparr>vd_addr = DataAddr b, vd_len = of_nat BSIZE,
                 vd_flags = (if write then 0 else VRING_DESC_F_WRITE) OR VRING_DESC_F_NEXT, vd_next = of_nat i2\<rparr>]\<rparr>;
          s = s\<lparr>v_status := (v_status s)[i0 := 0xff]\<rparr>;
          s = s\<lparr>v_desc := (v_desc s)[i2 := \<lparr>vd_addr = StatusAddr i0, vd_len = 1, vd_flags = VRING_DESC_F_WRITE, vd_next = 0\<rparr>]\<rparr>;
          s = upd_buf b (\<lambda>x. x\<lparr>b_disk := True\<rparr>) s;
          s = s\<lparr>v_info_b := (v_info_b s)[i0 := Some b]\<rparr>;
          s = s\<lparr>v_avail_ring := (v_avail_ring s)[unat (v_avail_idx s mod of_nat NUM) := of_nat i0]\<rparr>
      in s\<lparr>v_avail_idx := v_avail_idx s + 1\<rparr>)"

text \<open>
  The first part of \<^verbatim>\<open>virtio_disk_rw\<close>: the head of the chain that it waits for, or \<^const>\<open>None\<close> inside when it has to sleep for free
  descriptors first.
\<close>

definition virtio_disk_rw :: "nat \<Rightarrow> bool \<Rightarrow> 'a kvirt_scheme \<Rightarrow> (nat option \<times> 'a kvirt_scheme) option" where
  "virtio_disk_rw b write s = do {
     (r, s) \<leftarrow> alloc3_desc s;
     case r of
       Some [i0, i1, i2] \<Rightarrow> Some (Some i0, submit b write i0 i1 i2 s)
     | _ \<Rightarrow> Some (None, s) }"

text \<open>The second part, \<^const>\<open>None\<close> inside when the request is not finished and the process sleeps on the buffer.\<close>

definition virtio_disk_done :: "nat \<Rightarrow> nat \<Rightarrow> 'a kvirt_scheme \<Rightarrow> (unit option \<times> 'a kvirt_scheme) option" where
  "virtio_disk_done b i0 s =
     (if b_disk (bcache s ! b) then Some (None, s)
      else do {
        s \<leftarrow> free_chain i0 (s\<lparr>v_info_b := (v_info_b s)[i0 := None]\<rparr>);
        Some (Some (), s) })"

text \<open>The loop of the interrupt handler. An entry without a buffer is a null pointer, and an index that is not one of the
  queue's is out of bounds.\<close>

partial_function (option) virtio_disk_intr :: "'a kvirt_scheme \<Rightarrow> 'a kvirt_scheme option" where
  "virtio_disk_intr s =
     (if v_seen s \<noteq> v_used_idx s then do {
        let id = unat (v_used_ring s ! unat (v_seen s mod of_nat NUM));
        if id \<ge> NUM then None
        else if v_status s ! id \<noteq> 0 then panic ''virtio_disk_intr status''
        else case v_info_b s ! id of
          None \<Rightarrow> panic ''kerneltrap''
        | Some b \<Rightarrow> virtio_disk_intr ((wakeup (ChBuf b) (upd_buf b (\<lambda>x. x\<lparr>b_disk := False\<rparr>) s))\<lparr>v_seen := v_seen s + 1\<rparr>) }
      else Some s)"

subsection \<open>Initialisation\<close>

text \<open>
  The registers of the device by their offsets: \<open>rd\<close> gives what the driver reads from them, and the result has the writes in
  order. The three pages for the queue come from the page allocator and are cleared.
\<close>

definition virtio_features :: "u64 \<Rightarrow> u64" where
  "virtio_features f = foldl (\<lambda>f k. f AND NOT (push_bit k 1)) f [5, 7, 11, 12, 27, 29, 28]"

definition queue_setup :: "u64 \<Rightarrow> u64 \<Rightarrow> u64 \<Rightarrow> (nat \<times> u32) list" where
  "queue_setup desc avail used =
     [(0x38, of_nat NUM), (0x80, ucast desc), (0x84, ucast (drop_bit 32 desc)), (0x90, ucast avail), (0x94, ucast (drop_bit 32 avail)),
      (0xa0, ucast used), (0xa4, ucast (drop_bit 32 used)), (0x44, 1)]"

definition virtio_disk_init :: "(nat \<Rightarrow> u32) \<Rightarrow> 'a kvirt_scheme \<Rightarrow> ((nat \<times> u32) list \<times> 'a kvirt_scheme) option" where
  "virtio_disk_init rd s =
     (if rd 0 \<noteq> 0x74726976 \<or> rd 4 \<noteq> 2 \<or> rd 8 \<noteq> 2 \<or> rd 0xc \<noteq> 0x554d4551 then panic ''could not find virtio disk''
      else if rd 0x70 AND 8 = 0 then panic ''virtio disk FEATURES_OK unset''
      else if rd 0x44 \<noteq> 0 then panic ''virtio disk should not be ready''
      else if rd 0x34 = 0 then panic ''virtio disk has no queue 0''
      else if rd 0x34 < of_nat NUM then panic ''virtio disk max queue too short''
      else
        let (desc, s) = kalloc s; (avail, s) = kalloc s; (used, s) = kalloc s in
        if desc = 0 \<or> avail = 0 \<or> used = 0 then panic ''virtio disk kalloc''
        else
          let s = s\<lparr>mem := memset (memset (memset (mem s) desc 0 4096) avail 0 4096) used 0 4096,
                v_desc := replicate NUM desc_zero, v_avail_ring := replicate NUM 0, v_avail_idx := 0,
                v_used_ring := replicate NUM 0, v_used_idx := 0, v_free := replicate NUM True\<rparr>
          in Some ([(0x70, 0), (0x70, 1), (0x70, 3), (0x20, ucast (virtio_features (ucast (rd 0x10)))), (0x70, 11), (0x30, 0)] @
                   queue_setup desc avail used @ [(0x70, rd 0x70 OR 4)], s))"

subsection \<open>Allocating and freeing descriptors\<close>

lemma find_desc_Some: "find_desc fs k = Some i \<Longrightarrow> k \<le> i \<and> i < k + length fs \<and> fs ! (i - k)"
proof (induction fs k rule: find_desc.induct)
  case (2 f fs k)
  then show ?case by (cases f) (auto simp: nth_Cons' Suc_diff_le)
qed simp

lemma find_desc_None: "find_desc fs k = None \<longleftrightarrow> True \<notin> set fs"
  by (induction fs k rule: find_desc.induct) auto

lemma wakeup_virt [simp]:
  "v_desc (wakeup ch s) = v_desc s" "v_free (wakeup ch s) = v_free s" "v_info_b (wakeup ch s) = v_info_b s" "v_seen (wakeup ch s) = v_seen s"
  "v_used_idx (wakeup ch s) = v_used_idx s" "v_used_ring (wakeup ch s) = v_used_ring s" "v_status (wakeup ch s) = v_status s"
  by (simp_all add: wakeup_def)

lemma upd_buf_virt [simp]:
  "v_desc (upd_buf i f s) = v_desc s" "v_free (upd_buf i f s) = v_free s" "v_info_b (upd_buf i f s) = v_info_b s" "v_seen (upd_buf i f s) = v_seen s"
  "v_used_idx (upd_buf i f s) = v_used_idx s" "v_used_ring (upd_buf i f s) = v_used_ring s" "v_status (upd_buf i f s) = v_status s"
  "v_ops (upd_buf i f s) = v_ops s" "v_avail_ring (upd_buf i f s) = v_avail_ring s" "v_avail_idx (upd_buf i f s) = v_avail_idx s"
  by (simp_all add: upd_buf_def)

lemma alloc_desc_Some:
  assumes "alloc_desc s = (Some i, s')" "length (v_free s) = NUM"
  shows "i < NUM" "v_free s ! i" "s' = s\<lparr>v_free := (v_free s)[i := False]\<rparr>"
  using assms find_desc_Some [of "v_free s" 0 i] by (auto simp: alloc_desc_def split: option.splits)

lemma alloc3_Some:
  assumes a: "alloc3_desc s = Some (Some idx, s')" and len: "length (v_free s) = NUM"
  obtains i0 i1 i2 where "idx = [i0, i1, i2]" "i0 < NUM" "i1 < NUM" "i2 < NUM" "distinct [i0, i1, i2]" "v_free s ! i0" "v_free s ! i1" "v_free s ! i2"
    "s' = s\<lparr>v_free := (v_free s)[i0 := False, i1 := False, i2 := False]\<rparr>"
proof -
  obtain i0 s0 where 0: "alloc_desc s = (Some i0, s0)" using a
    by (auto simp: alloc3_desc_def eval_nat_numeral bind_Some_iff split: prod.splits option.splits)
  note r0 = alloc_desc_Some [OF 0 len]
  have l0: "length (v_free s0) = NUM" using r0(3) len by simp
  obtain i1 s1 where 1: "alloc_desc s0 = (Some i1, s1)" using a 0
    by (auto simp: alloc3_desc_def eval_nat_numeral bind_Some_iff split: prod.splits option.splits)
  note r1 = alloc_desc_Some [OF 1 l0]
  have l1: "length (v_free s1) = NUM" using r1(3) l0 by simp
  obtain i2 s2 where 2: "alloc_desc s1 = (Some i2, s2)" using a 0 1
    by (auto simp: alloc3_desc_def eval_nat_numeral bind_Some_iff split: prod.splits option.splits)
  note r2 = alloc_desc_Some [OF 2 l1]
  have "alloc3_desc s = Some (Some [i0, i1, i2], s2)" using 0 1 2 by (simp add: alloc3_desc_def eval_nat_numeral)
  then have "idx = [i0, i1, i2]" "s' = s2" using a by simp_all
  moreover have "i1 \<noteq> i0" "i2 \<noteq> i0" "i2 \<noteq> i1" "v_free s ! i1" "v_free s ! i2"
    using r0 r1 r2 len by (auto simp: nth_list_update split: if_splits)
  ultimately show thesis using that [of i0 i1 i2] r0 r1 r2 by simp
qed

lemma free_desc_eq:
  "i < NUM \<Longrightarrow> \<not> v_free s ! i \<Longrightarrow> free_desc i s = Some (wakeup ChDisk (s\<lparr>v_desc := (v_desc s)[i := desc_zero], v_free := (v_free s)[i := True]\<rparr>))"
  by (simp add: free_desc_def)

text \<open>What freeing descriptors changes: their entries, and the run states of processes.\<close>

definition freed :: "nat list \<Rightarrow> 'a kvirt_scheme \<Rightarrow> 'a kvirt_scheme \<Rightarrow> bool" where
  "freed is s s' \<longleftrightarrow> v_free s' = fold (\<lambda>i f. f[i := True]) is (v_free s) \<and> bcache s' = bcache s \<and> disk s' = disk s \<and> dwrites s' = dwrites s \<and>
     v_seen s' = v_seen s \<and> v_used_idx s' = v_used_idx s \<and> v_info_b s' = v_info_b s"

lemma free_chain3:
  assumes "i0 < NUM" "i1 < NUM" "i2 < NUM" "distinct [i0, i1, i2]" "length (v_desc s) = NUM" "length (v_free s) = NUM"
    "\<not> v_free s ! i0" "\<not> v_free s ! i1" "\<not> v_free s ! i2"
    and d: "vd_flags (v_desc s ! i0) AND 1 \<noteq> 0" "vd_next (v_desc s ! i0) = of_nat i1"
      "vd_flags (v_desc s ! i1) AND 1 \<noteq> 0" "vd_next (v_desc s ! i1) = of_nat i2" "vd_flags (v_desc s ! i2) AND 1 = 0"
  shows "\<exists>s'. free_chain i0 s = Some s' \<and> freed [i0, i1, i2] s s'"
proof -
  have u: "unat (of_nat i1 :: u16) = i1" "unat (of_nat i2 :: u16) = i2" using assms(2,3) by (simp_all add: unat_of_nat take_bit_nat_eq_self)
  define s1 where "s1 = wakeup ChDisk (s\<lparr>v_desc := (v_desc s)[i0 := desc_zero], v_free := (v_free s)[i0 := True]\<rparr>)"
  define s2 where "s2 = wakeup ChDisk (s1\<lparr>v_desc := (v_desc s1)[i1 := desc_zero], v_free := (v_free s1)[i1 := True]\<rparr>)"
  define s3 where "s3 = wakeup ChDisk (s2\<lparr>v_desc := (v_desc s2)[i2 := desc_zero], v_free := (v_free s2)[i2 := True]\<rparr>)"
  have f: "free_desc i0 s = Some s1" "free_desc i1 s1 = Some s2" "free_desc i2 s2 = Some s3"
  proof -
    have n: "\<not> v_free s1 ! i1" "\<not> v_free s2 ! i2" using assms(4,8,9) by (simp_all add: s2_def s1_def)
    show "free_desc i0 s = Some s1" unfolding s1_def by (rule free_desc_eq [OF assms(1,7)])
    show "free_desc i1 s1 = Some s2" unfolding s2_def by (rule free_desc_eq [OF assms(2) n(1)])
    show "free_desc i2 s2 = Some s3" unfolding s3_def by (rule free_desc_eq [OF assms(3) n(2)])
  qed
  have v: "v_desc s1 ! i1 = v_desc s ! i1" "v_desc s2 ! i2 = v_desc s ! i2" using assms(4) by (simp_all add: s2_def s1_def)
  have "free_chain i0 s = free_chain i1 s1" using f(1) d(1,2) assms(1) u(1) by (subst free_chain.simps) simp
  also have "\<dots> = free_chain i2 s2" using f(2) d(3,4) assms(2) u(2) v(1) by (subst free_chain.simps) simp
  also have "\<dots> = Some s3" using f(3) d(5) assms(3) v(2) by (subst free_chain.simps) simp
  finally show ?thesis by (auto simp: freed_def s3_def s2_def s1_def)
qed

subsection \<open>The driver performs the request\<close>

text \<open>
  What the device does with the chain at \<open>h\<close>: it follows the descriptors to the command, the buffer and the status byte, transfers the
  block of the command's sector, and adds the chain to the used ring.
\<close>

definition served :: "nat \<Rightarrow> 'a kvirt_scheme \<Rightarrow> 'a kvirt_scheme \<Rightarrow> bool" where
  "served h s s' \<longleftrightarrow>
     (let d0 = v_desc s ! h; d1 = v_desc s ! unat (vd_next d0); d2 = v_desc s ! unat (vd_next d1) in
      case (vd_addr d0, vd_addr d1, vd_addr d2) of
        (OpAddr k, DataAddr b, StatusAddr t) \<Rightarrow>
          let rq = v_ops s ! k; blk = ucast (rq_sector rq div 2);
              s = (if rq_type rq = VIRTIO_BLK_T_OUT
                   then s\<lparr>disk := (disk s)(blk := b_data (bcache s ! b)), dwrites := dwrites s @ [(blk, b_data (bcache s ! b))]\<rparr>
                   else upd_buf b (\<lambda>x. x\<lparr>b_data := disk s blk\<rparr>) s)
          in s' = s\<lparr>v_status := (v_status s)[t := 0], v_used_ring := (v_used_ring s)[unat (v_used_idx s mod of_nat NUM) := of_nat h],
                 v_used_idx := v_used_idx s + 1\<rparr>
      | _ \<Rightarrow> False)"

definition queue_ok :: "'a kvirt_scheme \<Rightarrow> bool" where
  "queue_ok s \<longleftrightarrow> length (v_desc s) = NUM \<and> length (v_free s) = NUM \<and> length (v_info_b s) = NUM \<and> length (v_status s) = NUM \<and>
     length (v_ops s) = NUM \<and> length (v_used_ring s) = NUM"

lemma submit_simps:
  "v_free (submit b w i0 i1 i2 s) = v_free s" "v_seen (submit b w i0 i1 i2 s) = v_seen s" "v_used_idx (submit b w i0 i1 i2 s) = v_used_idx s"
  "v_used_ring (submit b w i0 i1 i2 s) = v_used_ring s" "v_info_b (submit b w i0 i1 i2 s) = (v_info_b s)[i0 := Some b]"
  "v_status (submit b w i0 i1 i2 s) = (v_status s)[i0 := 0xff]" "disk (submit b w i0 i1 i2 s) = disk s" "dwrites (submit b w i0 i1 i2 s) = dwrites s"
  "bcache (submit b w i0 i1 i2 s) = (bcache s)[b := (bcache s ! b)\<lparr>b_disk := True\<rparr>]"
  "v_ops (submit b w i0 i1 i2 s) = (v_ops s)[i0 := \<lparr>rq_type = if w then VIRTIO_BLK_T_OUT else VIRTIO_BLK_T_IN, rq_reserved = 0,
     rq_sector = ucast (b_blockno (bcache s ! b) * 2)\<rparr>]"
  "v_desc (submit b w i0 i1 i2 s) = (v_desc s)[i0 := \<lparr>vd_addr = OpAddr i0, vd_len = 16, vd_flags = VRING_DESC_F_NEXT, vd_next = of_nat i1\<rparr>,
     i1 := \<lparr>vd_addr = DataAddr b, vd_len = of_nat BSIZE, vd_flags = (if w then 0 else VRING_DESC_F_WRITE) OR VRING_DESC_F_NEXT, vd_next = of_nat i2\<rparr>,
     i2 := \<lparr>vd_addr = StatusAddr i0, vd_len = 1, vd_flags = VRING_DESC_F_WRITE, vd_next = 0\<rparr>]"
  by (simp_all add: submit_def Let_def upd_buf_def)

lemma sector_block: "b < 2 ^ 31 \<Longrightarrow> ucast ((ucast (b * 2) :: u64) div 2) = (b :: u32)"
proof -
  assume "b < 2 ^ 31"
  then have b: "unat b < 2 ^ 31" by (simp add: word_less_nat_alt)
  then have "unat (b * 2) = unat b * 2" by (simp add: unat_word_ariths)
  then have "unat ((ucast (b * 2) :: u64) div 2) = unat b" using b by (simp add: unat_div unsigned_ucast_eq take_bit_nat_eq_self)
  then have "unat (ucast ((ucast (b * 2) :: u64) div 2) :: u32) = unat b" using b by (simp only: unsigned_ucast_eq) (simp add: take_bit_nat_eq_self)
  then show ?thesis by (rule unsigned_word_eqI)
qed

lemma buf_commute: "xs[b := (x :: buf)\<lparr>b_disk := c, b_data := d\<rparr>] = xs[b := x\<lparr>b_data := d, b_disk := c\<rparr>]"
  by (rule arg_cong [of _ _ "list_update xs b"]) simp

lemma served_submit:
  assumes "queue_ok s" "i0 < NUM" "i1 < NUM" "i2 < NUM" "distinct [i0, i1, i2]" "b < length (bcache s)" "b_blockno (bcache s ! b) < 2 ^ 31"
    "served i0 (submit b w i0 i1 i2 s) s'"
  shows "v_desc s' = v_desc (submit b w i0 i1 i2 s)" "v_free s' = v_free s" "v_seen s' = v_seen s" "v_info_b s' = (v_info_b s)[i0 := Some b]"
    "v_status s' = (v_status s)[i0 := 0]" "v_used_idx s' = v_used_idx s + 1"
    "v_used_ring s' = (v_used_ring s)[unat (v_used_idx s mod of_nat NUM) := of_nat i0]"
    "disk s' = disk (disk_rw b w s)" "dwrites s' = dwrites (disk_rw b w s)"
    "bcache s' = (bcache (disk_rw b w s))[b := (bcache (disk_rw b w s) ! b)\<lparr>b_disk := True\<rparr>]"
proof -
  have u: "unat (of_nat i1 :: u16) = i1" "unat (of_nat i2 :: u16) = i2" using assms(3,4) by (simp_all add: unat_of_nat take_bit_nat_eq_self)
  have l: "length (v_desc s) = NUM" "length (v_ops s) = NUM" using assms(1) by (simp_all add: queue_ok_def)
  note blk = sector_block [OF assms(7)]
  have e: "s' = (let s = submit b w i0 i1 i2 s; blk = b_blockno (bcache s ! b);
      s = (if w then s\<lparr>disk := (disk s)(blk := b_data (bcache s ! b)), dwrites := dwrites s @ [(blk, b_data (bcache s ! b))]\<rparr>
           else upd_buf b (\<lambda>x. x\<lparr>b_data := disk s blk\<rparr>) s)
    in s\<lparr>v_status := (v_status s)[i0 := 0], v_used_ring := (v_used_ring s)[unat (v_used_idx s mod of_nat NUM) := of_nat i0],
         v_used_idx := v_used_idx s + 1\<rparr>)"
    using assms(2-6,8) l u blk unfolding served_def by (auto simp: submit_simps Let_def nth_list_update)
  show "v_desc s' = v_desc (submit b w i0 i1 i2 s)" "v_free s' = v_free s" "v_seen s' = v_seen s" "v_info_b s' = (v_info_b s)[i0 := Some b]"
    "v_status s' = (v_status s)[i0 := 0]" "v_used_idx s' = v_used_idx s + 1"
    "v_used_ring s' = (v_used_ring s)[unat (v_used_idx s mod of_nat NUM) := of_nat i0]"
    by (simp_all add: e Let_def submit_simps)
  show "disk s' = disk (disk_rw b w s)" "dwrites s' = dwrites (disk_rw b w s)"
    using assms(6) by (simp_all add: e Let_def submit_simps disk_rw_def upd_buf_def)
  show "bcache s' = (bcache (disk_rw b w s))[b := (bcache (disk_rw b w s) ! b)\<lparr>b_disk := True\<rparr>]"
    using assms(6) by (simp add: e Let_def submit_simps disk_rw_def upd_buf_def) (simp add: buf_commute)
qed

lemma intr_one:
  assumes "v_used_idx s = v_seen s + 1" "v_used_ring s ! unat (v_seen s mod of_nat NUM) = of_nat h" "h < NUM" "v_status s ! h = 0"
    "v_info_b s ! h = Some b"
  shows "virtio_disk_intr s = Some ((wakeup (ChBuf b) (upd_buf b (\<lambda>x. x\<lparr>b_disk := False\<rparr>) s))\<lparr>v_seen := v_seen s + 1\<rparr>)"
proof -
  let ?t = "(wakeup (ChBuf b) (upd_buf b (\<lambda>x. x\<lparr>b_disk := False\<rparr>) s))\<lparr>v_seen := v_seen s + 1\<rparr>"
  have h: "unat (of_nat h :: u32) = h" using assms(3) by (simp add: unat_of_nat take_bit_nat_eq_self)
  have "virtio_disk_intr s = virtio_disk_intr ?t"
    using assms h by (subst virtio_disk_intr.simps) simp
  also have "\<dots> = Some ?t" using assms(1) by (subst virtio_disk_intr.simps) simp
  finally show ?thesis .
qed

lemma take_give:
  assumes "xs ! i0" "xs ! i1" "xs ! i2" "i0 < length xs" "i1 < length xs" "i2 < length xs"
  shows "xs[i0 := False, i1 := False, i2 := False, i0 := True, i1 := True, i2 := True] = xs"
  using assms by (intro nth_equalityI) (auto simp: nth_list_update split: if_splits)


text \<open>The statically initialised kernel, with the disk contents \<open>d\<close> and an empty queue.\<close>

definition ksys_zero :: "(u32 \<Rightarrow> u8 list) \<Rightarrow> ksys" where
  "ksys_zero d = kfile.extend (kfile_zero d (\<lambda>_. \<lparr>pi_data = replicate 512 0, pi_nread = 0, pi_nwrite = 0, pi_readopen = False, pi_writeopen = False\<rparr>))
     (ksys.fields sharedbuf_zero)"

definition kvirt_zero :: "(u32 \<Rightarrow> u8 list) \<Rightarrow> kvirt" where
  "kvirt_zero d = ksys.extend (ksys_zero d)
     (kvirt.fields (replicate NUM desc_zero) (replicate NUM 0) 0 (replicate NUM 0) 0 (replicate NUM True) 0 (replicate NUM None) (replicate NUM 0)
       (replicate NUM \<lparr>rq_type = 0, rq_reserved = 0, rq_sector = 0\<rparr>))"

text \<open>An idle queue on a cache with one empty buffer for block 5.\<close>

definition idle_queue :: kvirt where
  "idle_queue = (kvirt_zero (\<lambda>n. replicate BSIZE (ucast n)))\<lparr>bcache :=
     [\<lparr>b_valid = False, b_disk = False, b_dev = 1, b_blockno = 5, b_lock = \<lparr>sl_locked = True, sl_pid = 1\<rparr>, b_refcnt = 1, b_prev = 0, b_next = 0,
       b_data = replicate BSIZE 0\<rparr>]\<rparr>"

lemma idle_queue_simps [simp]:
  "v_desc idle_queue = replicate NUM desc_zero" "v_free idle_queue = replicate NUM True" "v_ops idle_queue = replicate NUM \<lparr>rq_type = 0, rq_reserved = 0, rq_sector = 0\<rparr>"
  "v_seen idle_queue = 0" "v_used_idx idle_queue = 0" "length (bcache idle_queue) = 1" "b_blockno (bcache idle_queue ! 0) = 5"
  "\<not> b_disk (bcache idle_queue ! 0)" "disk idle_queue = (\<lambda>n. replicate BSIZE (ucast n))" "queue_ok idle_queue"
  by (simp_all add: idle_queue_def kvirt_zero_def ksys_zero_def kfile_zero_def kcons_zero_def kfile.defs ksys.defs kvirt.defs queue_ok_def)


end
