(* ===== verification/Trap.thy ===== *)
theory Trap
  imports Sysfile Virtio
begin

section \<open>System calls, traps and interrupts\<close>

text \<open>
  \<^verbatim>\<open>kernel/trap.c\<close>, \<^verbatim>\<open>plic.c\<close>, the dispatch of \<^verbatim>\<open>syscall.c\<close>, \<^verbatim>\<open>forkret\<close> of \<^verbatim>\<open>proc.c\<close>, and \<^verbatim>\<open>main.c\<close> and \<^verbatim>\<open>start.c\<close>. The control registers of the
  executing CPU are fields of the state. The addresses of code that the linker assigns are a record that the
  functions take. A trap from user space ends with the return to user space, or the process sleeps, gives up the CPU or
  exits; what runs after a wait is a definition of its own.

  The lemmas show that unknown system call numbers are harmless and that the clock wakes a pausing process.
\<close>

subsection \<open>State\<close>

record symbols =
  sy_trampoline :: u64
  sy_uservec :: u64
  sy_userret :: u64
  sy_kernelvec :: u64
  sy_usertrap :: u64
  sy_forkret :: u64
  sy_etext :: u64

text \<open>
  \<open>plic_irq\<close> is what the claim register of the interrupt controller reads as, \<open>plic_log\<close> the writes to its registers. \<open>fk_first\<close> is the static
  variable of \<^verbatim>\<open>forkret\<close>.
\<close>

record ktrap = kvirt +
  c_sstatus :: u64
  c_sepc :: u64
  c_scause :: u64
  c_stval :: u64
  c_stvec :: u64
  c_satp :: u64
  c_time :: u64
  c_stimecmp :: u64
  plic_irq :: u32
  plic_log :: "(u64 \<times> u32) list"
  kernel_pagetable :: u64
  fk_first :: bool
  started :: bool

abbreviation SSTATUS_SPP :: u64 where "SSTATUS_SPP \<equiv> push_bit 8 1"
abbreviation SSTATUS_SPIE :: u64 where "SSTATUS_SPIE \<equiv> push_bit 5 1"
abbreviation SSTATUS_SIE :: u64 where "SSTATUS_SIE \<equiv> push_bit 1 1"

definition MAKE_SATP :: "u64 \<Rightarrow> u64" where
  "MAKE_SATP pt = push_bit 60 8 OR drop_bit 12 pt"

definition intr_on :: "'a ktrap_scheme \<Rightarrow> 'a ktrap_scheme" where
  "intr_on s = s\<lparr>c_sstatus := c_sstatus s OR SSTATUS_SIE\<rparr>"

definition intr_off :: "'a ktrap_scheme \<Rightarrow> 'a ktrap_scheme" where
  "intr_off s = s\<lparr>c_sstatus := c_sstatus s AND NOT SSTATUS_SIE\<rparr>"

definition intr_get :: "'a ktrap_scheme \<Rightarrow> bool" where
  "intr_get s \<longleftrightarrow> c_sstatus s AND SSTATUS_SIE \<noteq> 0"

subsection \<open>System calls\<close>

text \<open>The table of the calls by their numbers, without an entry at 0. \<open>pad\<close> is the padding of \<^verbatim>\<open>struct stat\<close>.\<close>

definition syscalls :: "symbols \<Rightarrow> u8 list \<Rightarrow> swtch_context \<Rightarrow> ('a ksys_scheme \<Rightarrow> (sysres \<times> 'a ksys_scheme) option) option list" where
  "syscalls sy pad regs = [None,
     Some (sys_fork (sy_trampoline sy) (sy_forkret sy)), Some (sys_exit regs), Some sys_wait, Some sys_pipe, Some sys_read,
     Some sys_kill, Some (sys_exec (sy_trampoline sy)), Some (sys_fstat pad), Some sys_chdir, Some sys_dup,
     Some sys_getpid, Some sys_sbrk, Some sys_pause, Some sys_uptime, Some sys_open,
     Some sys_write, Some sys_mknod, Some sys_unlink, Some sys_link, Some sys_mkdir,
     Some sys_close, Some sys_settickets_call, Some sys_memstat, Some sys_encrypt, Some sys_decrypt,
     Some sys_freemem, Some sys_buffer_init, Some sys_produce, Some sys_consume, Some sys_buffer_status]"

text \<open>Storing the result of a call that has returned.\<close>

definition syscall_return :: "nat \<Rightarrow> sysres \<Rightarrow> 'a ksys_scheme \<Rightarrow> 'a ksys_scheme" where
  "syscall_return p r s = (case r of Ret v \<Rightarrow> tf_set p A0 v s | _ \<Rightarrow> s)"

definition syscall :: "symbols \<Rightarrow> u8 list \<Rightarrow> swtch_context \<Rightarrow> 'a ksys_scheme \<Rightarrow> (sysres \<times> 'a ksys_scheme) option" where
  "syscall sy pad regs s =
     (case myproc s of None \<Rightarrow> panic ''kerneltrap''
      | Some p \<Rightarrow>
        let num = (ucast (tf_get s p A7) :: cint);
            table = syscalls sy pad regs;
            call = (if 0 <s num \<and> unat num < length table then table ! unat num else None) in
        case call of
          Some f \<Rightarrow> do { (r, s) \<leftarrow> f s; Some (r, syscall_return p r s) }
        | None \<Rightarrow> do {
            s \<leftarrow> kprintf (bytes ''%d %s: unknown sys call %d\<newline>'')
                  [VNum (ucast (pid (procs s ! p))), VStr (Some (c_str (name (procs s ! p)))), VNum (ucast num)] s;
            Some (Ret (- 1), tf_set p A0 (- 1) s) })"

text \<open>A system call that has slept, from the point where it was woken up.\<close>

definition syscall_resume :: "slocals \<Rightarrow> 'a ksys_scheme \<Rightarrow> (sysres \<times> 'a ksys_scheme) option" where
  "syscall_resume l s =
     (case myproc s of None \<Rightarrow> panic ''kerneltrap''
      | Some p \<Rightarrow> do {
          (r, s) \<leftarrow> (case l of
             LWait \<Rightarrow> sys_wait s
           | LPause t0 n \<Rightarrow> pause_from t0 n s
           | LFile f addr n k \<Rightarrow> do { (b, s) \<leftarrow> file_resume f addr n k s; Some (file_result f addr n b, s) });
          Some (r, syscall_return p r s) })"

subsection \<open>Interrupts\<close>

definition plic_base :: u64 where "plic_base = 0x0c000000"
abbreviation UART0_IRQ :: nat where "UART0_IRQ \<equiv> 10"
abbreviation VIRTIO0_IRQ :: nat where "VIRTIO0_IRQ \<equiv> 1"

definition PLIC_SENABLE :: "nat \<Rightarrow> u64" where "PLIC_SENABLE h = plic_base + 0x2080 + of_nat h * 0x100"
definition PLIC_SPRIORITY :: "nat \<Rightarrow> u64" where "PLIC_SPRIORITY h = plic_base + 0x201000 + of_nat h * 0x2000"
definition PLIC_SCLAIM :: "nat \<Rightarrow> u64" where "PLIC_SCLAIM h = plic_base + 0x201004 + of_nat h * 0x2000"

definition plicinit :: "'a ktrap_scheme \<Rightarrow> 'a ktrap_scheme" where
  "plicinit s = s\<lparr>plic_log := plic_log s @ [(plic_base + of_nat UART0_IRQ * 4, 1), (plic_base + of_nat VIRTIO0_IRQ * 4, 1)]\<rparr>"

definition plicinithart :: "'a ktrap_scheme \<Rightarrow> 'a ktrap_scheme" where
  "plicinithart s = s\<lparr>plic_log := plic_log s @
     [(PLIC_SENABLE (cpuid s), push_bit UART0_IRQ 1 OR push_bit VIRTIO0_IRQ 1), (PLIC_SPRIORITY (cpuid s), 0)]\<rparr>"

definition plic_claim :: "'a ktrap_scheme \<Rightarrow> cint" where
  "plic_claim s = plic_irq s"

definition plic_complete :: "cint \<Rightarrow> 'a ktrap_scheme \<Rightarrow> 'a ktrap_scheme" where
  "plic_complete irq s = s\<lparr>plic_log := plic_log s @ [(PLIC_SCLAIM (cpuid s), irq)]\<rparr>"

definition clockintr :: "'a ktrap_scheme \<Rightarrow> 'a ktrap_scheme" where
  "clockintr s =
     (let s = (if cpuid s = 0 then wakeup ChTicks (s\<lparr>ticks := ticks s + 1\<rparr>) else s)
      in s\<lparr>c_stimecmp := c_time s + 1000000\<rparr>)"

definition devintr :: "'a ktrap_scheme \<Rightarrow> (cint \<times> 'a ktrap_scheme) option" where
  "devintr s =
     (if c_scause s = 0x8000000000000009 then do {
        let irq = plic_claim s;
        s \<leftarrow> (if irq = of_nat UART0_IRQ then uartintr s
              else if irq = of_nat VIRTIO0_IRQ then virtio_disk_intr s
              else if irq \<noteq> 0 then kprintf (bytes ''unexpected interrupt irq=%d\<newline>'') [VNum (ucast irq)] s
              else Some s);
        Some (1, if irq \<noteq> 0 then plic_complete irq s else s) }
      else if c_scause s = 0x8000000000000005 then Some (2, clockintr s)
      else Some (0, s))"

subsection \<open>Traps\<close>

definition trapinithart :: "symbols \<Rightarrow> 'a ktrap_scheme \<Rightarrow> 'a ktrap_scheme" where
  "trapinithart sy s = s\<lparr>c_stvec := sy_kernelvec sy\<rparr>"

definition prepare_return :: "symbols \<Rightarrow> 'a ktrap_scheme \<Rightarrow> 'a ktrap_scheme option" where
  "prepare_return sy s =
     (case myproc s of None \<Rightarrow> panic ''kerneltrap''
      | Some p \<Rightarrow>
        let s = intr_off s;
            s = s\<lparr>c_stvec := TRAMPOLINE + (sy_uservec sy - sy_trampoline sy)\<rparr>;
            s = tf_set p Kernel_satp (c_satp s) s;
            s = tf_set p Kernel_sp (kstack (procs s ! p) + PGSIZE) s;
            s = tf_set p Kernel_trap (sy_usertrap sy) s;
            s = tf_set p Kernel_hartid (of_nat (hart s)) s;
            x = (c_sstatus s AND NOT SSTATUS_SPP) OR SSTATUS_SPIE;
            s = s\<lparr>c_sstatus := x\<rparr>
        in Some (s\<lparr>c_sepc := tf_get s p Epc\<rparr>))"

text \<open>
  How a trap from user space ends: with the return to user space on the given page table, asleep in a system call, in
  \<^verbatim>\<open>yield\<close>, or with the exit of the process.
\<close>

datatype trapres = ToUser u64 | Asleep chan slocals | Yielded | Exited

definition return_to_user :: "symbols \<Rightarrow> nat \<Rightarrow> 'a ktrap_scheme \<Rightarrow> (trapres \<times> 'a ktrap_scheme) option" where
  "return_to_user sy p s = do { s \<leftarrow> prepare_return sy s; Some (ToUser (MAKE_SATP (pagetable (procs s ! p))), s) }"

text \<open>The end of \<^verbatim>\<open>usertrap\<close>, from the second test of \<^verbatim>\<open>killed\<close> on, and what it does after the \<^verbatim>\<open>yield\<close>.\<close>

definition usertrap_end :: "symbols \<Rightarrow> swtch_context \<Rightarrow> nat \<Rightarrow> cint \<Rightarrow> 'a ktrap_scheme \<Rightarrow> (trapres \<times> 'a ktrap_scheme) option" where
  "usertrap_end sy regs p which_dev s =
     (if is_killed p s \<noteq> 0 then do { (_, _, s) \<leftarrow> kexit (- 1) regs s; Some (Exited, s) }
      else if which_dev = 2 then do { (_, _, s) \<leftarrow> yield regs s; Some (Yielded, s) }
      else return_to_user sy p s)"

definition usertrap_yielded :: "symbols \<Rightarrow> nat \<Rightarrow> bool \<Rightarrow> 'a ktrap_scheme \<Rightarrow> (trapres \<times> 'a ktrap_scheme) option" where
  "usertrap_yielded sy p ie s = return_to_user sy p (sched_resume ie s)"

definition usertrap_syscall :: "symbols \<Rightarrow> swtch_context \<Rightarrow> nat \<Rightarrow> sysres \<Rightarrow> 'a ktrap_scheme \<Rightarrow> (trapres \<times> 'a ktrap_scheme) option" where
  "usertrap_syscall sy regs p r s = (case r of
     Ret _ \<Rightarrow> usertrap_end sy regs p 0 s
   | Wait ch l \<Rightarrow> Some (Asleep ch l, s)
   | Gone \<Rightarrow> Some (Exited, s))"

text \<open>A trap that is neither a system call nor an interrupt nor a fault that can be repaired.\<close>

definition unexpected_trap :: "nat \<Rightarrow> 'a ktrap_scheme \<Rightarrow> 'a ktrap_scheme option" where
  "unexpected_trap p s = do {
     s \<leftarrow> kprintf (bytes ''usertrap(): unexpected scause 0x%lx pid=%d\<newline>'') [VNum (c_scause s), VNum (ucast (pid (procs s ! p)))] s;
     s \<leftarrow> kprintf (bytes ''            sepc=0x%lx stval=0x%lx\<newline>'') [VNum (c_sepc s), VNum (c_stval s)] s;
     Some (setkilled p s) }"

definition usertrap :: "symbols \<Rightarrow> u8 list \<Rightarrow> swtch_context \<Rightarrow> 'a ktrap_scheme \<Rightarrow> (trapres \<times> 'a ktrap_scheme) option" where
  "usertrap sy pad regs s =
     (if c_sstatus s AND SSTATUS_SPP \<noteq> 0 then panic ''usertrap: not from user mode''
      else
        let s = s\<lparr>c_stvec := sy_kernelvec sy\<rparr> in
        case myproc s of None \<Rightarrow> panic ''kerneltrap''
        | Some p \<Rightarrow>
          let s = tf_set p Epc (c_sepc s) s in
          if c_scause s = 8 then
            if is_killed p s \<noteq> 0 then do { (_, _, s) \<leftarrow> kexit (- 1) regs s; Some (Exited, s) }
            else do {
              let s = tf_set p Epc (tf_get s p Epc + 4) s;
              (r, s) \<leftarrow> syscall sy pad regs (intr_on s);
              usertrap_syscall sy regs p r s }
          else do {
            (which_dev, s) \<leftarrow> devintr s;
            if which_dev \<noteq> 0 then usertrap_end sy regs p which_dev s
            else do {
              (pa, s) \<leftarrow> (if c_scause s = 15 \<or> c_scause s = 13 then vmfault (pagetable (procs s ! p)) (c_stval s) s else Some (0, s));
              s \<leftarrow> (if pa \<noteq> 0 then Some s else unexpected_trap p s);
              usertrap_end sy regs p 0 s } })"

text \<open>\<^verbatim>\<open>kerneltrap\<close>: \<^const>\<open>None\<close> inside when it has given up the CPU; afterwards only its last two statements remain.\<close>

definition kerneltrap_end :: "u64 \<Rightarrow> u64 \<Rightarrow> 'a ktrap_scheme \<Rightarrow> 'a ktrap_scheme" where
  "kerneltrap_end sepc sstatus s = s\<lparr>c_sepc := sepc, c_sstatus := sstatus\<rparr>"

definition kerneltrap :: "swtch_context \<Rightarrow> 'a ktrap_scheme \<Rightarrow> (unit option \<times> 'a ktrap_scheme) option" where
  "kerneltrap regs s =
     (let sepc = c_sepc s; sstatus = c_sstatus s in
      if sstatus AND SSTATUS_SPP = 0 then panic ''kerneltrap: not from supervisor mode''
      else if intr_get s then panic ''kerneltrap: interrupts enabled''
      else do {
        (which_dev, s) \<leftarrow> devintr s;
        if which_dev = 0 then panic ''kerneltrap''
        else if which_dev = 2 \<and> myproc s \<noteq> None then do { (_, _, s) \<leftarrow> yield regs s; Some (None, s) }
        else Some (Some (), kerneltrap_end sepc sstatus s) })"

definition forkret :: "symbols \<Rightarrow> 'a ktrap_scheme \<Rightarrow> (trapres \<times> 'a ktrap_scheme) option" where
  "forkret sy s =
     (case myproc s of None \<Rightarrow> panic ''kerneltrap''
      | Some p \<Rightarrow> do {
          s \<leftarrow> (if fk_first s then do {
                 s \<leftarrow> fsinit 1 s;
                 let s = s\<lparr>fk_first := False\<rparr>;
                 (r, s) \<leftarrow> kexec (sy_trampoline sy) (bytes ''/init'') [bytes ''/init''] s;
                 let s = tf_set p A0 (scast r) s;
                 if tf_get s p A0 = - 1 then panic ''exec'' else Some s }
               else Some s);
          return_to_user sy p s })"

subsection \<open>Boot\<close>

text \<open>The registers that \<^verbatim>\<open>start\<close> sets in machine mode. \<open>now\<close> is the value of the \<^verbatim>\<open>time\<close> register.\<close>

record mregs =
  m_status :: u64
  m_epc :: u64
  m_satp :: u64
  m_edeleg :: u64
  m_ideleg :: u64
  m_sie :: u64
  m_pmpaddr0 :: u64
  m_pmpcfg0 :: u64
  m_ie :: u64
  m_envcfg :: u64
  m_counteren :: u64
  m_stimecmp :: u64
  m_tp :: u64

definition timerinit :: "u64 \<Rightarrow> mregs \<Rightarrow> mregs" where
  "timerinit now m =
     (let m = m\<lparr>m_ie := m_ie m OR push_bit 5 1\<rparr>;
          m = m\<lparr>m_envcfg := m_envcfg m OR push_bit 63 1\<rparr>;
          m = m\<lparr>m_counteren := m_counteren m OR 2\<rparr>
      in m\<lparr>m_stimecmp := now + 1000000\<rparr>)"

definition start :: "u64 \<Rightarrow> u64 \<Rightarrow> u64 \<Rightarrow> mregs \<Rightarrow> mregs" where
  "start main_addr now hartid m =
     (let x = m_status m AND NOT (push_bit 11 3);
          m = m\<lparr>m_status := x OR push_bit 11 1\<rparr>;
          m = m\<lparr>m_epc := main_addr\<rparr>;
          m = m\<lparr>m_satp := 0\<rparr>;
          m = m\<lparr>m_edeleg := 0xffff, m_ideleg := 0xffff\<rparr>;
          m = m\<lparr>m_sie := m_sie m OR push_bit 9 1 OR push_bit 5 1\<rparr>;
          m = m\<lparr>m_pmpaddr0 := 0x3fffffffffffff, m_pmpcfg0 := 0xf\<rparr>;
          m = timerinit now m
      in m\<lparr>m_tp := scast (ucast hartid :: cint)\<rparr>)"

definition kvminithart :: "'a ktrap_scheme \<Rightarrow> 'a ktrap_scheme" where
  "kvminithart s = s\<lparr>c_satp := MAKE_SATP (kernel_pagetable s)\<rparr>"

definition kvminit :: "symbols \<Rightarrow> 'a ktrap_scheme \<Rightarrow> 'a ktrap_scheme option" where
  "kvminit sy s = do { (pt, s) \<leftarrow> kvmmake (sy_etext sy) (sy_trampoline sy) s; Some (s\<lparr>kernel_pagetable := pt\<rparr>) }"

text \<open>
  \<^verbatim>\<open>main\<close> up to the call of \<^verbatim>\<open>scheduler\<close>. \<open>rd\<close> gives the registers of the disk. The initialisation functions that only name locks
  (\<^verbatim>\<open>printfinit\<close>, \<^verbatim>\<open>trapinit\<close>, \<^verbatim>\<open>fileinit\<close>) have no effect on the state. A CPU other than 0 waits until CPU 0 is done.
\<close>

definition main :: "symbols \<Rightarrow> (nat \<Rightarrow> u32) \<Rightarrow> 'a ktrap_scheme \<Rightarrow> 'a ktrap_scheme option" where
  "main sy rd s =
     (if cpuid s = 0 then do {
        let s = consoleinit s;
        s \<leftarrow> kprintf (bytes ''\<newline>'') [] s;
        s \<leftarrow> kprintf (bytes ''xv6 kernel is booting\<newline>'') [] s;
        s \<leftarrow> kprintf (bytes ''\<newline>'') [] s;
        s \<leftarrow> kinit s;
        s \<leftarrow> kvminit sy s;
        let s = kvminithart s;
        let s = procinit s;
        let s = trapinithart sy s;
        let s = plicinit s;
        let s = plicinithart s;
        let s = binit s;
        let s = iinit s;
        (_, s) \<leftarrow> virtio_disk_init rd s;
        s \<leftarrow> userinit (sy_trampoline sy) (sy_forkret sy) s;
        Some (s\<lparr>started := True\<rparr>) }
      else if \<not> started s then None
      else do {
        s \<leftarrow> kprintf (bytes ''hart %d starting\<newline>'') [VNum (of_nat (cpuid s))] s;
        let s = kvminithart s;
        let s = trapinithart sy s;
        Some (plicinithart s) })"

subsection \<open>Registers of the trap frame\<close>

lemma tf_off_bound: "tf_off r \<le> 280" "tf_off r mod 8 = 0"
  by (cases r; simp)+

lemma tf_off_inj: "tf_off r = tf_off q \<Longrightarrow> r = q"
  by (cases r; cases q; simp)

lemma tf_off_apart:
  assumes "r \<noteq> q" "i < 8"
  shows "\<not> in_range (a + tf_off r + of_nat i) (a + tf_off q) 8"
proof
  assume "in_range (a + tf_off r + of_nat i) (a + tf_off q) 8"
  then obtain j where j: "j < 8" "a + tf_off r + of_nat i = a + tf_off q + of_nat j" by (rule in_rangeE)
  have m: "unat (tf_off r) mod 8 = 0" for r using tf_off_bound(2) [of r] by (simp add: word_unat_eq_iff unat_mod)
  have l: "unat (tf_off r) \<le> 280" for r using tf_off_bound(1) [of r] by (simp add: word_le_nat_alt)
  have "unat (tf_off r + of_nat i) = unat (tf_off q + of_nat j)" using j(2) by (simp add: add.assoc)
  moreover have "unat (tf_off r + of_nat i) = unat (tf_off r) + i" "unat (tf_off q + of_nat j) = unat (tf_off q) + j"
    using l [of r] l [of q] assms(2) j(1) by (simp_all add: unat_word_ariths unat_of_nat take_bit_nat_eq_self)
  ultimately have "unat (tf_off r) + i = unat (tf_off q) + j" by simp
  then have "unat (tf_off r) = unat (tf_off q)" using m [of r] m [of q] assms(2) j(1) by presburger
  then show False using tf_off_inj [of r q] assms(1) by (simp add: word_unat_eq_iff)
qed

lemma tf_get_set: "tf_get (tf_set p r v s) p q = (if q = r then v else tf_get s p q)"
proof (cases "q = r")
  case False
  then show ?thesis unfolding tf_get_def tf_set_def
    by (auto intro!: read64_cong write64_other simp: tf_off_apart)
qed (simp add: tf_get_def tf_set_def)

subsection \<open>Unknown system calls\<close>

lemma length_syscalls: "length (syscalls sy pad regs) = 31"
  by (simp add: syscalls_def)

lemma consputc_thr: "consputc c s = Some s' \<Longrightarrow> \<exists>out. s' = s\<lparr>thr := thr s @ out\<rparr>"
  by (auto simp: consputc_def uartputc_sync_def split: if_splits)

lemma consputs_thr: "consputs cs s = Some s' \<Longrightarrow> \<exists>out. s' = s\<lparr>thr := thr s @ out\<rparr>"
proof (induction cs arbitrary: s)
  case (Cons c cs)
  then obtain t where t: "consputc c s = Some t" "consputs cs t = Some s'" by (auto simp: bind_Some_iff)
  then show ?case using Cons.IH [OF t(2)] consputc_thr [OF t(1)] by auto
next
  case Nil
  then have "s' = s\<lparr>thr := thr s @ []\<rparr>" by simp
  then show ?case by blast
qed

lemma kprintf_thr:
  assumes "\<not> panicked s" "printf fmt ap = Some cs"
  shows "\<exists>out. kprintf fmt ap s = Some (s\<lparr>thr := thr s @ out\<rparr>)"
  using consputs_total [OF assms(1), of cs] consputs_thr assms(2) by (fastforce simp: kprintf_def)

lemma unknown_format: "\<exists>out. printf (bytes ''%d %s: unknown sys call %d\<newline>'') [VNum x, VStr (Some a), VNum y] = Some out"
proof -
  obtain o1 o2 where p: "printint kdigits (scast (ucast x :: u32)) 10 True = Some o1" "printint kdigits (scast (ucast y :: u32)) 10 True = Some o2"
    using printint_total by blast
  have c: "conv_of 100 32 37 = (Num False 10 True, 0)" "conv_of 115 58 32 = (Str, 0)" "conv_of 100 10 0 = (Num False 10 True, 0)"
    by (simp_all add: conv_of_def)
  show ?thesis unfolding printf_def by (simp add: printf_step at_def c print_conv_def va_num_def va_str_def p)
qed

text \<open>
  C37. A system call number outside the table is harmless: for every value of register a7 whose low 32 bits, read as an int, are not between 1
  and 30, the dispatch stores -1 in register a0, leaves every other register of the trap frame alone, and changes nothing else
  but the characters sent to the console.
\<close>

theorem syscall_unknown:
  assumes "myproc s = Some p" "\<not> panicked s" "sint (ucast (tf_get s p A7) :: cint) < 1 \<or> 30 < sint (ucast (tf_get s p A7) :: cint)"
  shows "\<exists>out s'. syscall sy pad regs s = Some (Ret (- 1), s') \<and> s' = tf_set p A0 (- 1) (s\<lparr>thr := thr s @ out\<rparr>) \<and>
    tf_get s' p A0 = - 1 \<and> (\<forall>r. r \<noteq> A0 \<longrightarrow> tf_get s' p r = tf_get s p r)"
proof -
  let ?n = "ucast (tf_get s p A7) :: cint"
  have "\<not> (0 <s ?n \<and> unat ?n < 31)"
  proof
    assume a: "0 <s ?n \<and> unat ?n < 31"
    then have "sint ?n = int (unat ?n)" by (intro sint_eq_unat) simp
    moreover have "0 < sint ?n" "int (unat ?n) < 31" using a by (simp add: word_sless_alt, linarith)
    ultimately show False using assms(3) by linarith
  qed
  moreover obtain out where "kprintf (bytes ''%d %s: unknown sys call %d\<newline>'')
      [VNum (ucast (pid (procs s ! p))), VStr (Some (c_str (name (procs s ! p)))), VNum (ucast ?n)] s = Some (s\<lparr>thr := thr s @ out\<rparr>)"
    using kprintf_thr [OF assms(2)] unknown_format by blast
  ultimately have "syscall sy pad regs s = Some (Ret (- 1), tf_set p A0 (- 1) (s\<lparr>thr := thr s @ out\<rparr>))"
    using assms(1) by (auto simp: syscall_def Let_def length_syscalls)
  moreover have "tf_get (s\<lparr>thr := x\<rparr>) p r = tf_get s p r" for x r by (simp add: tf_get_def)
  ultimately show ?thesis by (auto simp: tf_get_set)
qed

theorem syscall_unknown_witness:
  "\<exists>s'. syscall \<lparr>sy_trampoline = 0x80007000, sy_uservec = 0x80007000, sy_userret = 0x8000709a, sy_kernelvec = 0x80005000, sy_usertrap = 0x80002000,
      sy_forkret = 0x80001000, sy_etext = 0x80008000\<rparr> [] context_zero
      ((ksys_zero (\<lambda>_. []))\<lparr>cpus := replicate NCPU (cpu_zero\<lparr>cpu_proc := Some 0\<rparr>)\<rparr>) = Some (Ret (- 1), s') \<and> tf_get s' 0 A0 = - 1"
proof -
  let ?s = "(ksys_zero (\<lambda>_. []))\<lparr>cpus := replicate NCPU (cpu_zero\<lparr>cpu_proc := Some 0\<rparr>)\<rparr>"
  have "myproc ?s = Some 0" "\<not> panicked ?s" "mem ?s = (\<lambda>_. 0)"
    by (simp_all add: myproc_def mycpu_def cpuid_def ksys_zero_def kfile_zero_def kcons_zero_def kfile.defs ksys.defs)
  moreover from this(3) have "tf_get ?s 0 A7 = 0" unfolding tf_get_def by (simp add: read64_zero)
  ultimately show ?thesis using syscall_unknown [of ?s 0] by fastforce
qed

subsection \<open>The clock wakes a pausing process\<close>

lemma clockintr_ticks: "hart s = 0 \<Longrightarrow> ticks (clockintr s) = ticks s + 1"
  by (simp add: clockintr_def cpuid_def wakeup_def)

lemma clockintr_wakes:
  assumes "hart s = 0" "p < length (procs s)" "state (procs s ! p) = SLEEPING" "p_chan (procs s ! p) = ChTicks" "myproc s \<noteq> Some p"
  shows "state (procs (clockintr s) ! p) = RUNNABLE"
proof -
  have "myproc (s\<lparr>ticks := t\<rparr>) = myproc s" for t by (simp add: myproc_def mycpu_def cpuid_def)
  then show ?thesis using assms wakeup_nth [of p "s\<lparr>ticks := ticks s + 1\<rparr>" ChTicks] by (simp add: clockintr_def cpuid_def Let_def)
qed

lemma sint_nonneg_unat:
  assumes "0 \<le> sint (n :: cint)"
  shows "unat n < 2 ^ 31"
proof -
  have "uint n = sint n mod 2 ^ 32" by (simp add: uint_sint take_bit_eq_mod)
  also have "\<dots> = sint n" using assms sint_range(2) [of n] by (intro mod_pos_pos_trivial) simp_all
  finally have "int (unat n) < int (2 ^ 31)" using sint_range(2) [of n] by simp
  then show ?thesis by (simp only: of_nat_less_iff)
qed

lemma pause_from_ticks:
  fixes n :: cint
  assumes "myproc u = Some q" "is_killed q u = 0" "ticks u = t0 + of_nat k" "k < 2 ^ 31" "0 \<le> sint n"
  shows "pause_from t0 n u = Some (if sint n \<le> int k then Ret 0 else Wait ChTicks (LPause t0 n), u)"
proof -
  have n: "unat n < 2 ^ 31" using assms(5) by (rule sint_nonneg_unat)
  have "sint n = int (unat n)" using n by (rule sint_eq_unat)
  moreover have "unat (of_nat k :: u32) = k" using assms(4) by (intro unat_of_nat_small) simp
  ultimately have "ticks u - t0 < n \<longleftrightarrow> \<not> sint n \<le> int k" using assms(3) by (simp add: word_less_nat_alt not_le del: of_nat_unat)
  then show ?thesis using assms(1,2) by (auto simp: pause_from_def)
qed

text \<open>
  C38. A pause lasts exactly as many clock ticks as it was asked for. A call of \<^verbatim>\<open>sys_pause\<close> that goes to sleep waits for the clock; every timer interrupt of
  CPU 0 makes the sleeping process runnable; and when the process, not killed, continues after \<open>k + 1\<close> ticks, the call returns 0 if
  that is at least its argument and sleeps again otherwise, also when the 32-bit tick counter has wrapped around.
\<close>

theorem pause_ticks:
  assumes p: "sys_pause s = Some (Wait ch l, s')"
    and t: "hart t = 0" "ticks t = ticks s + of_nat k" "k < 2 ^ 31 - 1" "i < length (procs t)" "state (procs t ! i) = SLEEPING"
      "p_chan (procs t ! i) = ch" "myproc t \<noteq> Some i"
    and u: "myproc u = Some i" "is_killed i u = 0" "ticks u = ticks (clockintr t)"
  shows "\<exists>n. argint 0 s = Some n \<and> state (procs (clockintr t) ! i) = RUNNABLE \<and>
    syscall_resume l u = Some (if sint n \<le> int (k + 1) then (Ret 0, tf_set i A0 0 u) else (Wait ch l, u))"
proof -
  obtain n where n: "argint 0 s = Some n" "pause_from (ticks s) (if n <s 0 then 0 else n) s = Some (Wait ch l, s')"
    using p by (auto simp: sys_pause_def bind_Some_iff)
  have "\<not> n <s 0"
  proof
    assume "n <s 0"
    then show False using n(2) by (simp add: pause_from_def)
  qed
  then have pos: "0 \<le> sint n" and c: "ch = ChTicks" "l = LPause (ticks s) n"
    using n(2) by (auto simp: word_sless_alt pause_from_def split: if_splits option.splits)
  have "ticks u = ticks s + of_nat (k + 1)" using u(3) t(2) clockintr_ticks [OF t(1)] by (simp add: algebra_simps)
  then have "pause_from (ticks s) n u = Some (if sint n \<le> int (k + 1) then Ret 0 else Wait ChTicks (LPause (ticks s) n), u)"
    using u(1,2) t(3) pos by (intro pause_from_ticks) simp_all
  then have "syscall_resume l u = Some (if sint n \<le> int (k + 1) then (Ret 0, tf_set i A0 0 u) else (Wait ch l, u))"
    using u(1) by (simp add: syscall_resume_def c syscall_return_def)
  then show ?thesis using n(1) clockintr_wakes [OF t(1,4,5) t(6) [unfolded c(1)] t(7)] by blast
qed

text \<open>A process that asks for a pause of one tick, and the state in which the timer interrupt finds it asleep.\<close>

definition ktrap_zero :: "(u32 \<Rightarrow> u8 list) \<Rightarrow> ktrap" where
  "ktrap_zero d = kvirt.extend (kvirt_zero d) (ktrap.fields 0 0 0 0 0 0 0 0 0 [] 0 True False)"

definition pausing :: ksys where
  "pausing = (let s = ksys_zero (\<lambda>_. []) in s\<lparr>cpus := replicate NCPU (cpu_zero\<lparr>cpu_proc := Some 0\<rparr>),
     mem := write64 (mem s) (tf_off A0) 1\<rparr>)"

definition paused :: ktrap where
  "paused = (let s = ktrap_zero (\<lambda>_. []) in s\<lparr>procs := (procs s)[0 := proc_zero\<lparr>state := SLEEPING, p_chan := ChTicks\<rparr>]\<rparr>)"

lemmas zero_defs = ktrap_zero_def kvirt_zero_def ksys_zero_def kfile_zero_def kcons_zero_def kfile.defs ksys.defs kvirt.defs ktrap.defs

theorem pause_ticks_witness:
  "\<exists>l. sys_pause pausing = Some (Wait ChTicks l, pausing) \<and> state (procs (clockintr paused) ! 0) = RUNNABLE \<and>
    syscall_resume l (pausing\<lparr>ticks := 1\<rparr>) = Some (Ret 0, tf_set 0 A0 0 (pausing\<lparr>ticks := 1\<rparr>))"
proof -
  have m: "myproc pausing = Some 0" "myproc (pausing\<lparr>ticks := 1\<rparr>) = Some 0" "ticks pausing = 0" "trapframe (procs pausing ! 0) = 0"
    "is_killed 0 pausing = 0" "is_killed 0 (pausing\<lparr>ticks := 1\<rparr>) = 0" "mem pausing = write64 (\<lambda>_. 0) (tf_off A0) 1"
    by (simp_all add: pausing_def Let_def zero_defs myproc_def mycpu_def cpuid_def is_killed_def proc_zero_def del: tf_off.simps)
  have a: "argint 0 pausing = Some 1" by (simp add: argint_def argraw_def tf_get_def m(1,4,7) del: tf_off.simps)
  have p: "sys_pause pausing = Some (Wait ChTicks (LPause 0 1), pausing)"
    using a m(1,3,5) by (simp add: sys_pause_def pause_from_def word_sless_alt)
  have t: "hart paused = 0" "ticks paused = 0" "0 < length (procs paused)" "state (procs paused ! 0) = SLEEPING" "p_chan (procs paused ! 0) = ChTicks"
    "myproc paused \<noteq> Some 0"
    by (simp_all add: paused_def Let_def zero_defs myproc_def mycpu_def cpuid_def cpu_zero_def)
  have u: "ticks (pausing\<lparr>ticks := 1\<rparr>) = ticks (clockintr paused)" using clockintr_ticks [OF t(1)] t(2) by simp
  show ?thesis using pause_ticks [OF p t(1) _ _ t(3-6) m(2,6) u, of 0] a p t(2) m(3) by auto
qed

end
