(* ===== verification/Spec2Isabelle.thy ===== *)
theory Spec2Isabelle
  imports Spinlock Shell Trap
begin

text \<open>
  A verification development for the xv6-riscv kernel with its enhancements: lottery scheduling, memory
  statistics, buffer encryption and a shared producer-consumer buffer. All paths below are relative to
  \<^verbatim>\<open>src/\<close>.

  \<^bold>\<open>How the program is modelled.\<close> Integers are machine words: \<^typ>\<open>cint\<close> is a C \<^verbatim>\<open>int\<close>, read by \<^term>\<open>sint\<close>; unsigned types are
  words of their width. A function of the kernel is a function on an explicit state. A call that panics, or that
  dereferences a null pointer in the kernel, has the result \<^const>\<open>None\<close>; an error code is returned as the code returns
  it. Pointers into the static tables (processes, buffers, inodes, files) are indices; physical addresses are
  64-bit words into a byte memory, so that page tables, free pages and trap frames are bytes of that memory as they are
  for the code. A section under a spin lock is one step, except in the theories that are about the locks themselves.
  A function that sleeps returns the channel and the locals it continues with, or is \<^const>\<open>None\<close> where only waiting is
  possible (\<^verbatim>\<open>acquiresleep\<close>, \<^verbatim>\<open>begin_op\<close>).

  The state is a tower of records, one extension for each layer: \<^typ>\<open>machine\<close> (memory and page allocator), \<^typ>\<open>kproc\<close>
  (process table and CPUs), \<^typ>\<open>kbio\<close> (buffer cache and disk), \<^typ>\<open>klog\<close>, \<^typ>\<open>kfs\<close> (superblock and inodes), \<^typ>\<open>kcons\<close> (console), \<^typ>\<open>kfile\<close>
  (open files and pipes), \<^typ>\<open>ksys\<close> (shared buffer), \<^typ>\<open>kvirt\<close> (disk driver), \<^typ>\<open>ktrap\<close> (control registers). An operation of a layer works on every extension of its record.

  \<^bold>\<open>Parts and theories.\<close>
  \<^item> \<^verbatim>\<open>Xv6_Prelude\<close>, \<^verbatim>\<open>Kstate\<close>: C integers and constants (\<^verbatim>\<open>kernel/types.h\<close>, \<^verbatim>\<open>param.h\<close>, \<^verbatim>\<open>riscv.h\<close>, \<^verbatim>\<open>memlayout.h\<close>); processes, CPUs and
    the first two layers of the state (\<^verbatim>\<open>proc.h\<close>).
  \<^item> \<^verbatim>\<open>Cmem\<close>: \<^verbatim>\<open>kernel/string.c\<close> on byte memory. \<^verbatim>\<open>memmove\<close> is right for overlapping ranges and \<^verbatim>\<open>safestrcpy\<close> terminates its copy.
  \<^item> \<^verbatim>\<open>Kalloc\<close>: \<^verbatim>\<open>kernel/kalloc.c\<close>. The free list is a linked list in the free pages; free and allocated pages
    partition the managed memory.
  \<^item> \<^verbatim>\<open>Vm\<close>, \<^verbatim>\<open>Vm_Inv\<close>, \<^verbatim>\<open>Vm_User\<close>, \<^verbatim>\<open>Vm_Frame\<close>: \<^verbatim>\<open>kernel/vm.c\<close>. The page-table tree in memory, its invariant, the user view of an address
    space that the copy functions read and write, and what they leave alone.
  \<^item> \<^verbatim>\<open>Spinlock\<close>, \<^verbatim>\<open>Sleeplock\<close>: \<^verbatim>\<open>kernel/spinlock.c\<close>, \<^verbatim>\<open>sleeplock.c\<close>. The operations, and step relations in which CPUs or processes
    interleave; mutual exclusion and no lost wakeup by rule induction.
  \<^item> \<^verbatim>\<open>Proc\<close>, \<^verbatim>\<open>Proc_Life\<close>, \<^verbatim>\<open>Lottery\<close>: \<^verbatim>\<open>kernel/proc.c\<close>. The process table, sleep and wakeup, wait, kill, fork and exit, and the lottery
    scheduler with its random numbers.
  \<^item> \<^verbatim>\<open>Bio\<close>, \<^verbatim>\<open>Log\<close>, \<^verbatim>\<open>Fs\<close>: \<^verbatim>\<open>kernel/bio.c\<close>, \<^verbatim>\<open>log.c\<close>, \<^verbatim>\<open>fs.c\<close>. The buffer cache with an abstract reading of its contents, commit and recovery
    with a crash after any disk write, inodes, directories and paths.
  \<^item> \<^verbatim>\<open>Virtio\<close>: \<^verbatim>\<open>kernel/virtio_disk.c\<close>. The descriptors and rings shared with the device; a request implements the disk step of \<^verbatim>\<open>Bio\<close>.
  \<^item> \<^verbatim>\<open>Printf\<close>, \<^verbatim>\<open>Console\<close>: \<^verbatim>\<open>kernel/printf.c\<close>, \<^verbatim>\<open>user/printf.c\<close>, \<^verbatim>\<open>kernel/console.c\<close>, \<^verbatim>\<open>uart.c\<close>.
  \<^item> \<^verbatim>\<open>Ring_Buffer\<close>, \<^verbatim>\<open>Sharedbuf\<close>, \<^verbatim>\<open>File\<close>: the locale of bounded queues, interpreted on the shared buffer of
    \<^verbatim>\<open>kernel/sysproc.c\<close> and on the pipes of \<^verbatim>\<open>pipe.c\<close>; \<^verbatim>\<open>file.c\<close>.
  \<^item> \<^verbatim>\<open>Sysproc\<close>, \<^verbatim>\<open>Exec\<close>, \<^verbatim>\<open>Sysfile\<close>: \<^verbatim>\<open>kernel/syscall.c\<close> (arguments), \<^verbatim>\<open>sysproc.c\<close>, \<^verbatim>\<open>exec.c\<close>, \<^verbatim>\<open>sysfile.c\<close>.
  \<^item> \<^verbatim>\<open>Trap\<close>: \<^verbatim>\<open>kernel/trap.c\<close>, \<^verbatim>\<open>plic.c\<close>, the dispatch of \<^verbatim>\<open>syscall.c\<close>, \<^verbatim>\<open>main.c\<close>, \<^verbatim>\<open>start.c\<close>. Unknown system calls, and the clock that wakes a pausing process.
  \<^item> \<^verbatim>\<open>User_Text\<close>: \<^verbatim>\<open>user/grep.c\<close>, \<^verbatim>\<open>wc.c\<close>, \<^verbatim>\<open>cat.c\<close>, \<^verbatim>\<open>echo.c\<close> and functions of \<^verbatim>\<open>ulib.c\<close>. The pattern matcher against a declarative reading of
    patterns; the output does not depend on how reads cut the input.
  \<^item> \<^verbatim>\<open>Shell\<close>: \<^verbatim>\<open>user/sh.c\<close>. The recursive descent parser ends on every line and its commands refer to words of the line; the system
    calls of a command as a tree.

  \<^bold>\<open>Parameters.\<close> The address of the end of the kernel image, of the trampoline page and of \<^verbatim>\<open>forkret\<close>, which the linker
  assigns, the registers and the behaviour of the disk device, the registers that \<^verbatim>\<open>swtch.S\<close> saves and the uninitialised padding of \<^verbatim>\<open>struct stat\<close> are arguments.

  \<^bold>\<open>Bounds and fuel.\<close> A loop whose bound depends on the memory or the disk being well formed is a
  \<^verbatim>\<open>partial_function (option)\<close>, so that not returning is \<^const>\<open>None\<close>. The only fuel is the depth of \<^verbatim>\<open>freewalk\<close>, 3, which is the
  number of levels of an Sv39 page table. The other loops are structural or have a measure.

  \<^bold>\<open>Not modelled.\<close> Assembly (\<^verbatim>\<open>entry.S\<close>, \<^verbatim>\<open>kernelvec.S\<close>, \<^verbatim>\<open>trampoline.S\<close>, \<^verbatim>\<open>swtch.S\<close>), the messages that the file system prints, the image builder
  and most user programs, among them the test programs, which drive the system through its calls.
\<close>

end
